(* ===== verification/Prelude.thy ===== *)
theory Prelude
  imports Main "HOL-Library.Word" "HOL-Library.Tree"
begin

text \<open>
  Shared vocabulary of the development: the machine types of the C sources, the
  return codes of nginx, the outcome of an allocator, and the byte-string
  primitives that the components call.

  A C buffer that the code delimits by a pointer and a length
  (\<^verbatim>\<open>ngx_str_t\<close>) is a list of bytes.  A cursor into such a buffer is
  the list of bytes still unread, so that a dereference of the cursor is a match on
  a non-empty list and a read past the end cannot be written down.

  The string helpers of nginx that the sources call are taken from
  \<^verbatim>\<open>ci/fuzz/ngx_http_shim.h\<close>, which carries their bodies.
\<close>

unbundle bit_operations_syntax

section \<open>Proof-method collections\<close>

named_theorems rc_defs \<open>definitions of operations, unfolded by the component proofs\<close>
named_theorems inv_intros \<open>preservation of the component invariants\<close>

section \<open>Types\<close>

type_synonym byte = "8 word"
type_synonym bytes = "byte list"
type_synonym u32 = "32 word"
type_synonym u64 = "64 word"

text \<open>A C string literal as bytes.\<close>

definition str :: "string \<Rightarrow> bytes" where
  "str s = map of_char s"

lemma str_simps [simp]:
  "str [] = []"
  "str (c # s) = of_char c # str s"
  by (simp_all add: str_def)

lemma length_str [simp]: "length (str s) = length s"
  by (simp add: str_def)

datatype ngx_rc = NGX_OK | NGX_ERROR | NGX_DECLINED | NGX_AGAIN | NGX_DONE

section \<open>Allocators\<close>

text \<open>
  Whether an allocation succeeds is decided outside the module, so an allocator is a
  list of answers that is consumed from the front: \<^term>\<open>False\<close> makes
  the next allocation return NULL.  When the list is exhausted every further
  allocation succeeds; the empty list is the allocator that never fails.
\<close>

type_synonym alloc = "bool list"

fun alloc_next :: "alloc \<Rightarrow> bool \<times> alloc" where
  "alloc_next [] = (True, [])"
| "alloc_next (b # bs) = (b, bs)"

text \<open>
  The slab arena behind a shared-memory zone (\<^verbatim>\<open>ngx_slab_pool_t\<close>):
  the answers its allocator will give, the number of chunks handed out and not yet
  freed, and the contents each freed chunk had at the moment it was returned to the
  arena, where the next allocation of its size can read it.
\<close>

record slab =
  answers :: alloc
  live :: nat
  freed :: "bytes list"

definition slab_alloc :: "slab \<Rightarrow> bool \<times> slab" where
  "slab_alloc s =
     (case alloc_next (answers s) of
        (True, as) \<Rightarrow> (True, s\<lparr>answers := as, live := Suc (live s)\<rparr>)
      | (False, as) \<Rightarrow> (False, s\<lparr>answers := as\<rparr>))"

definition slab_free :: "bytes \<Rightarrow> slab \<Rightarrow> slab" where
  "slab_free content s = s\<lparr>live := live s - 1, freed := content # freed s\<rparr>"

lemma slab_alloc_cases:
  obtains (ok) s' where "slab_alloc s = (True, s')" "live s' = Suc (live s)" "freed s' = freed s"
  | (oom) s' where "slab_alloc s = (False, s')" "live s' = live s" "freed s' = freed s"
  by (cases "alloc_next (answers s)"; cases "fst (alloc_next (answers s))")
    (auto simp: slab_alloc_def split: bool.splits)

lemma slab_alloc_effect:
  "slab_alloc s = (b, s') \<Longrightarrow> live s' = (if b then Suc (live s) else live s) \<and> freed s' = freed s"
  by (rule slab_alloc_cases [of s]) auto

lemma slab_free_simps [simp]:
  "live (slab_free c s) = live s - 1"
  "freed (slab_free c s) = c # freed s"
  "answers (slab_free c s) = answers s"
  by (simp_all add: slab_free_def)

lemma slab_alloc_never_fails [simp]:
  "answers s = [] \<Longrightarrow> slab_alloc s = (True, s\<lparr>live := Suc (live s)\<rparr>)"
  by (simp add: slab_alloc_def)

section \<open>Byte comparison\<close>

text \<open>
  \<^verbatim>\<open>ngx_memcmp\<close> is the C library's \<^verbatim>\<open>memcmp\<close>:
  the sign of the first difference.  The callers pass buffers of equal length.
\<close>

fun memcmp :: "bytes \<Rightarrow> bytes \<Rightarrow> int" where
  "memcmp (x # xs) (y # ys) =
     (if x < y then - 1 else if y < x then 1 else memcmp xs ys)"
| "memcmp _ _ = 0"

lemma memcmp_refl [simp]: "memcmp xs xs = 0"
  by (induction xs) auto

lemma memcmp_zero: "length xs = length ys \<Longrightarrow> memcmp xs ys = 0 \<longleftrightarrow> xs = ys"
  by (induction xs ys rule: list_induct2) auto

lemma memcmp_antisym: "length xs = length ys \<Longrightarrow> memcmp ys xs = - memcmp xs ys"
  by (induction xs ys rule: list_induct2) auto

lemma memcmp_trans:
  "length xs = length ys \<Longrightarrow> length ys = length zs \<Longrightarrow>
   memcmp xs ys < 0 \<Longrightarrow> memcmp ys zs < 0 \<Longrightarrow> memcmp xs zs < 0"
proof (induction xs ys zs rule: list_induct3)
  case Nil
  then show ?case by simp
next
  case (Cons x xs y ys z zs)
  then show ?case by (auto split: if_splits)
qed

text \<open>
  \<^verbatim>\<open>strncmp\<close> of the C library, for the tests against 0 that the
  sources make: it stops at a NUL byte of both strings.
\<close>

fun strncmp_eq :: "bytes \<Rightarrow> bytes \<Rightarrow> nat \<Rightarrow> bool" where
  "strncmp_eq s1 s2 0 = True"
| "strncmp_eq (c1 # s1) (c2 # s2) (Suc n) =
     (if c1 \<noteq> c2 then False else if c1 = 0 then True else strncmp_eq s1 s2 n)"
| "strncmp_eq _ _ (Suc n) = False"

lemma strncmp_eq_nul_free:
  "0 \<notin> set s2 \<Longrightarrow> length s1 \<ge> n \<Longrightarrow> length s2 \<ge> n \<Longrightarrow>
   strncmp_eq s1 s2 n \<longleftrightarrow> take n s1 = take n s2"
  by (induction s1 s2 n rule: strncmp_eq.induct) auto

text \<open>
  \<^verbatim>\<open>ngx_strncasecmp\<close>, again for the tests against 0.
\<close>

definition ngx_tolower :: "byte \<Rightarrow> byte" where
  "ngx_tolower c = (if 0x41 \<le> c \<and> c \<le> 0x5a then c OR 0x20 else c)"

fun ngx_strncasecmp_eq :: "bytes \<Rightarrow> bytes \<Rightarrow> nat \<Rightarrow> bool" where
  "ngx_strncasecmp_eq s1 s2 0 = True"
| "ngx_strncasecmp_eq (c1 # s1) (c2 # s2) (Suc n) =
     (if ngx_tolower c1 \<noteq> ngx_tolower c2 then False
      else if ngx_tolower c1 = 0 then True
      else ngx_strncasecmp_eq s1 s2 n)"
| "ngx_strncasecmp_eq _ _ (Suc n) = False"

text \<open>
  \<^verbatim>\<open>ngx_strlchr\<close>: the bytes before the first occurrence of
  \<open>c\<close> and the bytes after it.
\<close>

fun ngx_strlchr :: "bytes \<Rightarrow> byte \<Rightarrow> (bytes \<times> bytes) option" where
  "ngx_strlchr [] c = None"
| "ngx_strlchr (x # xs) c =
     (if x = c then Some ([], xs)
      else map_option (\<lambda>(pre, post). (x # pre, post)) (ngx_strlchr xs c))"

lemma ngx_strlchr_Some:
  "ngx_strlchr xs c = Some (pre, post) \<longleftrightarrow> xs = pre @ c # post \<and> c \<notin> set pre"
proof (induction xs arbitrary: pre)
  case Nil
  then show ?case by simp
next
  case (Cons x xs)
  then show ?case by (cases pre) auto
qed

lemma ngx_strlchr_None [simp]: "ngx_strlchr xs c = None \<longleftrightarrow> c \<notin> set xs"
  by (induction xs) auto

section \<open>Bytes as numbers\<close>

lemma byte_unat_less [simp]: "unat (b :: byte) < 256"
  by (rule order.strict_trans2 [OF unsigned_less]) simp

lemma byte_le_unat: "(a :: byte) \<le> b \<longleftrightarrow> unat a \<le> unat b"
  by (simp add: word_le_nat_alt)

lemma byte_less_unat: "(a :: byte) < b \<longleftrightarrow> unat a < unat b"
  by (simp add: word_less_nat_alt)

text \<open>
  Bitwise expressions read as arithmetic: an OR of disjoint fields is a sum, a shift is a
  multiplication or a division, a mask is a remainder.
\<close>

lemma or_nat_add: "(x::nat) < 2 ^ k \<Longrightarrow> m * 2 ^ k OR x = m * 2 ^ k + x"
proof -
  assume "x < 2 ^ k"
  then have x: "take_bit k x = x" by (simp add: take_bit_nat_eq_self)
  have "push_bit k m AND take_bit k x = 0" by (simp add: bit_eq_iff bit_simps)
  from disjunctive_add_eq_or [OF this] show ?thesis by (simp add: x push_bit_eq_mult)
qed

lemma and_63_mod: "(n::nat) AND 63 = n mod 64"
  using take_bit_eq_mask [of 6 n] by (simp add: take_bit_eq_mod mask_eq_exp_minus_1)

lemmas unat_bits = unsigned_or_eq unsigned_and_eq unat_drop_bit_eq drop_bit_eq_div and_63_mod

text \<open>
  Every byte is one of the 256 numerals, so a claim on all bytes is decided by
  evaluation at each of them.
\<close>

lemma all_bytes: "(\<forall>b :: byte. P b) \<longleftrightarrow> list_all (\<lambda>n. P (word_of_nat n)) [0..<256]"
proof
  assume "list_all (\<lambda>n. P (word_of_nat n)) [0..<256]"
  then have all: "P (word_of_nat n)" if "n < 256" for n
    using that by (simp add: list_all_iff)
  have "P b" for b
    using all [of "unat b"] by simp
  then show "\<forall>b. P b" by blast
qed (simp add: list_all_iff)

end
