(* ===== verification/Name_Tree.thy ===== *)
theory Name_Tree
  imports Prelude
begin

text \<open>
  The shared-memory registries (\<^verbatim>\<open>ngx_autocert_challenge.c\<close>,
  \<^verbatim>\<open>ngx_autocert_alpn.c\<close>, \<^verbatim>\<open>ngx_autocert_requests.c\<close>)
  are each an nginx red-black tree whose nodes are ordered by the crc32 of a name,
  then by the length of the name, then by its bytes.  This theory holds what the three
  have in common: that order, the red-black tree operations of nginx as parameters, the
  locale of the insertion and lookup discipline, and the facts about node lists that
  the component proofs use.
\<close>

section \<open>The node order\<close>

datatype node_key = Node_Key (key_hash: u32) (key_name: bytes)

instantiation node_key :: linorder
begin

definition less_node_key :: "node_key \<Rightarrow> node_key \<Rightarrow> bool" where
  "less_node_key a b \<longleftrightarrow>
     key_hash a < key_hash b \<or>
     key_hash a = key_hash b \<and>
       (length (key_name a) < length (key_name b) \<or>
        length (key_name a) = length (key_name b) \<and> memcmp (key_name a) (key_name b) < 0)"

definition less_eq_node_key :: "node_key \<Rightarrow> node_key \<Rightarrow> bool" where
  "less_eq_node_key a b \<longleftrightarrow> a = b \<or> a < b"

instance
proof
  fix a b c :: node_key
  have irrefl: "\<not> x < x" for x :: node_key
    by (simp add: less_node_key_def)
  have trans: "x < z" if "x < y" "y < z" for x y z :: node_key
    using that memcmp_trans [of "key_name x" "key_name y" "key_name z"]
    unfolding less_node_key_def by (elim disjE conjE) (auto dest: order.strict_trans)
  have total: "x < y \<or> x = y \<or> y < x" for x y :: node_key
  proof (cases "key_hash x = key_hash y \<and> length (key_name x) = length (key_name y)")
    case True
    then have "memcmp (key_name y) (key_name x) = - memcmp (key_name x) (key_name y)"
      by (intro memcmp_antisym) simp
    with True show ?thesis
      using memcmp_zero [of "key_name x" "key_name y"] node_key.expand [of x y]
      by (auto simp: less_node_key_def)
  next
    case False
    then show ?thesis by (auto simp: less_node_key_def)
  qed
  show "a < b \<longleftrightarrow> a \<le> b \<and> \<not> b \<le> a"
    using irrefl trans by (auto simp: less_eq_node_key_def)
  show "a \<le> a" by (simp add: less_eq_node_key_def)
  show "a \<le> b \<Longrightarrow> b \<le> c \<Longrightarrow> a \<le> c"
    using trans by (auto simp: less_eq_node_key_def)
  show "a \<le> b \<Longrightarrow> b \<le> a \<Longrightarrow> a = b"
    using irrefl trans by (auto simp: less_eq_node_key_def)
  show "a \<le> b \<or> b \<le> a"
    using total by (auto simp: less_eq_node_key_def)
qed

end

lemma Node_Key_less:
  "Node_Key h1 n1 < Node_Key h2 n2 \<longleftrightarrow>
     h1 < h2 \<or> h1 = h2 \<and> (length n1 < length n2 \<or> length n1 = length n2 \<and> memcmp n1 n2 < 0)"
  by (simp add: less_node_key_def)

section \<open>The red-black tree of nginx\<close>

text \<open>
  A tree is an ordinary binary tree: the sentinel is \<^const>\<open>Leaf\<close>, the
  colours are the business of nginx.  \<^verbatim>\<open>ngx_rbtree_insert\<close> calls the
  insertion routine of the module and then recolours and rotates;
  \<^verbatim>\<open>ngx_rbtree_delete\<close> unlinks a node and rebalances;
  \<^verbatim>\<open>ngx_rbtree_min\<close> with \<^verbatim>\<open>ngx_rbtree_next\<close>
  walks the nodes from left to right.  They are parameters; what the module relies on
  is that none of them changes the left-to-right sequence of the nodes, other than
  taking out the deleted one.
\<close>

record 'n rbtree_ops =
  rb_fixup :: "'n tree \<Rightarrow> 'n tree"
  rb_delete :: "'n \<Rightarrow> 'n tree \<Rightarrow> 'n tree"
  rb_walk :: "'n tree \<Rightarrow> 'n list"

definition rbtree_ok :: "'n rbtree_ops \<Rightarrow> bool" where
  "rbtree_ok rb \<longleftrightarrow>
     (\<forall>t. inorder (rb_fixup rb t) = inorder t) \<and>
     (\<forall>t n. distinct (inorder t) \<longrightarrow> n \<in> set (inorder t) \<longrightarrow>
        inorder (rb_delete rb n t) = remove1 n (inorder t)) \<and>
     (\<forall>t. rb_walk rb t = inorder t)"

lemma rbtree_okD:
  assumes "rbtree_ok rb"
  shows "inorder (rb_fixup rb t) = inorder t"
    and "distinct (inorder t) \<Longrightarrow> n \<in> set (inorder t) \<Longrightarrow>
      inorder (rb_delete rb n t) = remove1 n (inorder t)"
    and "rb_walk rb t = inorder t"
  using assms by (simp_all add: rbtree_ok_def)

text \<open>
  An instance for the witnesses: no rotation, and deletion by joining the two subtrees.
\<close>

fun tree_join :: "'n tree \<Rightarrow> 'n tree \<Rightarrow> 'n tree" where
  "tree_join Leaf r = r"
| "tree_join (Node a x b) r = Node a x (tree_join b r)"

lemma inorder_tree_join [simp]: "inorder (tree_join l r) = inorder l @ inorder r"
  by (induction l) auto

fun tree_remove :: "'n \<Rightarrow> 'n tree \<Rightarrow> 'n tree" where
  "tree_remove n Leaf = Leaf"
| "tree_remove n (Node l x r) =
     (if n = x then tree_join l r
      else if n \<in> set (inorder l) then Node (tree_remove n l) x r
      else Node l x (tree_remove n r))"

lemma inorder_tree_remove:
  "distinct (inorder t) \<Longrightarrow> inorder (tree_remove n t) = remove1 n (inorder t)"
proof (induction t)
  case Leaf
  then show ?case by simp
next
  case (Node l x r)
  then show ?case by (auto simp: remove1_append remove1_idem)
qed

definition plain_ops :: "'n rbtree_ops" where
  "plain_ops = \<lparr>rb_fixup = (\<lambda>t. t), rb_delete = tree_remove, rb_walk = inorder\<rparr>"

lemma rbtree_ok_plain_ops: "rbtree_ok plain_ops"
  by (simp add: rbtree_ok_def plain_ops_def inorder_tree_remove)

lemma plain_ops_simps [simp]:
  "rb_fixup plain_ops t = t"
  "rb_delete plain_ops n t = tree_remove n t"
  "rb_walk plain_ops t = inorder t"
  by (simp_all add: plain_ops_def)

section \<open>Node lists in order\<close>

text \<open>
  The well-formedness of a registry is a fact about its left-to-right node list: the
  keys increase, and the stored hash of each node is the hash of its name.
\<close>

definition index_wf :: "('n \<Rightarrow> node_key) \<Rightarrow> (bytes \<Rightarrow> u32) \<Rightarrow> 'n list \<Rightarrow> bool" where
  "index_wf key crc ns \<longleftrightarrow>
     sorted_wrt (<) (map key ns) \<and> (\<forall>n \<in> set ns. key_hash (key n) = crc (key_name (key n)))"

definition find_name :: "('n \<Rightarrow> node_key) \<Rightarrow> bytes \<Rightarrow> 'n list \<Rightarrow> 'n option" where
  "find_name key nm ns = find (\<lambda>n. key_name (key n) = nm) ns"

lemma find_name_simps [simp]:
  "find_name key nm [] = None"
  "find_name key nm (n # ns) = (if key_name (key n) = nm then Some n else find_name key nm ns)"
  by (simp_all add: find_name_def)

lemma find_name_append:
  "find_name key nm (xs @ ys) =
     (case find_name key nm xs of Some n \<Rightarrow> Some n | None \<Rightarrow> find_name key nm ys)"
  by (induction xs) auto

lemma find_name_None: "find_name key nm ns = None \<longleftrightarrow> nm \<notin> key_name ` key ` set ns"
  by (induction ns) auto

lemma find_name_SomeD: "find_name key nm ns = Some n \<Longrightarrow> n \<in> set ns \<and> key_name (key n) = nm"
  by (induction ns) (auto split: if_splits)

lemma find_name_map:
  assumes "\<And>n. key_name (key (f n)) = key_name (key n)"
  shows "find_name key nm (map f ns) = map_option f (find_name key nm ns)"
  using assms by (induction ns) auto

lemma index_wf_Nil [simp]: "index_wf key crc []"
  by (simp add: index_wf_def)

lemma index_wf_distinct_keys: "index_wf key crc ns \<Longrightarrow> distinct (map key ns)"
  by (auto simp: index_wf_def strict_sorted_iff)

lemma index_wf_distinct: "index_wf key crc ns \<Longrightarrow> distinct ns"
  by (drule index_wf_distinct_keys) (simp add: distinct_map)

lemma index_wf_key_name_inj:
  assumes "index_wf key crc ns" "a \<in> set ns" "b \<in> set ns"
    and "key_name (key a) = key_name (key b)"
  shows "a = b"
proof -
  have "key a = key b"
    using assms by (metis index_wf_def node_key.expand)
  then show ?thesis
    using index_wf_distinct_keys [OF assms(1)] assms(2,3) by (simp add: distinct_map inj_on_def)
qed

lemma find_name_SomeI:
  "index_wf key crc ns \<Longrightarrow> n \<in> set ns \<Longrightarrow> find_name key (key_name (key n)) ns = Some n"
proof (cases "find_name key (key_name (key n)) ns")
  case None
  moreover assume "n \<in> set ns"
  ultimately show ?thesis by (auto simp: find_name_None)
next
  case (Some m)
  moreover assume "index_wf key crc ns" "n \<in> set ns"
  ultimately show ?thesis
    using find_name_SomeD [OF Some] index_wf_key_name_inj by fastforce
qed

lemma find_name_Some_iff:
  "index_wf key crc ns \<Longrightarrow>
   find_name key nm ns = Some n \<longleftrightarrow> n \<in> set ns \<and> key_name (key n) = nm"
  by (auto dest: find_name_SomeD intro: find_name_SomeI)

lemma index_wf_map_fields:
  assumes "\<And>n. key (f n) = key n"
  shows "index_wf key crc (map f ns) = index_wf key crc ns"
proof -
  have "map key (map f ns) = map key ns" using assms by simp
  then show ?thesis by (auto simp: index_wf_def assms simp del: map_map)
qed

lemma sorted_wrt_remove1: "sorted_wrt P xs \<Longrightarrow> sorted_wrt P (remove1 x xs)"
proof (induction xs)
  case (Cons a xs)
  moreover have "set (remove1 x xs) \<subseteq> set xs" by (rule set_remove1_subset)
  ultimately show ?case by auto
qed simp

lemma index_wf_filter: "index_wf key crc ns \<Longrightarrow> index_wf key crc (filter P ns)"
  by (simp add: index_wf_def sorted_wrt_map sorted_wrt_filter)

lemma index_wf_remove1: "index_wf key crc ns \<Longrightarrow> index_wf key crc (remove1 n ns)"
  by (auto simp: index_wf_def sorted_wrt_map sorted_wrt_remove1 dest: notin_set_remove1)

lemma find_name_remove1:
  assumes "index_wf key crc ns" "n \<in> set ns"
  shows "find_name key nm (remove1 n ns) =
    (if nm = key_name (key n) then None else find_name key nm ns)"
proof (cases "nm = key_name (key n)")
  case True
  have "nm \<notin> key_name ` key ` set (remove1 n ns)"
    using assms index_wf_key_name_inj [OF assms(1)] index_wf_distinct [OF assms(1)] True
    by auto
  with True show ?thesis by (simp add: find_name_None)
next
  case False
  then show ?thesis
    by (induction ns) auto
qed

lemma find_name_update:
  assumes wf: "index_wf key crc ns" and nm: "find_name key nm ns = Some n0"
    and key: "key (f n0) = key n0"
  shows "find_name key nm' (map (\<lambda>n. if n = n0 then f n else n) ns) =
    (if nm' = nm then Some (f n0) else find_name key nm' ns)"
proof -
  have "find_name key nm' (map (\<lambda>n. if n = n0 then f n else n) ns) =
      map_option (\<lambda>n. if n = n0 then f n else n) (find_name key nm' ns)"
    using key by (intro find_name_map) simp
  moreover have "n = n0 \<longleftrightarrow> nm' = nm" if "find_name key nm' ns = Some n" for n
    using that nm find_name_Some_iff [OF wf] by (metis option.inject)
  moreover have "nm' \<noteq> nm" if "find_name key nm' ns = None"
    using that nm by auto
  ultimately show ?thesis
    using nm by (cases "find_name key nm' ns") auto
qed

lemma find_name_insort:
  assumes "find_name key (key_name (key n)) ns = None"
  shows "find_name key nm (insort_key key n ns) =
    (if nm = key_name (key n) then Some n else find_name key nm ns)"
  using assms by (induction ns) (auto split: if_splits)

lemma index_wf_insort:
  assumes "index_wf key crc ns" "find_name key (key_name (key n)) ns = None"
    and "key_hash (key n) = crc (key_name (key n))"
  shows "index_wf key crc (insort_key key n ns)"
proof -
  have "key n \<notin> key ` set ns"
    using assms(2) by (auto simp: find_name_None)
  moreover have "sorted_wrt (<) (map key ns)"
    using assms(1) by (simp add: index_wf_def)
  ultimately have "sorted_wrt (<) (map key (insort_key key n ns))"
  proof (induction ns)
    case (Cons a ns)
    then show ?case by (auto simp: set_insort_key)
  qed simp
  with assms show ?thesis by (auto simp: index_wf_def set_insort_key)
qed

section \<open>The insertion and lookup discipline\<close>

text \<open>
  What a registry has to promise about its insertion routine and its lookup: both
  descend by the same order.  The recursion equations are the bodies of the two loops.
  The locale gives the effect of the two on the node list.
\<close>

locale name_index =
  fixes key :: "'n \<Rightarrow> node_key"
    and ins :: "'n \<Rightarrow> 'n tree \<Rightarrow> 'n tree"
    and look :: "bytes \<Rightarrow> u32 \<Rightarrow> 'n tree \<Rightarrow> 'n option"
  assumes ins_Leaf: "ins n Leaf = Node Leaf n Leaf"
    and ins_Node: "ins n (Node l t r) =
      (if key n < key t then Node (ins n l) t r else Node l t (ins n r))"
    and look_Leaf: "look nm h Leaf = None"
    and look_Node: "look nm h (Node l t r) =
      (if Node_Key h nm < key t then look nm h l
       else if key t = Node_Key h nm then Some t else look nm h r)"
begin

lemma look_find:
  "index_wf key crc (inorder t) \<Longrightarrow> look nm (crc nm) t = find_name key nm (inorder t)"
proof (induction t)
  case Leaf
  then show ?case by (simp add: look_Leaf)
next
  case (Node l x r)
  let ?k = "Node_Key (crc nm) nm"
  from Node.prems have wf: "index_wf key crc (inorder l)" "index_wf key crc (inorder r)"
    and lt: "\<And>n. n \<in> set (inorder l) \<Longrightarrow> key n < key x"
    and gt: "\<And>n. n \<in> set (inorder r) \<Longrightarrow> key x < key n"
    by (auto simp: index_wf_def sorted_wrt_append)
  have named: "key n = ?k \<longleftrightarrow> key_name (key n) = nm"
    if "n \<in> set (inorder (Node l x r))" for n
    using that Node.prems by (auto simp: index_wf_def intro: node_key.expand)
  have not_l: "find_name key nm (inorder l) = None" if "\<not> ?k < key x"
    using that lt named by (force simp: find_name_None)
  have not_x_r: "key_name (key x) \<noteq> nm" "find_name key nm (inorder r) = None" if "?k < key x"
    using that gt named by (force simp: find_name_None)+
  show ?case
    using Node.IH(1) [OF wf(1)] Node.IH(2) [OF wf(2)] not_l not_x_r named [of x]
    by (auto simp: look_Node find_name_append split: option.splits)
qed

lemma inorder_ins:
  assumes "index_wf key crc (inorder t)" "find_name key (key_name (key n)) (inorder t) = None"
  shows "inorder (ins n t) = insort_key key n (inorder t)"
  using assms
proof (induction t)
  case Leaf
  then show ?case by (simp add: ins_Leaf)
next
  case (Node l x r)
  from Node.prems have wf: "index_wf key crc (inorder l)" "index_wf key crc (inorder r)"
    and lt: "\<And>m. m \<in> set (inorder l) \<Longrightarrow> key m < key x"
    and fresh: "find_name key (key_name (key n)) (inorder l) = None"
      "find_name key (key_name (key n)) (inorder r) = None" "key_name (key x) \<noteq> key_name (key n)"
    by (auto simp: index_wf_def sorted_wrt_append find_name_append split: option.splits if_splits)
  have left: "insort_key key n (xs @ x # ys) = insort_key key n xs @ x # ys"
    if "key n < key x" for xs ys
    using that by (induction xs) auto
  have right: "insort_key key n (xs @ x # ys) = xs @ x # insort_key key n ys"
    if "\<not> key n < key x" "\<And>m. m \<in> set xs \<Longrightarrow> key m < key x" for xs ys
    using that
  proof (induction xs)
    case Nil
    from fresh(3) have "key n \<noteq> key x" by auto
    with Nil(1) have "\<not> key n \<le> key x" by order
    then show ?case by simp
  next
    case (Cons a xs)
    have "key a < key x" by (rule Cons.prems(2)) simp
    with Cons.prems(1) have "\<not> key n \<le> key a" by order
    with Cons show ?case by simp
  qed
  show ?case
  proof (cases "key n < key x")
    case True
    with Node.IH(1) [OF wf(1) fresh(1)] left show ?thesis by (simp add: ins_Node)
  next
    case False
    have "insort_key key n (inorder l @ x # inorder r) = inorder l @ x # insort_key key n (inorder r)"
      using False lt by (rule right)
    with False Node.IH(2) [OF wf(2) fresh(2)] show ?thesis by (simp add: ins_Node)
  qed
qed

end

end
