(* ===== verification/Name_Store.thy ===== *)
theory Name_Store
  imports Name_Tree
begin

text \<open>
  The contract that the http-01 token store and the tls-alpn-01 certificate store both
  offer to the order state machine (the writer) and to the request and handshake
  handlers (the readers): a store of values under names in which a write either
  succeeds or leaves everything as it was, and a read returns the last successful write
  that was not removed since.  The contract is a locale; a history of calls is run
  against it and against a finite map, and the two agree.
\<close>

datatype 'v store_call = Call_Set bytes 'v | Call_Remove bytes

fun store_run ::
  "('z \<Rightarrow> bytes \<Rightarrow> 'v \<Rightarrow> ngx_rc \<times> 'z) \<Rightarrow> ('z \<Rightarrow> bytes \<Rightarrow> ngx_rc \<times> 'z) \<Rightarrow>
   'z \<Rightarrow> 'v store_call list \<Rightarrow> ngx_rc list \<times> 'z" where
  "store_run st rm z [] = ([], z)"
| "store_run st rm z (Call_Set n v # cs) =
     (let (rc, z') = st z n v; (rcs, z'') = store_run st rm z' cs in (rc # rcs, z''))"
| "store_run st rm z (Call_Remove n # cs) =
     (let (rc, z') = rm z n; (rcs, z'') = store_run st rm z' cs in (rc # rcs, z''))"

text \<open>The same history on a map: a call counts when it returned \<^const>\<open>NGX_OK\<close>.\<close>

fun map_run :: "(bytes \<rightharpoonup> 'v) \<Rightarrow> ('v store_call \<times> ngx_rc) list \<Rightarrow> (bytes \<rightharpoonup> 'v)" where
  "map_run m [] = m"
| "map_run m ((Call_Set n v, rc) # cs) = map_run (if rc = NGX_OK then m(n \<mapsto> v) else m) cs"
| "map_run m ((Call_Remove n, rc) # cs) = map_run (m(n := None)) cs"

locale name_store =
  fixes st :: "'z \<Rightarrow> bytes \<Rightarrow> 'v \<Rightarrow> ngx_rc \<times> 'z"
    and rm :: "'z \<Rightarrow> bytes \<Rightarrow> ngx_rc \<times> 'z"
    and get :: "'z \<Rightarrow> bytes \<Rightarrow> ngx_rc \<times> 'v option"
    and invar :: "'z \<Rightarrow> bool"
    and view :: "'z \<Rightarrow> bytes \<Rightarrow> 'v option"
  assumes st_invar: "invar z \<Longrightarrow> invar (snd (st z n v))"
    and st_ok: "invar z \<Longrightarrow> fst (st z n v) = NGX_OK \<Longrightarrow> view (snd (st z n v)) = (view z)(n \<mapsto> v)"
    and st_fail: "invar z \<Longrightarrow> fst (st z n v) \<noteq> NGX_OK \<Longrightarrow> view (snd (st z n v)) = view z"
    and rm_invar: "invar z \<Longrightarrow> invar (snd (rm z n))"
    and rm_view: "invar z \<Longrightarrow> view (snd (rm z n)) = (view z)(n := None)"
    and get_view: "invar z \<Longrightarrow> get z n =
      (case view z n of None \<Rightarrow> (NGX_DECLINED, None) | Some v \<Rightarrow> (NGX_OK, Some v))"
begin

lemma run_refines:
  "invar z \<Longrightarrow> store_run st rm z cs = (rcs, z') \<Longrightarrow>
   invar z' \<and> length rcs = length cs \<and> view z' = map_run (view z) (zip cs rcs)"
proof (induction cs arbitrary: z rcs)
  case Nil
  then show ?case by simp
next
  case (Cons c cs)
  show ?case
  proof (cases c)
    case (Call_Set n v)
    obtain rc z1 where z1: "st z n v = (rc, z1)" by force
    obtain rcs1 where run: "store_run st rm z1 cs = (rcs1, z')" "rcs = rc # rcs1"
      using Cons.prems Call_Set z1 by (auto split: prod.splits)
    have "invar z1" using st_invar [OF Cons.prems(1), of n v] z1 by simp
    from Cons.IH [OF this run(1)] show ?thesis
      using st_ok [OF Cons.prems(1), of n v] st_fail [OF Cons.prems(1), of n v] z1 run(2) Call_Set
      by auto
  next
    case (Call_Remove n)
    obtain rc z1 where z1: "rm z n = (rc, z1)" by force
    obtain rcs1 where run: "store_run st rm z1 cs = (rcs1, z')" "rcs = rc # rcs1"
      using Cons.prems Call_Remove z1 by (auto split: prod.splits)
    have "invar z1" using rm_invar [OF Cons.prems(1), of n] z1 by simp
    from rm_view [OF Cons.prems(1), of n] z1 have view: "view z1 = (view z)(n := None)" by simp
    from Cons.IH [OF \<open>invar z1\<close> run(1)] show ?thesis
      unfolding view run(2) Call_Remove by (simp del: fun_upd_apply)
  qed
qed

lemma get_after_run:
  "invar z \<Longrightarrow> store_run st rm z cs = (rcs, z') \<Longrightarrow>
   get z' n = (case map_run (view z) (zip cs rcs) n of
     None \<Rightarrow> (NGX_DECLINED, None) | Some v \<Rightarrow> (NGX_OK, Some v))"
  using run_refines get_view by metis

end

end
