(* ===== verification/Challenge.thy ===== *)
theory Challenge
  imports Name_Store
begin

text \<open>
  The http-01 token store of \<^verbatim>\<open>src/ngx_autocert_challenge.c\<close>: token
  to key authorization, in a red-black tree in shared memory.  Each operation runs
  under the mutex of the slab, so an execution is a sequence of whole operations.  The
  operations are modelled on an initialised zone (the tree at
  \<^verbatim>\<open>shpool->data\<close> and its slab); the initialisation callback, which
  nginx runs before any worker starts, is \<open>challenge_init_zone\<close>.
\<close>

abbreviation (input) NGX_AUTOCERT_TOKEN_MAX :: nat where "NGX_AUTOCERT_TOKEN_MAX \<equiv> 128"
abbreviation (input) NGX_AUTOCERT_KEYAUTH_MAX :: nat where "NGX_AUTOCERT_KEYAUTH_MAX \<equiv> 512"

record challenge_node =
  cn_hash :: u32
  cn_keyauth :: bytes
  cn_token :: bytes

record challenge_zone =
  cz_rbtree :: "challenge_node tree"
  cz_slab :: slab

definition cn_key :: "challenge_node \<Rightarrow> node_key" where
  "cn_key cn = Node_Key (cn_hash cn) (cn_token cn)"

section \<open>Tree routines\<close>

text \<open>
  The insertion loop compares the hash, then the token length, then the bytes, and
  links the node where it meets the sentinel.  nginx calls it on a non-empty tree and
  makes the node the root of an empty one.
\<close>

fun challenge_insert_value ::
  "challenge_node \<Rightarrow> challenge_node tree \<Rightarrow> challenge_node tree" where
  "challenge_insert_value cn Leaf = Node Leaf cn Leaf"
| "challenge_insert_value cn (Node l temp r) =
     (if cn_hash cn \<noteq> cn_hash temp then
        (if cn_hash cn < cn_hash temp
         then Node (challenge_insert_value cn l) temp r
         else Node l temp (challenge_insert_value cn r))
      else if length (cn_token cn) \<noteq> length (cn_token temp) then
        (if length (cn_token cn) < length (cn_token temp)
         then Node (challenge_insert_value cn l) temp r
         else Node l temp (challenge_insert_value cn r))
      else if memcmp (cn_token cn) (cn_token temp) < 0
        then Node (challenge_insert_value cn l) temp r
        else Node l temp (challenge_insert_value cn r))"

fun challenge_lookup ::
  "bytes \<Rightarrow> u32 \<Rightarrow> challenge_node tree \<Rightarrow> challenge_node option" where
  "challenge_lookup token hash Leaf = None"
| "challenge_lookup token hash (Node l cn r) =
     (if hash < cn_hash cn then challenge_lookup token hash l
      else if hash > cn_hash cn then challenge_lookup token hash r
      else if length token \<noteq> length (cn_token cn) then
        (if length token < length (cn_token cn)
         then challenge_lookup token hash l else challenge_lookup token hash r)
      else let rc = memcmp token (cn_token cn) in
        if rc = 0 then Some cn
        else if rc < 0 then challenge_lookup token hash l
        else challenge_lookup token hash r)"

interpretation chal_ix: name_index cn_key challenge_insert_value challenge_lookup
proof unfold_locales
  fix n t :: challenge_node and l r
  show "challenge_insert_value n (Node l t r) =
    (if cn_key n < cn_key t then Node (challenge_insert_value n l) t r
     else Node l t (challenge_insert_value n r))"
    by (auto simp: cn_key_def Node_Key_less)
next
  fix nm h and t :: challenge_node and l r
  show "challenge_lookup nm h (Node l t r) =
    (if Node_Key h nm < cn_key t then challenge_lookup nm h l
     else if cn_key t = Node_Key h nm then Some t else challenge_lookup nm h r)"
    using memcmp_zero [of nm "cn_token t"] by (auto simp: cn_key_def Node_Key_less Let_def)
qed simp_all

section \<open>Zone operations\<close>

text \<open>
  A non-NULL \<^verbatim>\<open>shpool->data\<close> means that the arena was carried over
  from the previous cycle: the tree is kept as it is.
\<close>

definition challenge_init_zone ::
  "challenge_node tree option \<Rightarrow> slab \<Rightarrow> ngx_rc \<times> challenge_node tree option \<times> slab" where
  "challenge_init_zone data s =
     (case data of
        Some t \<Rightarrow> (NGX_OK, Some t, s)
      | None \<Rightarrow>
          (case slab_alloc s of
             (False, s') \<Rightarrow> (NGX_ERROR, None, s')
           | (True, s') \<Rightarrow> (NGX_OK, Some Leaf, s')))"

definition challenge_set ::
  "challenge_node rbtree_ops \<Rightarrow> (bytes \<Rightarrow> u32) \<Rightarrow> challenge_zone \<Rightarrow> bytes \<Rightarrow> bytes \<Rightarrow>
   ngx_rc \<times> challenge_zone" where
  "challenge_set rb crc z token keyauth =
     (if length token = 0 \<or> length token > NGX_AUTOCERT_TOKEN_MAX
         \<or> length keyauth = 0 \<or> length keyauth > NGX_AUTOCERT_KEYAUTH_MAX
      then (NGX_ERROR, z)
      else
        let hash = crc token in
        case challenge_lookup token hash (cz_rbtree z) of
          Some cn \<Rightarrow>
            (case slab_alloc (cz_slab z) of
               (False, s) \<Rightarrow> (NGX_ERROR, z\<lparr>cz_slab := s\<rparr>)
             | (True, s) \<Rightarrow>
                 (NGX_OK,
                  z\<lparr>cz_slab := slab_free (cn_keyauth cn) s,
                    cz_rbtree := map_tree
                      (\<lambda>n. if n = cn then n\<lparr>cn_keyauth := keyauth\<rparr> else n) (cz_rbtree z)\<rparr>))
        | None \<Rightarrow>
            (case slab_alloc (cz_slab z) of
               (False, s) \<Rightarrow> (NGX_ERROR, z\<lparr>cz_slab := s\<rparr>)
             | (True, s) \<Rightarrow>
                 (case slab_alloc s of
                    (False, s') \<Rightarrow> (NGX_ERROR, z\<lparr>cz_slab := slab_free [] s'\<rparr>)
                  | (True, s') \<Rightarrow>
                      let cn = \<lparr>cn_hash = hash, cn_keyauth = keyauth, cn_token = token\<rparr> in
                      (NGX_OK,
                       z\<lparr>cz_slab := s',
                         cz_rbtree := rb_fixup rb (challenge_insert_value cn (cz_rbtree z))\<rparr>))))"

definition challenge_remove ::
  "challenge_node rbtree_ops \<Rightarrow> (bytes \<Rightarrow> u32) \<Rightarrow> challenge_zone \<Rightarrow> bytes \<Rightarrow>
   ngx_rc \<times> challenge_zone" where
  "challenge_remove rb crc z token =
     (if length token = 0 \<or> length token > NGX_AUTOCERT_TOKEN_MAX then (NGX_OK, z)
      else
        case challenge_lookup token (crc token) (cz_rbtree z) of
          Some cn \<Rightarrow>
            (NGX_OK,
             z\<lparr>cz_rbtree := rb_delete rb cn (cz_rbtree z),
               cz_slab := slab_free (cn_token cn) (slab_free (cn_keyauth cn) (cz_slab z))\<rparr>)
        | None \<Rightarrow> (NGX_OK, z))"

text \<open>
  The key authorization is copied out under the lock into a stack buffer of
  \<^const>\<open>NGX_AUTOCERT_KEYAUTH_MAX\<close> bytes, and from there into the pool of
  the request.
\<close>

definition challenge_get ::
  "(bytes \<Rightarrow> u32) \<Rightarrow> challenge_zone \<Rightarrow> bytes \<Rightarrow> alloc \<Rightarrow> ngx_rc \<times> bytes option" where
  "challenge_get crc z token pool =
     (if length token = 0 \<or> length token > NGX_AUTOCERT_TOKEN_MAX then (NGX_DECLINED, None)
      else
        case challenge_lookup token (crc token) (cz_rbtree z) of
          None \<Rightarrow> (NGX_DECLINED, None)
        | Some cn \<Rightarrow>
            (case alloc_next pool of
               (False, _) \<Rightarrow> (NGX_ERROR, None)
             | (True, _) \<Rightarrow> (NGX_OK, Some (cn_keyauth cn))))"

section \<open>Invariant and view\<close>

text \<open>
  Besides the order of the nodes: every token and every key authorization is within its
  bound (so the length fits the 16-bit field and the stack buffer of
  \<^const>\<open>challenge_get\<close>), and the slab holds exactly the header and two
  chunks for each node, so that nothing leaks.
\<close>

definition challenge_node_wf :: "challenge_node \<Rightarrow> bool" where
  "challenge_node_wf cn \<longleftrightarrow>
     0 < length (cn_token cn) \<and> length (cn_token cn) \<le> NGX_AUTOCERT_TOKEN_MAX \<and>
     0 < length (cn_keyauth cn) \<and> length (cn_keyauth cn) \<le> NGX_AUTOCERT_KEYAUTH_MAX"

definition challenge_inv :: "(bytes \<Rightarrow> u32) \<Rightarrow> challenge_zone \<Rightarrow> bool" where
  "challenge_inv crc z \<longleftrightarrow>
     index_wf cn_key crc (inorder (cz_rbtree z)) \<and>
     list_all challenge_node_wf (inorder (cz_rbtree z)) \<and>
     live (cz_slab z) = 1 + 2 * length (inorder (cz_rbtree z))"

definition challenge_view :: "challenge_zone \<Rightarrow> bytes \<Rightarrow> bytes option" where
  "challenge_view z token =
     map_option cn_keyauth (find_name cn_key token (inorder (cz_rbtree z)))"

lemma cn_key_simps [simp]:
  "key_hash (cn_key cn) = cn_hash cn"
  "key_name (cn_key cn) = cn_token cn"
  "cn_key (cn\<lparr>cn_keyauth := k\<rparr>) = cn_key cn"
  by (simp_all add: cn_key_def)

lemma challenge_lookup_find:
  "challenge_inv crc z \<Longrightarrow>
   challenge_lookup token (crc token) (cz_rbtree z) = find_name cn_key token (inorder (cz_rbtree z))"
  by (simp add: challenge_inv_def chal_ix.look_find)

lemma challenge_view_bounds:
  assumes "challenge_inv crc z" "challenge_view z token = Some k"
  shows "0 < length token" "length token \<le> NGX_AUTOCERT_TOKEN_MAX"
    "0 < length k" "length k \<le> NGX_AUTOCERT_KEYAUTH_MAX"
proof -
  from assms(2) obtain cn where cn: "find_name cn_key token (inorder (cz_rbtree z)) = Some cn"
    and k: "cn_keyauth cn = k"
    by (auto simp: challenge_view_def)
  from find_name_SomeD [OF cn] assms(1) have "challenge_node_wf cn" "cn_token cn = token"
    by (auto simp: challenge_inv_def list_all_iff)
  with k show "0 < length token" "length token \<le> NGX_AUTOCERT_TOKEN_MAX"
    "0 < length k" "length k \<le> NGX_AUTOCERT_KEYAUTH_MAX"
    by (auto simp: challenge_node_wf_def)
qed

text \<open>
  The three ways \<^const>\<open>challenge_set\<close> can end, over the node list.
\<close>

lemma challenge_set_cases:
  assumes rb: "rbtree_ok rb" and inv: "challenge_inv crc z"
    and set: "challenge_set rb crc z token keyauth = (rc, z')"
  obtains (rejected) "rc = NGX_ERROR" "inorder (cz_rbtree z') = inorder (cz_rbtree z)"
      "live (cz_slab z') = live (cz_slab z)"
  | (replaced) cn where "rc = NGX_OK" "find_name cn_key token (inorder (cz_rbtree z)) = Some cn"
      "challenge_node_wf (cn\<lparr>cn_keyauth := keyauth\<rparr>)"
      "inorder (cz_rbtree z') =
         map (\<lambda>n. if n = cn then n\<lparr>cn_keyauth := keyauth\<rparr> else n) (inorder (cz_rbtree z))"
      "live (cz_slab z') = live (cz_slab z)"
  | (inserted) cn where "rc = NGX_OK" "find_name cn_key token (inorder (cz_rbtree z)) = None"
      "cn = \<lparr>cn_hash = crc token, cn_keyauth = keyauth, cn_token = token\<rparr>" "challenge_node_wf cn"
      "inorder (cz_rbtree z') = insort_key cn_key cn (inorder (cz_rbtree z))"
      "live (cz_slab z') = Suc (Suc (live (cz_slab z)))"
proof -
  let ?ns = "inorder (cz_rbtree z)"
  have wf: "index_wf cn_key crc ?ns" using inv by (simp add: challenge_inv_def)
  show thesis
  proof (cases "length token = 0 \<or> length token > 128 \<or> length keyauth = 0 \<or> length keyauth > 512")
    case True
    with set rejected show thesis by (auto simp: challenge_set_def)
  next
    case bounds: False
    show thesis
    proof (cases "find_name cn_key token ?ns")
      case (Some cn)
      with find_name_SomeD [OF Some] bounds
      have wf': "challenge_node_wf (cn\<lparr>cn_keyauth := keyauth\<rparr>)"
        by (auto simp: challenge_node_wf_def)
      show thesis
        by (rule slab_alloc_cases [of "cz_slab z"])
          (use set bounds Some wf' replaced rejected in
            \<open>auto simp: challenge_set_def challenge_lookup_find [OF inv] Let_def inorder_map\<close>)
    next
      case None
      define cn where "cn = \<lparr>cn_hash = crc token, cn_keyauth = keyauth, cn_token = token\<rparr>"
      have cn: "challenge_node_wf cn" "find_name cn_key (cn_token cn) ?ns = None"
        using bounds None by (auto simp: challenge_node_wf_def cn_def)
      have ins: "inorder (rb_fixup rb (challenge_insert_value cn (cz_rbtree z))) = insort_key cn_key cn ?ns"
        using chal_ix.inorder_ins [OF wf, of cn] cn(2) by (simp add: rbtree_okD [OF rb])
      show thesis
      proof (rule slab_alloc_cases [of "cz_slab z"])
        fix s assume s: "slab_alloc (cz_slab z) = (False, s)" "live s = live (cz_slab z)"
        with set bounds None rejected show thesis
          by (auto simp: challenge_set_def challenge_lookup_find [OF inv])
      next
        fix s assume s: "slab_alloc (cz_slab z) = (True, s)" "live s = Suc (live (cz_slab z))"
        show thesis
          by (rule slab_alloc_cases [of s])
            (use set bounds None s cn(1) ins rejected inserted [OF _ None cn_def] in
              \<open>auto simp: challenge_set_def challenge_lookup_find [OF inv] Let_def cn_def\<close>)
      qed
    qed
  qed
qed

lemma challenge_set_inv [inv_intros]:
  assumes "rbtree_ok rb" "challenge_inv crc z"
  shows "challenge_inv crc (snd (challenge_set rb crc z token keyauth))"
  using assms prod.collapse [symmetric]
proof (cases rule: challenge_set_cases [where token = token and keyauth = keyauth])
  case rejected
  with assms show ?thesis by (simp add: challenge_inv_def)
next
  case (replaced cn)
  with assms show ?thesis by (auto simp: challenge_inv_def index_wf_map_fields list_all_iff)
next
  case (inserted cn)
  with assms show ?thesis
    by (auto simp: challenge_inv_def index_wf_insort set_insort_key list_all_iff)
qed

lemma challenge_set_view:
  assumes "rbtree_ok rb" "challenge_inv crc z"
  shows "challenge_view (snd (challenge_set rb crc z token keyauth)) =
    (if fst (challenge_set rb crc z token keyauth) = NGX_OK
     then (challenge_view z)(token \<mapsto> keyauth) else challenge_view z)"
  using assms prod.collapse [symmetric]
proof (cases rule: challenge_set_cases [where token = token and keyauth = keyauth])
  case rejected
  then show ?thesis by (simp add: challenge_view_def fun_eq_iff)
next
  case (replaced cn)
  from assms(2) have wf: "index_wf cn_key crc (inorder (cz_rbtree z))"
    by (simp add: challenge_inv_def)
  from replaced show ?thesis
    by (auto simp: challenge_view_def fun_eq_iff find_name_update [OF wf replaced(2)])
next
  case (inserted cn)
  then show ?thesis by (auto simp: challenge_view_def fun_eq_iff find_name_insort)
qed

lemma challenge_remove_cases:
  assumes rb: "rbtree_ok rb" and inv: "challenge_inv crc z"
    and rem: "challenge_remove rb crc z token = (rc, z')"
  obtains (absent) "rc = NGX_OK" "z' = z" "find_name cn_key token (inorder (cz_rbtree z)) = None"
  | (removed) cn where "rc = NGX_OK" "find_name cn_key token (inorder (cz_rbtree z)) = Some cn"
      "cn \<in> set (inorder (cz_rbtree z))" "cn_token cn = token"
      "inorder (cz_rbtree z') = remove1 cn (inorder (cz_rbtree z))"
      "live (cz_slab z') = live (cz_slab z) - 2"
proof (cases "find_name cn_key token (inorder (cz_rbtree z))")
  case None
  with rem absent show thesis
    by (auto simp: challenge_remove_def challenge_lookup_find [OF inv] split: if_splits)
next
  case (Some cn)
  note cn = find_name_SomeD [OF Some]
  with inv have "challenge_node_wf cn" by (auto simp: challenge_inv_def list_all_iff)
  with Some cn rem have *: "rc = NGX_OK" "cz_rbtree z' = rb_delete rb cn (cz_rbtree z)"
    "live (cz_slab z') = live (cz_slab z) - 2"
    by (auto simp: challenge_remove_def challenge_lookup_find [OF inv] challenge_node_wf_def)
  have "distinct (inorder (cz_rbtree z))"
    using inv by (auto simp: challenge_inv_def intro: index_wf_distinct)
  with cn * have "inorder (cz_rbtree z') = remove1 cn (inorder (cz_rbtree z))"
    using rbtree_okD(2) [OF rb] by simp
  with * Some cn removed show thesis by simp
qed

lemma challenge_remove_inv [inv_intros]:
  assumes "rbtree_ok rb" "challenge_inv crc z"
  shows "challenge_inv crc (snd (challenge_remove rb crc z token))"
  using assms prod.collapse [symmetric]
proof (cases rule: challenge_remove_cases [where token = token])
  case absent
  with assms show ?thesis by simp
next
  case (removed cn)
  then have "0 < length (inorder (cz_rbtree z))" by (cases "inorder (cz_rbtree z)") auto
  with removed assms show ?thesis
    by (auto simp: challenge_inv_def index_wf_remove1 length_remove1 list_all_iff
        dest: notin_set_remove1)
qed

lemma challenge_remove_view:
  assumes "rbtree_ok rb" "challenge_inv crc z"
  shows "challenge_view (snd (challenge_remove rb crc z token)) = (challenge_view z)(token := None)"
  using assms prod.collapse [symmetric]
proof (cases rule: challenge_remove_cases [where token = token])
  case absent
  then show ?thesis by (auto simp: challenge_view_def fun_eq_iff)
next
  case (removed cn)
  moreover from assms(2) have "index_wf cn_key crc (inorder (cz_rbtree z))"
    by (simp add: challenge_inv_def)
  ultimately show ?thesis by (auto simp: challenge_view_def fun_eq_iff find_name_remove1)
qed

lemma challenge_get_view:
  assumes "challenge_inv crc z"
  shows "challenge_get crc z token pool =
    (case challenge_view z token of
       None \<Rightarrow> (NGX_DECLINED, None)
     | Some k \<Rightarrow> if fst (alloc_next pool) then (NGX_OK, Some k) else (NGX_ERROR, None))"
proof (cases "challenge_view z token")
  case None
  then show ?thesis
    by (auto simp: challenge_get_def challenge_lookup_find [OF assms] challenge_view_def)
next
  case (Some k)
  with challenge_view_bounds [OF assms Some] show ?thesis
    by (auto simp: challenge_get_def challenge_lookup_find [OF assms] challenge_view_def
        split: prod.splits)
qed

interpretation chal: name_store
  "challenge_set rb crc" "challenge_remove rb crc" "\<lambda>z n. challenge_get crc z n []"
  "\<lambda>z. rbtree_ok rb \<and> challenge_inv crc z" challenge_view
  for rb crc
  by unfold_locales
    (auto simp: challenge_set_view challenge_remove_view challenge_get_view
      intro: challenge_set_inv challenge_remove_inv split: option.splits)

section \<open>Properties\<close>


definition challenge_fresh :: challenge_zone where
  "challenge_fresh = \<lparr>cz_rbtree = Leaf, cz_slab = \<lparr>answers = [], live = 1, freed = []\<rparr>\<rparr>"

lemma challenge_inv_fresh: "challenge_inv crc challenge_fresh"
  by (simp add: challenge_inv_def challenge_fresh_def)


text \<open>
  A token and key authorization within their bounds are stored whenever the
  slab can serve the request, and a worker that then asks for the token gets the key
  authorization.
\<close>

theorem challenge_publish_then_get:
  assumes "rbtree_ok rb" "challenge_inv crc z" "answers (cz_slab z) = []"
    and "0 < length token" "length token \<le> 128" "0 < length keyauth" "length keyauth \<le> 512"
  shows "fst (challenge_set rb crc z token keyauth) = NGX_OK \<and>
    challenge_get crc (snd (challenge_set rb crc z token keyauth)) token [] = (NGX_OK, Some keyauth)"
proof -
  have ok: "fst (challenge_set rb crc z token keyauth) = NGX_OK"
    using assms by (auto simp: challenge_set_def Let_def split: option.splits)
  with assms challenge_set_view [OF assms(1,2)] challenge_set_inv [OF assms(1,2)] show ?thesis
    by (simp add: challenge_get_view)
qed

theorem challenge_publish_then_get_witness:
  "fst (challenge_set plain_ops (\<lambda>_. 7) challenge_fresh (str ''tok'') (str ''tok.thumb'')) = NGX_OK \<and>
   challenge_get (\<lambda>_. 7)
     (snd (challenge_set plain_ops (\<lambda>_. 7) challenge_fresh (str ''tok'') (str ''tok.thumb'')))
     (str ''tok'') [] = (NGX_OK, Some (str ''tok.thumb''))"
  by (rule challenge_publish_then_get [OF rbtree_ok_plain_ops challenge_inv_fresh])
    (simp_all add: challenge_fresh_def)

end
