(* ===== verification/Alpn.thy ===== *)
theory Alpn
  imports Name_Store
begin

text \<open>
  The tls-alpn-01 challenge certificate store of \<^verbatim>\<open>src/ngx_autocert_alpn.c\<close>:
  domain to a certificate and its private key, both PEM, in a red-black tree in shared
  memory.  It is the sibling of the token store of theory \<open>Challenge\<close> with a
  two-part value, and it wipes a private key before its chunk goes back to the slab.
\<close>

abbreviation (input) NGX_AUTOCERT_ALPN_DOMAIN_MAX :: nat where "NGX_AUTOCERT_ALPN_DOMAIN_MAX \<equiv> 255"
abbreviation (input) NGX_AUTOCERT_ALPN_CERT_MAX :: nat where "NGX_AUTOCERT_ALPN_CERT_MAX \<equiv> 8192"
abbreviation (input) NGX_AUTOCERT_ALPN_KEY_MAX :: nat where "NGX_AUTOCERT_ALPN_KEY_MAX \<equiv> 8192"

record alpn_node =
  an_hash :: u32
  an_cert :: bytes
  an_key :: bytes
  an_domain :: bytes

record alpn_zone =
  az_rbtree :: "alpn_node tree"
  az_slab :: slab

definition an_node_key :: "alpn_node \<Rightarrow> node_key" where
  "an_node_key an = Node_Key (an_hash an) (an_domain an)"

text \<open>
  \<^verbatim>\<open>ngx_http_autocert_cleanse\<close>: what the memory of a string holds
  afterwards (\<^verbatim>\<open>OPENSSL_cleanse\<close> overwrites it with zeros).
\<close>

definition cleanse :: "bytes \<Rightarrow> bytes" where
  "cleanse s = replicate (length s) 0"

section \<open>Tree routines\<close>

fun alpn_insert_value :: "alpn_node \<Rightarrow> alpn_node tree \<Rightarrow> alpn_node tree" where
  "alpn_insert_value an Leaf = Node Leaf an Leaf"
| "alpn_insert_value an (Node l temp r) =
     (if an_hash an \<noteq> an_hash temp then
        (if an_hash an < an_hash temp
         then Node (alpn_insert_value an l) temp r
         else Node l temp (alpn_insert_value an r))
      else if length (an_domain an) \<noteq> length (an_domain temp) then
        (if length (an_domain an) < length (an_domain temp)
         then Node (alpn_insert_value an l) temp r
         else Node l temp (alpn_insert_value an r))
      else if memcmp (an_domain an) (an_domain temp) < 0
        then Node (alpn_insert_value an l) temp r
        else Node l temp (alpn_insert_value an r))"

fun alpn_lookup :: "bytes \<Rightarrow> u32 \<Rightarrow> alpn_node tree \<Rightarrow> alpn_node option" where
  "alpn_lookup domain hash Leaf = None"
| "alpn_lookup domain hash (Node l an r) =
     (if hash < an_hash an then alpn_lookup domain hash l
      else if hash > an_hash an then alpn_lookup domain hash r
      else if length domain \<noteq> length (an_domain an) then
        (if length domain < length (an_domain an)
         then alpn_lookup domain hash l else alpn_lookup domain hash r)
      else let rc = memcmp domain (an_domain an) in
        if rc = 0 then Some an
        else if rc < 0 then alpn_lookup domain hash l
        else alpn_lookup domain hash r)"

interpretation alpn_ix: name_index an_node_key alpn_insert_value alpn_lookup
proof unfold_locales
  fix n t :: alpn_node and l r
  show "alpn_insert_value n (Node l t r) =
    (if an_node_key n < an_node_key t then Node (alpn_insert_value n l) t r
     else Node l t (alpn_insert_value n r))"
    by (auto simp: an_node_key_def Node_Key_less)
next
  fix nm h and t :: alpn_node and l r
  show "alpn_lookup nm h (Node l t r) =
    (if Node_Key h nm < an_node_key t then alpn_lookup nm h l
     else if an_node_key t = Node_Key h nm then Some t else alpn_lookup nm h r)"
    using memcmp_zero [of nm "an_domain t"] by (auto simp: an_node_key_def Node_Key_less Let_def)
qed simp_all

section \<open>Zone operations\<close>

definition alpn_init_zone ::
  "alpn_node tree option \<Rightarrow> slab \<Rightarrow> ngx_rc \<times> alpn_node tree option \<times> slab" where
  "alpn_init_zone data s =
     (case data of
        Some t \<Rightarrow> (NGX_OK, Some t, s)
      | None \<Rightarrow>
          (case slab_alloc s of
             (False, s') \<Rightarrow> (NGX_ERROR, None, s')
           | (True, s') \<Rightarrow> (NGX_OK, Some Leaf, s')))"

text \<open>
  On the replace path both new chunks are taken before the old ones are given back; on
  the insert path a failed allocation gives back the chunks taken before it.
\<close>

definition alpn_set ::
  "alpn_node rbtree_ops \<Rightarrow> (bytes \<Rightarrow> u32) \<Rightarrow> alpn_zone \<Rightarrow> bytes \<Rightarrow> bytes \<Rightarrow> bytes \<Rightarrow>
   ngx_rc \<times> alpn_zone" where
  "alpn_set rb crc z domain cert key =
     (if length domain = 0 \<or> length domain > NGX_AUTOCERT_ALPN_DOMAIN_MAX
         \<or> length cert = 0 \<or> length cert > NGX_AUTOCERT_ALPN_CERT_MAX
         \<or> length key = 0 \<or> length key > NGX_AUTOCERT_ALPN_KEY_MAX
      then (NGX_ERROR, z)
      else
        let hash = crc domain in
        case alpn_lookup domain hash (az_rbtree z) of
          Some an \<Rightarrow>
            (case slab_alloc (az_slab z) of
               (False, s) \<Rightarrow> (NGX_ERROR, z\<lparr>az_slab := s\<rparr>)
             | (True, s) \<Rightarrow>
                 (case slab_alloc s of
                    (False, s') \<Rightarrow> (NGX_ERROR, z\<lparr>az_slab := slab_free [] s'\<rparr>)
                  | (True, s') \<Rightarrow>
                      (NGX_OK,
                       z\<lparr>az_slab := slab_free (cleanse (an_key an)) (slab_free (an_cert an) s'),
                         az_rbtree := map_tree
                           (\<lambda>n. if n = an then n\<lparr>an_cert := cert, an_key := key\<rparr> else n)
                           (az_rbtree z)\<rparr>)))
        | None \<Rightarrow>
            (case slab_alloc (az_slab z) of
               (False, s) \<Rightarrow> (NGX_ERROR, z\<lparr>az_slab := s\<rparr>)
             | (True, s) \<Rightarrow>
                 (case slab_alloc s of
                    (False, s') \<Rightarrow> (NGX_ERROR, z\<lparr>az_slab := slab_free [] s'\<rparr>)
                  | (True, s') \<Rightarrow>
                      (case slab_alloc s' of
                         (False, s'') \<Rightarrow>
                           (NGX_ERROR, z\<lparr>az_slab := slab_free [] (slab_free [] s'')\<rparr>)
                       | (True, s'') \<Rightarrow>
                           let an = \<lparr>an_hash = hash, an_cert = cert, an_key = key,
                                     an_domain = domain\<rparr> in
                           (NGX_OK,
                            z\<lparr>az_slab := s'',
                              az_rbtree := rb_fixup rb (alpn_insert_value an (az_rbtree z))\<rparr>)))))"

definition alpn_remove ::
  "alpn_node rbtree_ops \<Rightarrow> (bytes \<Rightarrow> u32) \<Rightarrow> alpn_zone \<Rightarrow> bytes \<Rightarrow> ngx_rc \<times> alpn_zone" where
  "alpn_remove rb crc z domain =
     (if length domain = 0 \<or> length domain > NGX_AUTOCERT_ALPN_DOMAIN_MAX then (NGX_OK, z)
      else
        case alpn_lookup domain (crc domain) (az_rbtree z) of
          Some an \<Rightarrow>
            (NGX_OK,
             z\<lparr>az_rbtree := rb_delete rb an (az_rbtree z),
               az_slab := slab_free (an_domain an)
                 (slab_free (cleanse (an_key an)) (slab_free (an_cert an) (az_slab z)))\<rparr>)
        | None \<Rightarrow> (NGX_OK, z))"

text \<open>One pool allocation holds both values, the certificate first.\<close>

definition alpn_get ::
  "(bytes \<Rightarrow> u32) \<Rightarrow> alpn_zone \<Rightarrow> bytes \<Rightarrow> alloc \<Rightarrow> ngx_rc \<times> (bytes \<times> bytes) option" where
  "alpn_get crc z domain pool =
     (if length domain = 0 \<or> length domain > NGX_AUTOCERT_ALPN_DOMAIN_MAX
      then (NGX_DECLINED, None)
      else
        case alpn_lookup domain (crc domain) (az_rbtree z) of
          None \<Rightarrow> (NGX_DECLINED, None)
        | Some an \<Rightarrow>
            (case alloc_next pool of
               (False, _) \<Rightarrow> (NGX_ERROR, None)
             | (True, _) \<Rightarrow>
                 let cp = an_cert an @ an_key an in
                 (NGX_OK, Some (take (length (an_cert an)) cp, drop (length (an_cert an)) cp))))"

section \<open>Invariant and view\<close>

definition alpn_node_wf :: "alpn_node \<Rightarrow> bool" where
  "alpn_node_wf an \<longleftrightarrow>
     0 < length (an_domain an) \<and> length (an_domain an) \<le> NGX_AUTOCERT_ALPN_DOMAIN_MAX \<and>
     0 < length (an_cert an) \<and> length (an_cert an) \<le> NGX_AUTOCERT_ALPN_CERT_MAX \<and>
     0 < length (an_key an) \<and> length (an_key an) \<le> NGX_AUTOCERT_ALPN_KEY_MAX"

definition alpn_inv :: "(bytes \<Rightarrow> u32) \<Rightarrow> alpn_zone \<Rightarrow> bool" where
  "alpn_inv crc z \<longleftrightarrow>
     index_wf an_node_key crc (inorder (az_rbtree z)) \<and>
     list_all alpn_node_wf (inorder (az_rbtree z)) \<and>
     live (az_slab z) = 1 + 3 * length (inorder (az_rbtree z))"

definition alpn_view :: "alpn_zone \<Rightarrow> bytes \<Rightarrow> (bytes \<times> bytes) option" where
  "alpn_view z domain =
     map_option (\<lambda>an. (an_cert an, an_key an)) (find_name an_node_key domain (inorder (az_rbtree z)))"

lemma an_node_key_simps [simp]:
  "key_hash (an_node_key an) = an_hash an"
  "key_name (an_node_key an) = an_domain an"
  "an_node_key (an\<lparr>an_cert := c, an_key := k\<rparr>) = an_node_key an"
  by (simp_all add: an_node_key_def)

lemma alpn_lookup_find:
  "alpn_inv crc z \<Longrightarrow>
   alpn_lookup domain (crc domain) (az_rbtree z) =
     find_name an_node_key domain (inorder (az_rbtree z))"
  by (simp add: alpn_inv_def alpn_ix.look_find)

lemma alpn_find_wf:
  assumes "alpn_inv crc z" "find_name an_node_key domain (inorder (az_rbtree z)) = Some an"
  shows "alpn_node_wf an" "an_domain an = domain"
  using assms find_name_SomeD [OF assms(2)] by (auto simp: alpn_inv_def list_all_iff)

lemma alpn_set_cases:
  assumes rb: "rbtree_ok rb" and inv: "alpn_inv crc z"
    and set: "alpn_set rb crc z domain cert key = (rc, z')"
  obtains (rejected) "rc = NGX_ERROR" "inorder (az_rbtree z') = inorder (az_rbtree z)"
      "live (az_slab z') = live (az_slab z)"
  | (replaced) an where "rc = NGX_OK"
      "find_name an_node_key domain (inorder (az_rbtree z)) = Some an"
      "alpn_node_wf (an\<lparr>an_cert := cert, an_key := key\<rparr>)"
      "inorder (az_rbtree z') =
         map (\<lambda>n. if n = an then n\<lparr>an_cert := cert, an_key := key\<rparr> else n) (inorder (az_rbtree z))"
      "live (az_slab z') = live (az_slab z)"
      "freed (az_slab z') = cleanse (an_key an) # an_cert an # freed (az_slab z)"
  | (inserted) an where "rc = NGX_OK"
      "find_name an_node_key domain (inorder (az_rbtree z)) = None"
      "an = \<lparr>an_hash = crc domain, an_cert = cert, an_key = key, an_domain = domain\<rparr>"
      "alpn_node_wf an"
      "inorder (az_rbtree z') = insort_key an_node_key an (inorder (az_rbtree z))"
      "live (az_slab z') = 3 + live (az_slab z)" "freed (az_slab z') = freed (az_slab z)"
proof -
  let ?ns = "inorder (az_rbtree z)"
  have wf: "index_wf an_node_key crc ?ns" using inv by (simp add: alpn_inv_def)
  show thesis
  proof (cases "length domain = 0 \<or> length domain > 255 \<or> length cert = 0 \<or> length cert > 8192
      \<or> length key = 0 \<or> length key > 8192")
    case True
    with set rejected show thesis by (auto simp: alpn_set_def)
  next
    case bounds: False
    show thesis
    proof (cases "find_name an_node_key domain ?ns")
      case (Some an)
      with alpn_find_wf [OF inv Some] bounds
      have wf': "alpn_node_wf (an\<lparr>an_cert := cert, an_key := key\<rparr>)"
        by (auto simp: alpn_node_wf_def)
      show thesis
      proof (rule slab_alloc_cases [of "az_slab z"])
        fix s assume s: "slab_alloc (az_slab z) = (False, s)" "live s = live (az_slab z)"
        with set bounds Some rejected show thesis
          by (auto simp: alpn_set_def alpn_lookup_find [OF inv])
      next
        fix s assume s: "slab_alloc (az_slab z) = (True, s)" "live s = Suc (live (az_slab z))"
          "freed s = freed (az_slab z)"
        show thesis
          by (rule slab_alloc_cases [of s])
            (use set bounds Some s wf' rejected replaced [OF _ Some] in
              \<open>auto simp: alpn_set_def alpn_lookup_find [OF inv] Let_def inorder_map\<close>)
      qed
    next
      case None
      define an where
        "an = \<lparr>an_hash = crc domain, an_cert = cert, an_key = key, an_domain = domain\<rparr>"
      have an: "alpn_node_wf an" "find_name an_node_key (an_domain an) ?ns = None"
        using bounds None by (auto simp: alpn_node_wf_def an_def)
      have ins: "inorder (rb_fixup rb (alpn_insert_value an (az_rbtree z))) =
          insort_key an_node_key an ?ns"
        using alpn_ix.inorder_ins [OF wf, of an] an(2) by (simp add: rbtree_okD [OF rb])
      obtain b1 s1 b2 s2 b3 s3 where s: "slab_alloc (az_slab z) = (b1, s1)"
        "slab_alloc s1 = (b2, s2)" "slab_alloc s2 = (b3, s3)"
        by (meson surj_pair)
      note effect = s [THEN slab_alloc_effect]
      show thesis
        using set bounds None s effect an(1) ins rejected inserted [OF _ None an_def]
        by (cases b1; cases b2; cases b3)
          (auto simp: alpn_set_def alpn_lookup_find [OF inv] Let_def an_def)
    qed
  qed
qed

lemma alpn_set_inv [inv_intros]:
  assumes "rbtree_ok rb" "alpn_inv crc z"
  shows "alpn_inv crc (snd (alpn_set rb crc z domain cert key))"
  using assms prod.collapse [symmetric]
proof (cases rule: alpn_set_cases [where domain = domain and cert = cert and key = key])
  case rejected
  with assms show ?thesis by (simp add: alpn_inv_def)
next
  case (replaced an)
  with assms show ?thesis by (auto simp: alpn_inv_def index_wf_map_fields list_all_iff)
next
  case (inserted an)
  with assms show ?thesis
    by (auto simp: alpn_inv_def index_wf_insort set_insort_key list_all_iff)
qed

lemma alpn_set_view:
  assumes "rbtree_ok rb" "alpn_inv crc z"
  shows "alpn_view (snd (alpn_set rb crc z domain cert key)) =
    (if fst (alpn_set rb crc z domain cert key) = NGX_OK
     then (alpn_view z)(domain \<mapsto> (cert, key)) else alpn_view z)"
  using assms prod.collapse [symmetric]
proof (cases rule: alpn_set_cases [where domain = domain and cert = cert and key = key])
  case rejected
  then show ?thesis by (simp add: alpn_view_def fun_eq_iff)
next
  case (replaced an)
  from assms(2) have wf: "index_wf an_node_key crc (inorder (az_rbtree z))"
    by (simp add: alpn_inv_def)
  from replaced show ?thesis
    by (auto simp: alpn_view_def fun_eq_iff find_name_update [OF wf replaced(2)])
next
  case (inserted an)
  then show ?thesis by (auto simp: alpn_view_def fun_eq_iff find_name_insort)
qed

lemma alpn_remove_cases:
  assumes rb: "rbtree_ok rb" and inv: "alpn_inv crc z"
    and rem: "alpn_remove rb crc z domain = (rc, z')"
  obtains (absent) "rc = NGX_OK" "z' = z" "find_name an_node_key domain (inorder (az_rbtree z)) = None"
  | (removed) an where "rc = NGX_OK" "find_name an_node_key domain (inorder (az_rbtree z)) = Some an"
      "an \<in> set (inorder (az_rbtree z))" "an_domain an = domain"
      "inorder (az_rbtree z') = remove1 an (inorder (az_rbtree z))"
      "live (az_slab z') = live (az_slab z) - 3"
      "freed (az_slab z') = domain # cleanse (an_key an) # an_cert an # freed (az_slab z)"
proof (cases "find_name an_node_key domain (inorder (az_rbtree z))")
  case None
  with rem absent show thesis
    by (auto simp: alpn_remove_def alpn_lookup_find [OF inv] split: if_splits)
next
  case (Some an)
  note an = find_name_SomeD [OF Some]
  from alpn_find_wf [OF inv Some] Some rem
  have *: "rc = NGX_OK" "az_rbtree z' = rb_delete rb an (az_rbtree z)"
    "live (az_slab z') = live (az_slab z) - 3"
    "freed (az_slab z') = domain # cleanse (an_key an) # an_cert an # freed (az_slab z)"
    by (auto simp: alpn_remove_def alpn_lookup_find [OF inv] alpn_node_wf_def)
  have "distinct (inorder (az_rbtree z))"
    using inv by (auto simp: alpn_inv_def intro: index_wf_distinct)
  with an * have "inorder (az_rbtree z') = remove1 an (inorder (az_rbtree z))"
    using rbtree_okD(2) [OF rb] by simp
  with * Some an removed show thesis by simp
qed

lemma alpn_remove_inv [inv_intros]:
  assumes "rbtree_ok rb" "alpn_inv crc z"
  shows "alpn_inv crc (snd (alpn_remove rb crc z domain))"
  using assms prod.collapse [symmetric]
proof (cases rule: alpn_remove_cases [where domain = domain])
  case absent
  with assms show ?thesis by simp
next
  case (removed an)
  then have "0 < length (inorder (az_rbtree z))" by (cases "inorder (az_rbtree z)") auto
  with removed assms show ?thesis
    by (auto simp: alpn_inv_def index_wf_remove1 length_remove1 list_all_iff
        dest: notin_set_remove1)
qed

lemma alpn_remove_view:
  assumes "rbtree_ok rb" "alpn_inv crc z"
  shows "alpn_view (snd (alpn_remove rb crc z domain)) = (alpn_view z)(domain := None)"
  using assms prod.collapse [symmetric]
proof (cases rule: alpn_remove_cases [where domain = domain])
  case absent
  then show ?thesis by (auto simp: alpn_view_def fun_eq_iff)
next
  case (removed an)
  moreover from assms(2) have "index_wf an_node_key crc (inorder (az_rbtree z))"
    by (simp add: alpn_inv_def)
  ultimately show ?thesis by (auto simp: alpn_view_def fun_eq_iff find_name_remove1)
qed

lemma alpn_get_view:
  assumes "alpn_inv crc z"
  shows "alpn_get crc z domain pool =
    (case alpn_view z domain of
       None \<Rightarrow> (NGX_DECLINED, None)
     | Some v \<Rightarrow> if fst (alloc_next pool) then (NGX_OK, Some v) else (NGX_ERROR, None))"
proof (cases "find_name an_node_key domain (inorder (az_rbtree z))")
  case None
  then show ?thesis
    by (auto simp: alpn_get_def alpn_lookup_find [OF assms] alpn_view_def)
next
  case (Some an)
  with alpn_find_wf [OF assms Some] show ?thesis
    by (auto simp: alpn_get_def alpn_lookup_find [OF assms] alpn_view_def alpn_node_wf_def
        split: prod.splits)
qed

interpretation alpn: name_store
  "\<lambda>z n (c, k). alpn_set rb crc z n c k" "alpn_remove rb crc" "\<lambda>z n. alpn_get crc z n []"
  "\<lambda>z. rbtree_ok rb \<and> alpn_inv crc z" alpn_view
  for rb crc
  by unfold_locales
    (auto simp: alpn_set_view alpn_remove_view alpn_get_view
      intro: alpn_set_inv alpn_remove_inv split: option.splits)

section \<open>Properties\<close>


definition alpn_fresh :: "alloc \<Rightarrow> alpn_zone" where
  "alpn_fresh as = \<lparr>az_rbtree = Leaf, az_slab = \<lparr>answers = as, live = 1, freed = []\<rparr>\<rparr>"

lemma alpn_inv_fresh: "alpn_inv crc (alpn_fresh as)"
  by (simp add: alpn_inv_def alpn_fresh_def)




end
