(* ===== verification/Dns_Names.thy ===== *)
theory Dns_Names
  imports Prelude
begin

text \<open>
  What a host name is, stated over its labels and without reference to any scanning
  loop: the reference against which the validators of
  \<^verbatim>\<open>ngx_autocert_requests.c\<close> and \<^verbatim>\<open>ngx_autocert_ident.h\<close>
  are compared.
\<close>

abbreviation c_dot :: byte where "c_dot \<equiv> 0x2e"
abbreviation c_hyphen :: byte where "c_hyphen \<equiv> 0x2d"
abbreviation c_star :: byte where "c_star \<equiv> 0x2a"
abbreviation c_slash :: byte where "c_slash \<equiv> 0x2f"

definition is_digit :: "byte \<Rightarrow> bool" where
  "is_digit c \<longleftrightarrow> 0x30 \<le> c \<and> c \<le> 0x39"

definition is_upper :: "byte \<Rightarrow> bool" where
  "is_upper c \<longleftrightarrow> 0x41 \<le> c \<and> c \<le> 0x5a"

definition is_lower :: "byte \<Rightarrow> bool" where
  "is_lower c \<longleftrightarrow> 0x61 \<le> c \<and> c \<le> 0x7a"

definition is_ldh :: "byte \<Rightarrow> bool" where
  "is_ldh c \<longleftrightarrow> is_lower c \<or> is_upper c \<or> is_digit c \<or> c = c_hyphen"

definition lower :: "byte \<Rightarrow> byte" where
  "lower c = (if is_upper c then c - 0x41 + 0x61 else c)"

section \<open>Labels\<close>

fun split_dots :: "bytes \<Rightarrow> bytes list" where
  "split_dots [] = [[]]"
| "split_dots (c # cs) =
     (if c = c_dot then [] # split_dots cs
      else case split_dots cs of [] \<Rightarrow> [[c]] | l # ls \<Rightarrow> (c # l) # ls)"

lemma split_dots_not_Nil [simp]: "split_dots cs \<noteq> []"
  by (cases cs) (auto split: list.splits)

lemma split_dots_cons [simp]:
  "c \<noteq> c_dot \<Longrightarrow> split_dots (c # cs) = (c # hd (split_dots cs)) # tl (split_dots cs)"
  by (cases "split_dots cs") auto

declare split_dots.simps(2) [simp del]

lemma split_dots_dot [simp]: "split_dots (c_dot # cs) = [] # split_dots cs"
  by (simp add: split_dots.simps(2))

lemma split_dots_prefix:
  "c_dot \<notin> set pre \<Longrightarrow>
   split_dots (pre @ cs) = (pre @ hd (split_dots cs)) # tl (split_dots cs)"
  by (induction pre) auto

lemma split_dots_no_dot: "c_dot \<notin> set cs \<Longrightarrow> split_dots cs = [cs]"
  using split_dots_prefix [of cs "[]"] by simp

lemma split_dots_at: "c_dot \<notin> set pre \<Longrightarrow> split_dots (pre @ c_dot # cs) = pre # split_dots cs"
  by (simp add: split_dots_prefix)

definition label_ok :: "bytes \<Rightarrow> bool" where
  "label_ok l \<longleftrightarrow>
     l \<noteq> [] \<and> length l \<le> 63 \<and> list_all is_ldh l \<and> hd l \<noteq> c_hyphen \<and> last l \<noteq> c_hyphen"

definition labels_ok :: "bytes \<Rightarrow> bool" where
  "labels_ok h \<longleftrightarrow> list_all label_ok (split_dots h)"

lemma labels_ok_Nil [simp]: "\<not> labels_ok []"
  by (simp add: labels_ok_def label_ok_def)

lemma labels_ok_label: "c_dot \<notin> set l \<Longrightarrow> labels_ok l \<longleftrightarrow> label_ok l"
  by (simp add: labels_ok_def split_dots_no_dot)

lemma labels_ok_at:
  "c_dot \<notin> set l \<Longrightarrow> labels_ok (l @ c_dot # h) \<longleftrightarrow> label_ok l \<and> labels_ok h"
  by (simp add: labels_ok_def split_dots_at)

text \<open>
  A name whose first label begins with a part that no good label can begin with is
  bad, whatever follows.
\<close>

lemma labels_ok_prefix:
  assumes "c_dot \<notin> set pre" "labels_ok (pre @ h)"
  shows "length pre \<le> 63" "list_all is_ldh pre" "pre \<noteq> [] \<Longrightarrow> hd pre \<noteq> c_hyphen"
proof -
  from assms have "label_ok (pre @ hd (split_dots h))"
    by (simp add: labels_ok_def split_dots_prefix)
  then show "length pre \<le> 63" "list_all is_ldh pre" "pre \<noteq> [] \<Longrightarrow> hd pre \<noteq> c_hyphen"
    by (auto simp: label_ok_def)
qed

section \<open>Dotted quads\<close>

definition digit_val :: "byte \<Rightarrow> nat" where
  "digit_val c = unat (c - 0x30)"

definition decimal :: "bytes \<Rightarrow> nat" where
  "decimal ds = foldl (\<lambda>n c. n * 10 + digit_val c) 0 ds"

lemma decimal_snoc [simp]: "decimal (ds @ [c]) = decimal ds * 10 + digit_val c"
  by (simp add: decimal_def)

lemma decimal_Nil [simp]: "decimal [] = 0"
  by (simp add: decimal_def)

lemma foldl_decimal_mono: "n \<le> m \<Longrightarrow>
  foldl (\<lambda>n c. n * 10 + digit_val c) n ds \<le> foldl (\<lambda>n c. n * 10 + digit_val c) m ds"
  by (induction ds arbitrary: n m) auto

lemma decimal_append_ge: "decimal ds \<le> decimal (ds @ es)"
proof (induction es rule: rev_induct)
  case (snoc e es)
  then show ?case by (metis append_assoc decimal_snoc le_trans mult.right_neutral trans_le_add1
        mult_le_mono2 one_le_numeral)
qed simp

definition octet_ok :: "bytes \<Rightarrow> bool" where
  "octet_ok l \<longleftrightarrow> l \<noteq> [] \<and> length l \<le> 3 \<and> list_all is_digit l \<and> decimal l \<le> 255"

definition dotted_quad :: "bytes \<Rightarrow> bool" where
  "dotted_quad h \<longleftrightarrow> length (split_dots h) = 4 \<and> list_all octet_ok (split_dots h)"

section \<open>Character classes\<close>

text \<open>The classes as ranges of numbers.\<close>

lemma byte_class_unat:
  "is_digit c \<longleftrightarrow> 48 \<le> unat c \<and> unat c \<le> 57"
  "is_upper c \<longleftrightarrow> 65 \<le> unat c \<and> unat c \<le> 90"
  "is_lower c \<longleftrightarrow> 97 \<le> unat c \<and> unat c \<le> 122"
  by (simp_all add: is_digit_def is_upper_def is_lower_def word_le_nat_alt)

lemma byte_eq_unat: "(a :: byte) = b \<longleftrightarrow> unat a = unat b"
  by (rule word_unat_eq_iff)

lemma unat_lower: "unat (lower c) = (if is_upper c then unat c + 32 else unat c)"
  by (auto simp: lower_def byte_class_unat unat_word_ariths)

lemmas byte_class_defs = is_ldh_def byte_class_unat byte_eq_unat unat_lower

lemma lower_simps [simp]:
  "is_ldh (lower c) \<longleftrightarrow> is_ldh c"
  "lower c = c_dot \<longleftrightarrow> c = c_dot"
  "lower c = c_hyphen \<longleftrightarrow> c = c_hyphen"
  "\<not> is_upper (lower c)"
  "lower (lower c) = lower c"
  by (auto simp: byte_class_defs split: if_splits)

lemma lower_eq_0 [simp]: "lower c = 0 \<longleftrightarrow> c = 0"
  using unat_lower [of c] by (auto simp: byte_eq_unat [of _ 0] byte_class_unat split: if_splits)

lemma ldh_not [simp]:
  assumes "is_ldh c"
  shows "c \<noteq> c_dot" "c \<noteq> c_star" "c \<noteq> c_slash"
  using assms by (auto simp: byte_class_defs)

lemma ldh_no_dot: "list_all is_ldh l \<Longrightarrow> c_dot \<notin> set l"
  by (auto simp: list_all_iff dest: ldh_not(1))

lemma lower_tolower: "lower c = ngx_tolower c"
proof (cases "is_upper c")
  case True
  then have "unat c \<in> {65..<91}" by (simp add: byte_class_unat)
  then have "word_of_nat (unat c) \<in> (word_of_nat :: nat \<Rightarrow> byte) ` {65..<91}"
    by (rule imageI)
  also have "{65..<91} = set [65..<91]" by (rule set_upt [symmetric])
  finally have "c \<in> set (map word_of_nat [65..<91])" by (simp only: set_map) simp
  then have "c - 0x41 + 0x61 = c OR 0x20" by (simp add: upt_rec) auto
  with True show ?thesis by (simp add: lower_def ngx_tolower_def is_upper_def)
next
  case False
  then show ?thesis by (auto simp: lower_def ngx_tolower_def is_upper_def)
qed

lemma split_dots_map_lower: "split_dots (map lower h) = map (map lower) (split_dots h)"
  by (induction h) (auto simp: split_dots.simps(2) split: list.splits)

lemma labels_ok_map_lower: "labels_ok (map lower h) \<longleftrightarrow> labels_ok h"
proof -
  have "label_ok (map lower l) \<longleftrightarrow> label_ok l" for l
    by (cases "l = []") (auto simp: label_ok_def list_all_iff hd_map last_map)
  then show ?thesis by (simp add: labels_ok_def split_dots_map_lower list_all_iff)
qed

end
