(* ===== verification/Requests.thy ===== *)
theory Requests
  imports Name_Tree Dns_Names
begin

text \<open>
  The runtime certificate-request registry of \<^verbatim>\<open>src/ngx_autocert_requests.c\<close>:
  a shared-memory table of host names with the state of each, filled by a consumer
  module (\<open>requests_ensure\<close>) and worked off by the driver
  (\<open>requests_drain\<close>, \<open>requests_set_state\<close>, \<open>requests_list_issued\<close>,
  \<open>requests_gc\<close>).  Each operation runs under the mutex of the slab; the wall
  clock (\<^verbatim>\<open>ngx_time()\<close>) is an argument.
\<close>

section \<open>Constants and data\<close>

abbreviation (input) REQUEST_NAME_MAX :: nat where "REQUEST_NAME_MAX \<equiv> 253"
abbreviation (input) REQUESTS_MAX :: nat where "REQUESTS_MAX \<equiv> 64"
abbreviation (input) REQ_BACKOFF_BASE :: int where "REQ_BACKOFF_BASE \<equiv> 300"
abbreviation (input) REQ_BACKOFF_MAX :: int where "REQ_BACKOFF_MAX \<equiv> 86400"

abbreviation (input) API_VERSION :: u64 where "API_VERSION \<equiv> 2"
abbreviation (input) API_INACTIVE_FLAG :: u64 where "API_INACTIVE_FLAG \<equiv> push_bit 63 1"
abbreviation (input) API_INACTIVE_VERSION :: u64 where
  "API_INACTIVE_VERSION \<equiv> API_INACTIVE_FLAG OR API_VERSION"

abbreviation (input) REQ_UNKNOWN :: nat where "REQ_UNKNOWN \<equiv> 0"
abbreviation (input) REQ_REQUESTED :: nat where "REQ_REQUESTED \<equiv> 1"
abbreviation (input) REQ_PENDING :: nat where "REQ_PENDING \<equiv> 2"
abbreviation (input) REQ_ISSUED :: nat where "REQ_ISSUED \<equiv> 3"
abbreviation (input) REQ_FAILED :: nat where "REQ_FAILED \<equiv> 4"
abbreviation (input) REQ_DENIED :: nat where "REQ_DENIED \<equiv> 5"

record request =
  rn_hash :: u32
  rn_state :: nat
  rn_first_seen :: int
  rn_last_attempt :: int
  rn_last_seen :: int
  rn_next_eligible :: int
  rn_fail_count :: nat
  rn_host :: bytes

record requests_sh =
  api_version :: u64
  rq_count :: nat
  rq_rbtree :: "request tree"

text \<open>
  \<open>rz_mapped\<close> is false for the NULL zone and for a zone without an address;
  \<open>rz_sh\<close> is \<^verbatim>\<open>shpool->data\<close>.
\<close>

record requests_zone =
  rz_mapped :: bool
  rz_sh :: "requests_sh option"
  rz_slab :: slab

section \<open>Host names\<close>

text \<open>
  \<^verbatim>\<open>ngx_autocert_requests_is_ipv4\<close>: the scan carries the value and
  the number of digits of the current octet and the number of dots so far.
\<close>

fun requests_is_ipv4_loop :: "bytes \<Rightarrow> nat \<Rightarrow> nat \<Rightarrow> nat \<Rightarrow> bool" where
  "requests_is_ipv4_loop [] octet digits dots = (dots = 3 \<and> digits > 0)"
| "requests_is_ipv4_loop (c # cs) octet digits dots =
     (if c = c_dot then
        (if digits = 0 then False else requests_is_ipv4_loop cs 0 0 (dots + 1))
      else if c < 0x30 \<or> c > 0x39 then False
      else
        let octet' = octet * 10 + unat (c - 0x30); digits' = digits + 1 in
        if digits' > 3 \<or> octet' > 255 then False
        else requests_is_ipv4_loop cs octet' digits' dots)"

definition requests_is_ipv4 :: "bytes \<Rightarrow> bool" where
  "requests_is_ipv4 buf = requests_is_ipv4_loop buf 0 0 0"

text \<open>
  \<^verbatim>\<open>ngx_autocert_requests_normalize\<close>: the loop over the host bytes
  carries the length of the current label and the bytes written to the buffer so far;
  \<^verbatim>\<open>buf[i - 1]\<close> is the last of these.  \<^const>\<open>None\<close> is the
  return value 0.
\<close>

fun requests_normalize_loop :: "bytes \<Rightarrow> nat \<Rightarrow> bytes \<Rightarrow> bytes option" where
  "requests_normalize_loop [] label_len buf =
     (if label_len = 0 then None
      else if last buf = c_hyphen then None
      else if requests_is_ipv4 buf then None
      else Some buf)"
| "requests_normalize_loop (c # cs) label_len buf =
     (if c = c_dot then
        (if label_len = 0 then None
         else if last buf = c_hyphen then None
         else requests_normalize_loop cs 0 (buf @ [c_dot]))
      else if \<not> (0x41 \<le> c \<and> c \<le> 0x5a) \<and>
              \<not> ((0x61 \<le> c \<and> c \<le> 0x7a) \<or> (0x30 \<le> c \<and> c \<le> 0x39) \<or> c = c_hyphen)
        then None
      else
        let c' = (if 0x41 \<le> c \<and> c \<le> 0x5a then c - 0x41 + 0x61 else c) in
        if c' = c_hyphen \<and> label_len = 0 then None
        else if label_len + 1 > 63 then None
        else requests_normalize_loop cs (label_len + 1) (buf @ [c']))"

definition requests_normalize :: "bytes \<Rightarrow> bytes option" where
  "requests_normalize host =
     (if length host = 0 \<or> length host > REQUEST_NAME_MAX then None
      else requests_normalize_loop host 0 [])"

subsection \<open>The validators against the definition of a host name\<close>

lemma decimal_digit_prefix:
  "list_all is_digit ds \<Longrightarrow> \<not> octet_ok ds \<Longrightarrow> ds \<noteq> [] \<Longrightarrow> \<not> octet_ok (ds @ es)"
  using decimal_append_ge [of ds es] by (auto simp: octet_ok_def)

lemma requests_is_ipv4_loop_eq:
  assumes "cur = [] \<or> octet_ok cur"
  shows "requests_is_ipv4_loop cs (decimal cur) (length cur) dots \<longleftrightarrow>
    dots + length (split_dots (cur @ cs)) = 4 \<and> list_all octet_ok (split_dots (cur @ cs))"
  using assms
proof (induction cs arbitrary: cur dots)
  case Nil
  then have nodot: "c_dot \<notin> set cur"
    by (auto simp: octet_ok_def list_all_iff is_digit_def)
  with Nil show ?case by (auto simp: split_dots_no_dot octet_ok_def)
next
  case (Cons c cs)
  then have nodot: "c_dot \<notin> set cur"
    by (auto simp: octet_ok_def list_all_iff is_digit_def)
  show ?case
  proof (cases "c = c_dot")
    case True
    have "cur \<noteq> [] \<Longrightarrow> octet_ok cur" using Cons.prems by auto
    moreover have "\<not> octet_ok []" by (simp add: octet_ok_def)
    ultimately show ?thesis
      using True nodot Cons.IH [of "[]" "dots + 1"] by (auto simp: split_dots_at)
  next
    case False
    show ?thesis
    proof (cases "octet_ok (cur @ [c])")
      case True
      then have "is_digit c" "length cur < 3" "decimal cur * 10 + unat (c - 0x30) \<le> 255"
        by (auto simp: octet_ok_def digit_val_def)
      with False True Cons.IH [of "cur @ [c]" dots] show ?thesis
        by (auto simp: is_digit_def not_less digit_val_def Let_def)
    next
      case bad: False
      have dg: "list_all is_digit cur" using Cons.prems by (auto simp: octet_ok_def)
      have "\<not> requests_is_ipv4_loop (c # cs) (decimal cur) (length cur) dots"
        using bad dg False
        by (auto simp: octet_ok_def is_digit_def not_less digit_val_def Let_def)
      moreover have "\<not> octet_ok ((cur @ [c]) @ hd (split_dots cs))"
        using bad dg decimal_digit_prefix [of "cur @ [c]" "hd (split_dots cs)"]
        by (cases "is_digit c") (auto simp: octet_ok_def)
      ultimately show ?thesis
        using False nodot by (auto simp: split_dots_prefix [of "cur @ [c]" cs, simplified])
    qed
  qed
qed

lemma requests_is_ipv4_eq: "requests_is_ipv4 buf \<longleftrightarrow> dotted_quad buf"
  using requests_is_ipv4_loop_eq [of "[]" buf 0] by (simp add: requests_is_ipv4_def dotted_quad_def)

text \<open>
  The loop, started in the middle of a label \<open>cur\<close> that is good so far.
\<close>

lemma requests_normalize_loop_eq:
  assumes "list_all is_ldh cur" "length cur \<le> 63" "cur \<noteq> [] \<longrightarrow> hd cur \<noteq> c_hyphen"
    and "buf = pre @ map lower cur"
  shows "requests_normalize_loop cs (length cur) buf =
    (if labels_ok (cur @ cs) \<and> \<not> dotted_quad (buf @ map lower cs)
     then Some (buf @ map lower cs) else None)"
  using assms
proof (induction cs arbitrary: cur buf pre)
  case Nil
  then have nodot: "c_dot \<notin> set cur" by (simp add: ldh_no_dot)
  from Nil show ?case
    by (cases "cur = []")
      (auto simp: labels_ok_label [OF nodot] label_ok_def requests_is_ipv4_eq last_map)
next
  case (Cons c cs)
  then have nodot: "c_dot \<notin> set cur" by (simp add: ldh_no_dot)
  show ?case
  proof (cases "c = c_dot")
    case True
    have ok: "label_ok cur \<longleftrightarrow> cur \<noteq> [] \<and> last buf \<noteq> c_hyphen"
      using Cons.prems by (auto simp: label_ok_def last_map)
    show ?thesis
      using True Cons.IH [of "[]" "buf @ [c_dot]" "buf @ [c_dot]"]
      by (auto simp: labels_ok_at [OF nodot] ok lower_def is_upper_def)
  next
    case False
    let ?good = "is_ldh c \<and> length cur < 63 \<and> (cur = [] \<longrightarrow> c \<noteq> c_hyphen)"
    have low: "lower c = (if 0x41 \<le> c \<and> c \<le> 0x5a then c - 0x41 + 0x61 else c)"
      by (simp add: lower_def is_upper_def)
    have ldh: "is_ldh c \<longleftrightarrow> (0x41 \<le> c \<and> c \<le> 0x5a) \<or>
        (0x61 \<le> c \<and> c \<le> 0x7a) \<or> (0x30 \<le> c \<and> c \<le> 0x39) \<or> c = c_hyphen"
      by (auto simp: is_ldh_def is_lower_def is_upper_def is_digit_def)
    have step: "requests_normalize_loop (c # cs) (length cur) buf =
        (if ?good then requests_normalize_loop cs (length (cur @ [c])) (buf @ [lower c]) else None)"
      using False by (auto simp: Let_def ldh low [symmetric])
    show ?thesis
    proof (cases ?good)
      case True
      with Cons.prems have "requests_normalize_loop cs (length (cur @ [c])) (buf @ [lower c]) =
        (if labels_ok ((cur @ [c]) @ cs) \<and> \<not> dotted_quad ((buf @ [lower c]) @ map lower cs)
         then Some ((buf @ [lower c]) @ map lower cs) else None)"
        by (intro Cons.IH [of _ _ pre]) (auto simp: hd_append)
      with True step show ?thesis by simp
    next
      case bad: False
      have "\<not> labels_ok ((cur @ [c]) @ cs)"
        using labels_ok_prefix [of "cur @ [c]" cs] nodot False bad Cons.prems by (auto simp: hd_append)
      with bad step show ?thesis by auto
    qed
  qed
qed

definition runtime_host_ok :: "bytes \<Rightarrow> bool" where
  "runtime_host_ok h \<longleftrightarrow> length h \<le> REQUEST_NAME_MAX \<and> labels_ok h \<and> \<not> dotted_quad (map lower h)"

lemma requests_normalize_eq:
  "requests_normalize h = (if runtime_host_ok h then Some (map lower h) else None)"
  using requests_normalize_loop_eq [of "[]" "[]" "[]" h]
  by (auto simp: requests_normalize_def runtime_host_ok_def)

lemma runtime_host_ok_lower: "runtime_host_ok (map lower h) \<longleftrightarrow> runtime_host_ok h"
  by (simp add: runtime_host_ok_def labels_ok_map_lower comp_def)

lemma requests_normalize_idem:
  "requests_normalize h = Some n \<Longrightarrow> requests_normalize n = Some n"
  by (auto simp: requests_normalize_eq runtime_host_ok_lower comp_def split: if_splits)

lemma requests_normalize_bounds:
  "requests_normalize h = Some n \<Longrightarrow> 0 < length n \<and> length n = length h \<and> length n \<le> 253"
  by (cases h) (auto simp: requests_normalize_eq runtime_host_ok_def labels_ok_def label_ok_def
      split: if_splits)

section \<open>Tree routines\<close>

definition rn_key :: "request \<Rightarrow> node_key" where
  "rn_key rn = Node_Key (rn_hash rn) (rn_host rn)"

fun requests_insert_value :: "request \<Rightarrow> request tree \<Rightarrow> request tree" where
  "requests_insert_value rn Leaf = Node Leaf rn Leaf"
| "requests_insert_value rn (Node l temp r) =
     (if rn_hash rn \<noteq> rn_hash temp then
        (if rn_hash rn < rn_hash temp
         then Node (requests_insert_value rn l) temp r
         else Node l temp (requests_insert_value rn r))
      else if length (rn_host rn) \<noteq> length (rn_host temp) then
        (if length (rn_host rn) < length (rn_host temp)
         then Node (requests_insert_value rn l) temp r
         else Node l temp (requests_insert_value rn r))
      else if memcmp (rn_host rn) (rn_host temp) < 0
        then Node (requests_insert_value rn l) temp r
        else Node l temp (requests_insert_value rn r))"

fun requests_lookup :: "bytes \<Rightarrow> u32 \<Rightarrow> request tree \<Rightarrow> request option" where
  "requests_lookup host hash Leaf = None"
| "requests_lookup host hash (Node l rn r) =
     (if hash < rn_hash rn then requests_lookup host hash l
      else if hash > rn_hash rn then requests_lookup host hash r
      else if length host \<noteq> length (rn_host rn) then
        (if length host < length (rn_host rn)
         then requests_lookup host hash l else requests_lookup host hash r)
      else let rc = memcmp host (rn_host rn) in
        if rc = 0 then Some rn
        else if rc < 0 then requests_lookup host hash l
        else requests_lookup host hash r)"

interpretation req_ix: name_index rn_key requests_insert_value requests_lookup
proof unfold_locales
  fix n t :: request and l r
  show "requests_insert_value n (Node l t r) =
    (if rn_key n < rn_key t then Node (requests_insert_value n l) t r
     else Node l t (requests_insert_value n r))"
    by (auto simp: rn_key_def Node_Key_less)
next
  fix nm h and t :: request and l r
  show "requests_lookup nm h (Node l t r) =
    (if Node_Key h nm < rn_key t then requests_lookup nm h l
     else if rn_key t = Node_Key h nm then Some t else requests_lookup nm h r)"
    using memcmp_zero [of nm "rn_host t"] by (auto simp: rn_key_def Node_Key_less Let_def)
qed simp_all

section \<open>Zone operations\<close>

text \<open>
  \<^verbatim>\<open>ngx_autocert_requests_init_body\<close>.  A header found in the arena is
  adopted, tree and all.  Only a header whose stamp is the current layout (active or
  inactive), or the stamp 0 of an empty tree, is restamped; with any other stamp the
  owner refuses the reload and a consumer leaves the header alone.
\<close>

definition requests_init_body :: "bool \<Rightarrow> requests_zone \<Rightarrow> ngx_rc \<times> requests_zone" where
  "requests_init_body owner z =
     (let stamp = (if owner then API_VERSION else API_INACTIVE_VERSION) in
      case rz_sh z of
        Some sh \<Rightarrow>
          (let inherited = api_version sh;
               legacy_empty = (inherited = 0 \<and> rq_count sh = 0 \<and> rq_rbtree sh = Leaf) in
           if inherited = API_VERSION \<or> inherited = API_INACTIVE_VERSION \<or> legacy_empty
           then (NGX_OK, z\<lparr>rz_sh := Some (sh\<lparr>api_version := stamp\<rparr>)\<rparr>)
           else (if owner then NGX_ERROR else NGX_OK, z))
      | None \<Rightarrow>
          (case slab_alloc (rz_slab z) of
             (False, s) \<Rightarrow> (NGX_ERROR, z\<lparr>rz_slab := s\<rparr>)
           | (True, s) \<Rightarrow>
               (NGX_OK,
                z\<lparr>rz_slab := s,
                  rz_sh := Some \<lparr>api_version = stamp, rq_count = 0, rq_rbtree = Leaf\<rparr>\<rparr>)))"

definition requests_init_zone :: "requests_zone \<Rightarrow> ngx_rc \<times> requests_zone" where
  "requests_init_zone z = requests_init_body True z"

definition requests_init_zone_consumer :: "requests_zone \<Rightarrow> ngx_rc \<times> requests_zone" where
  "requests_init_zone_consumer z = requests_init_body False z"

text \<open>
  The guard shared by the operations: the header, when the zone is mapped, has been
  initialised and carries the active stamp of the current layout.
\<close>

definition active_sh :: "requests_zone \<Rightarrow> requests_sh option" where
  "active_sh z =
     (if \<not> rz_mapped z then None
      else case rz_sh z of
        None \<Rightarrow> None
      | Some sh \<Rightarrow> if api_version sh \<noteq> API_VERSION then None else Some sh)"

definition put_sh :: "requests_sh \<Rightarrow> requests_zone \<Rightarrow> requests_zone" where
  "put_sh sh z = z\<lparr>rz_sh := Some sh\<rparr>"

text \<open>A write through the node pointer that a lookup returned.\<close>

definition put_node :: "request \<Rightarrow> (request \<Rightarrow> request) \<Rightarrow> requests_sh \<Rightarrow> requests_sh" where
  "put_node rn f sh = sh\<lparr>rq_rbtree := map_tree (\<lambda>n. if n = rn then f n else n) (rq_rbtree sh)\<rparr>"

definition requests_ensure ::
  "request rbtree_ops \<Rightarrow> (bytes \<Rightarrow> u32) \<Rightarrow> int \<Rightarrow> requests_zone \<Rightarrow> bytes \<Rightarrow> nat \<times> requests_zone" where
  "requests_ensure rb crc now z host =
     (if \<not> rz_mapped z then (REQ_UNKNOWN, z)
      else case requests_normalize host of
        None \<Rightarrow> (REQ_DENIED, z)
      | Some norm \<Rightarrow>
        (case active_sh z of
           None \<Rightarrow> (REQ_UNKNOWN, z)
         | Some sh \<Rightarrow>
             let hash = crc norm in
             (case requests_lookup norm hash (rq_rbtree sh) of
                Some rn \<Rightarrow>
                  (rn_state rn, put_sh (put_node rn (\<lambda>n. n\<lparr>rn_last_seen := now\<rparr>) sh) z)
              | None \<Rightarrow>
                  if rq_count sh \<ge> REQUESTS_MAX then (REQ_DENIED, z)
                  else
                    (case slab_alloc (rz_slab z) of
                       (False, s) \<Rightarrow> (REQ_UNKNOWN, z\<lparr>rz_slab := s\<rparr>)
                     | (True, s) \<Rightarrow>
                         let rn = \<lparr>rn_hash = hash, rn_state = REQ_REQUESTED, rn_first_seen = now,
                                   rn_last_attempt = 0, rn_last_seen = now, rn_next_eligible = 0,
                                   rn_fail_count = 0, rn_host = norm\<rparr> in
                         (REQ_REQUESTED,
                          put_sh (sh\<lparr>rq_rbtree := rb_fixup rb (requests_insert_value rn (rq_rbtree sh)),
                                     rq_count := rq_count sh + 1\<rparr>)
                            (z\<lparr>rz_slab := s\<rparr>))))))"

definition requests_state :: "(bytes \<Rightarrow> u32) \<Rightarrow> requests_zone \<Rightarrow> bytes \<Rightarrow> nat" where
  "requests_state crc z host =
     (if \<not> rz_mapped z then REQ_UNKNOWN
      else case requests_normalize host of
        None \<Rightarrow> REQ_UNKNOWN
      | Some norm \<Rightarrow>
        (case active_sh z of
           None \<Rightarrow> REQ_UNKNOWN
         | Some sh \<Rightarrow>
             (case requests_lookup norm (crc norm) (rq_rbtree sh) of
                Some rn \<Rightarrow> rn_state rn
              | None \<Rightarrow> REQ_UNKNOWN)))"

text \<open>
  The driver takes a node that is fresh, or that failed and whose backoff has elapsed.
\<close>

definition drain_eligible :: "int \<Rightarrow> request \<Rightarrow> bool" where
  "drain_eligible now rn \<longleftrightarrow>
     \<not> ((rn_state rn \<noteq> REQ_REQUESTED \<and> rn_state rn \<noteq> REQ_FAILED)
        \<or> (rn_next_eligible rn \<noteq> 0 \<and> now < rn_next_eligible rn))"

text \<open>
  The walk over the tree shared by \<^verbatim>\<open>drain\<close> and
  \<^verbatim>\<open>list_issued\<close>: nodes that pass the test are copied out, at
  most \<open>cap\<close> of them (0 for no limit), each with an array slot and a pool
  buffer.  The result is the nodes copied and whether an allocation failed.
\<close>

fun requests_walk ::
  "(request \<Rightarrow> bool) \<Rightarrow> nat \<Rightarrow> alloc \<Rightarrow> nat \<Rightarrow> request list \<Rightarrow> request list \<times> bool" where
  "requests_walk want cap pool n [] = ([], False)"
| "requests_walk want cap pool n (rn # rns) =
     (if cap \<noteq> 0 \<and> n \<ge> cap then ([], False)
      else if \<not> want rn then requests_walk want cap pool n rns
      else
        (case alloc_next pool of
           (False, _) \<Rightarrow> ([], True)
         | (True, pool1) \<Rightarrow>
             (case alloc_next pool1 of
                (False, _) \<Rightarrow> ([], True)
              | (True, pool2) \<Rightarrow>
                  let (took, oom) = requests_walk want cap pool2 (n + 1) rns in (rn # took, oom))))"

text \<open>
  The return value: the number of nodes, or -1 when the first copy failed.
\<close>

definition walk_rc :: "request list \<times> bool \<Rightarrow> int" where
  "walk_rc w = (if snd w \<and> fst w = [] then - 1 else int (length (fst w)))"

definition requests_drain ::
  "request rbtree_ops \<Rightarrow> int \<Rightarrow> requests_zone \<Rightarrow> alloc \<Rightarrow> nat \<Rightarrow> int \<times> bytes list \<times> requests_zone" where
  "requests_drain rb now z pool cap =
     (case active_sh z of
        None \<Rightarrow> (- 1, [], z)
      | Some sh \<Rightarrow>
          let w = requests_walk (drain_eligible now) cap pool 0 (rb_walk rb (rq_rbtree sh)) in
          (walk_rc w, map rn_host (fst w),
           put_sh (sh\<lparr>rq_rbtree := map_tree
             (\<lambda>n. if n \<in> set (fst w) then n\<lparr>rn_state := REQ_PENDING, rn_last_attempt := now\<rparr> else n)
             (rq_rbtree sh)\<rparr>) z))"

definition requests_list_issued ::
  "request rbtree_ops \<Rightarrow> requests_zone \<Rightarrow> alloc \<Rightarrow> nat \<Rightarrow> int \<times> bytes list" where
  "requests_list_issued rb z pool cap =
     (case active_sh z of
        None \<Rightarrow> (- 1, [])
      | Some sh \<Rightarrow>
          let w = requests_walk (\<lambda>rn. rn_state rn = REQ_ISSUED) cap pool 0
                    (rb_walk rb (rq_rbtree sh)) in
          (walk_rc w, map rn_host (fst w)))"

text \<open>
  \<^verbatim>\<open>ngx_autocert_requests_gc\<close>: first the victims are collected, at
  most \<^const>\<open>REQUESTS_MAX\<close> of them; then each is copied out and deleted,
  until an allocation fails.
\<close>

definition gc_idle :: "int \<Rightarrow> int \<Rightarrow> request \<Rightarrow> bool" where
  "gc_idle now ttl rn \<longleftrightarrow> \<not> now - rn_last_seen rn \<le> ttl"

definition gc_victims :: "int \<Rightarrow> int \<Rightarrow> request list \<Rightarrow> request list" where
  "gc_victims now ttl rns = take REQUESTS_MAX (filter (gc_idle now ttl) rns)"

fun gc_evict ::
  "request rbtree_ops \<Rightarrow> alloc \<Rightarrow> request list \<Rightarrow> requests_sh \<Rightarrow> slab \<Rightarrow>
   bytes list \<times> requests_sh \<times> slab" where
  "gc_evict rb pool [] sh s = ([], sh, s)"
| "gc_evict rb pool (rn # rns) sh s =
     (case alloc_next pool of
        (False, _) \<Rightarrow> ([], sh, s)
      | (True, pool1) \<Rightarrow>
          (case alloc_next pool1 of
             (False, _) \<Rightarrow> ([], sh, s)
           | (True, pool2) \<Rightarrow>
               let (out, sh', s') = gc_evict rb pool2 rns
                     (sh\<lparr>rq_rbtree := rb_delete rb rn (rq_rbtree sh),
                         rq_count := (if rq_count sh > 0 then rq_count sh - 1 else rq_count sh)\<rparr>)
                     (slab_free (rn_host rn) s)
               in (rn_host rn # out, sh', s')))"

definition requests_gc ::
  "request rbtree_ops \<Rightarrow> int \<Rightarrow> requests_zone \<Rightarrow> int \<Rightarrow> alloc \<Rightarrow> int \<times> bytes list \<times> requests_zone" where
  "requests_gc rb now z ttl pool =
     (if \<not> rz_mapped z then (- 1, [], z)
      else if ttl \<le> 0 then (0, [], z)
      else case active_sh z of
        None \<Rightarrow> (- 1, [], z)
      | Some sh \<Rightarrow>
          let (out, sh', s') = gc_evict rb pool
                (gc_victims now ttl (rb_walk rb (rq_rbtree sh))) sh (rz_slab z)
          in (int (length out), out, put_sh sh' (z\<lparr>rz_slab := s'\<rparr>)))"

text \<open>
  The backoff of the \<open>n\<close>-th failure: the base, doubled \<open>n - 1\<close> times,
  leaving the loop when the clamp is reached.
\<close>

fun backoff_loop :: "nat \<Rightarrow> int \<Rightarrow> int" where
  "backoff_loop n backoff =
     (if n > 1 then
        let backoff' = backoff * 2 in
        if backoff' \<ge> REQ_BACKOFF_MAX then REQ_BACKOFF_MAX else backoff_loop (n - 1) backoff'
      else backoff)"

declare backoff_loop.simps [simp del]

definition set_state_node :: "int \<Rightarrow> nat \<Rightarrow> int \<Rightarrow> request \<Rightarrow> request" where
  "set_state_node now state next_eligible rn =
     (let rn1 = rn\<lparr>rn_state := state, rn_last_attempt := now, rn_last_seen := now\<rparr> in
      if state = REQ_FAILED then
        let fail_count = rn_fail_count rn1 + 1 in
        rn1\<lparr>rn_fail_count := fail_count,
            rn_next_eligible :=
              (if next_eligible = 0 then now + backoff_loop fail_count REQ_BACKOFF_BASE
               else next_eligible)\<rparr>
      else rn1\<lparr>rn_next_eligible := next_eligible\<rparr>)"

definition requests_set_state ::
  "(bytes \<Rightarrow> u32) \<Rightarrow> int \<Rightarrow> requests_zone \<Rightarrow> bytes \<Rightarrow> nat \<Rightarrow> int \<Rightarrow> ngx_rc \<times> requests_zone" where
  "requests_set_state crc now z host state next_eligible =
     (if \<not> rz_mapped z \<or> state \<le> REQ_UNKNOWN \<or> state > REQ_DENIED then (NGX_ERROR, z)
      else case requests_normalize host of
        None \<Rightarrow> (NGX_ERROR, z)
      | Some norm \<Rightarrow>
        (case active_sh z of
           None \<Rightarrow> (NGX_ERROR, z)
         | Some sh \<Rightarrow>
             (case requests_lookup norm (crc norm) (rq_rbtree sh) of
                None \<Rightarrow> (NGX_OK, z)
              | Some rn \<Rightarrow>
                  (NGX_OK, put_sh (put_node rn (set_state_node now state next_eligible) sh) z))))"

section \<open>Invariant and view\<close>

definition request_wf :: "request \<Rightarrow> bool" where
  "request_wf rn \<longleftrightarrow>
     REQ_UNKNOWN < rn_state rn \<and> rn_state rn \<le> REQ_DENIED \<and>
     requests_normalize (rn_host rn) = Some (rn_host rn)"

definition sh_inv :: "(bytes \<Rightarrow> u32) \<Rightarrow> requests_sh \<Rightarrow> bool" where
  "sh_inv crc sh \<longleftrightarrow>
     index_wf rn_key crc (inorder (rq_rbtree sh)) \<and>
     list_all request_wf (inorder (rq_rbtree sh)) \<and>
     rq_count sh = length (inorder (rq_rbtree sh)) \<and> rq_count sh \<le> REQUESTS_MAX"

definition requests_inv :: "(bytes \<Rightarrow> u32) \<Rightarrow> requests_zone \<Rightarrow> bool" where
  "requests_inv crc z \<longleftrightarrow>
     (case rz_sh z of
        None \<Rightarrow> live (rz_slab z) = 0
      | Some sh \<Rightarrow> sh_inv crc sh \<and> live (rz_slab z) = 1 + rq_count sh)"

definition requests_view :: "requests_zone \<Rightarrow> bytes \<Rightarrow> request option" where
  "requests_view z host =
     (case rz_sh z of
        None \<Rightarrow> None
      | Some sh \<Rightarrow> find_name rn_key host (inorder (rq_rbtree sh)))"

lemma rn_key_simps [simp]:
  "key_hash (rn_key rn) = rn_hash rn"
  "key_name (rn_key rn) = rn_host rn"
  "rn_key (rn\<lparr>rn_last_seen := t\<rparr>) = rn_key rn"
  "rn_key (rn\<lparr>rn_state := st, rn_last_attempt := t\<rparr>) = rn_key rn"
  "rn_key (set_state_node now st ne rn) = rn_key rn"
  by (simp_all add: rn_key_def set_state_node_def Let_def)

lemma request_wf_updates [simp]:
  "request_wf (rn\<lparr>rn_last_seen := t\<rparr>) = request_wf rn"
  "request_wf rn \<Longrightarrow> request_wf (rn\<lparr>rn_state := REQ_PENDING, rn_last_attempt := t\<rparr>)"
  "request_wf rn \<Longrightarrow> 0 < st \<Longrightarrow> st \<le> REQ_DENIED \<Longrightarrow> request_wf (set_state_node now st ne rn)"
  by (simp_all add: request_wf_def set_state_node_def Let_def)

lemma active_sh_Some:
  "active_sh z = Some sh \<longleftrightarrow> rz_mapped z \<and> rz_sh z = Some sh \<and> api_version sh = API_VERSION"
  by (auto simp: active_sh_def split: option.splits if_splits)

lemma put_sh_simps [simp]:
  "rz_sh (put_sh sh z) = Some sh" "rz_slab (put_sh sh z) = rz_slab z"
  "rz_mapped (put_sh sh z) = rz_mapped z"
  by (simp_all add: put_sh_def)

lemma sh_inv_nodes:
  assumes "sh_inv crc sh" "\<And>n. rn_key (f n) = rn_key n" "\<And>n. request_wf n \<Longrightarrow> request_wf (f n)"
  shows "sh_inv crc (sh\<lparr>rq_rbtree := map_tree f (rq_rbtree sh)\<rparr>)"
  using assms by (auto simp: sh_inv_def inorder_map index_wf_map_fields list_all_iff)

lemma requests_lookup_find:
  "sh_inv crc sh \<Longrightarrow>
   requests_lookup host (crc host) (rq_rbtree sh) = find_name rn_key host (inorder (rq_rbtree sh))"
  by (simp add: sh_inv_def req_ix.look_find)

lemma requests_inv_active:
  "requests_inv crc z \<Longrightarrow> active_sh z = Some sh \<Longrightarrow>
   sh_inv crc sh \<and> live (rz_slab z) = 1 + rq_count sh"
  by (simp add: requests_inv_def active_sh_Some)

subsection \<open>Every operation keeps the invariant\<close>

lemma requests_init_body_inv [inv_intros]:
  "requests_inv crc z \<Longrightarrow> requests_inv crc (snd (requests_init_body owner z))"
  by (rule slab_alloc_cases [of "rz_slab z"])
    (auto simp: requests_inv_def requests_init_body_def sh_inv_def Let_def split: option.splits)

lemma requests_ensure_cases:
  assumes rb: "rbtree_ok rb" and inv: "requests_inv crc z"
    and ens: "requests_ensure rb crc now z host = (st, z')"
  obtains (unmapped) "\<not> rz_mapped z" "st = REQ_UNKNOWN" "z' = z"
  | (bad_name) "rz_mapped z" "requests_normalize host = None" "st = REQ_DENIED" "z' = z"
  | (inactive) "rz_mapped z" "active_sh z = None" "requests_normalize host \<noteq> None"
      "st = REQ_UNKNOWN" "z' = z"
  | (hit) sh norm rn where "active_sh z = Some sh" "requests_normalize host = Some norm"
      "find_name rn_key norm (inorder (rq_rbtree sh)) = Some rn" "st = rn_state rn"
      "z' = put_sh (put_node rn (\<lambda>n. n\<lparr>rn_last_seen := now\<rparr>) sh) z"
  | (full) sh norm where "active_sh z = Some sh" "requests_normalize host = Some norm"
      "find_name rn_key norm (inorder (rq_rbtree sh)) = None" "rq_count sh = REQUESTS_MAX"
      "st = REQ_DENIED" "z' = z"
  | (oom) sh norm where "active_sh z = Some sh" "requests_normalize host = Some norm"
      "find_name rn_key norm (inorder (rq_rbtree sh)) = None" "rq_count sh < REQUESTS_MAX"
      "st = REQ_UNKNOWN" "fst (slab_alloc (rz_slab z)) = False"
      "z' = z\<lparr>rz_slab := snd (slab_alloc (rz_slab z))\<rparr>"
  | (enqueued) sh norm rn where "active_sh z = Some sh" "requests_normalize host = Some norm"
      "find_name rn_key norm (inorder (rq_rbtree sh)) = None" "rq_count sh < REQUESTS_MAX"
      "rn = \<lparr>rn_hash = crc norm, rn_state = REQ_REQUESTED, rn_first_seen = now, rn_last_attempt = 0,
         rn_last_seen = now, rn_next_eligible = 0, rn_fail_count = 0, rn_host = norm\<rparr>"
      "st = REQ_REQUESTED" "fst (slab_alloc (rz_slab z)) = True"
      "z' = put_sh (sh\<lparr>rq_rbtree := rb_fixup rb (requests_insert_value rn (rq_rbtree sh)),
          rq_count := rq_count sh + 1\<rparr>) (z\<lparr>rz_slab := snd (slab_alloc (rz_slab z))\<rparr>)"
proof (cases "rz_mapped z")
  case False
  with ens show thesis by (intro unmapped) (auto simp: requests_ensure_def)
next
  case mapped: True
  show thesis
  proof (cases "requests_normalize host")
    case None
    with mapped ens show thesis by (intro bad_name) (auto simp: requests_ensure_def)
  next
    case norm: (Some norm)
    show thesis
    proof (cases "active_sh z")
      case None
      with mapped norm ens show thesis by (intro inactive) (auto simp: requests_ensure_def)
    next
      case act: (Some sh)
      note sh = requests_inv_active [OF inv act]
      then have look: "requests_lookup norm (crc norm) (rq_rbtree sh) =
          find_name rn_key norm (inorder (rq_rbtree sh))" "rq_count sh \<le> REQUESTS_MAX"
        by (simp_all add: requests_lookup_find sh_inv_def)
      show thesis
      proof (cases "find_name rn_key norm (inorder (rq_rbtree sh))")
        case (Some rn)
        with mapped norm act look ens show thesis
          by (intro hit) (auto simp: requests_ensure_def Let_def)
      next
        case None
        show thesis
        proof (cases "rq_count sh = REQUESTS_MAX")
          case True
          with None mapped norm act look ens show thesis
            by (intro full [OF act norm None]) (auto simp: requests_ensure_def Let_def)
        next
          case False
          with look(2) have room: "rq_count sh < REQUESTS_MAX" by simp
          obtain b s where s: "slab_alloc (rz_slab z) = (b, s)" by force
          from None mapped norm act look ens room s
          have res: "(st, z') = (if b then (REQ_REQUESTED, put_sh (sh\<lparr>rq_rbtree := rb_fixup rb
              (requests_insert_value \<lparr>rn_hash = crc norm, rn_state = REQ_REQUESTED,
                 rn_first_seen = now, rn_last_attempt = 0, rn_last_seen = now, rn_next_eligible = 0,
                 rn_fail_count = 0, rn_host = norm\<rparr> (rq_rbtree sh)),
              rq_count := rq_count sh + 1\<rparr>) (z\<lparr>rz_slab := s\<rparr>))
            else (REQ_UNKNOWN, z\<lparr>rz_slab := s\<rparr>))"
            by (cases b) (auto simp: requests_ensure_def Let_def)
          show thesis
          proof (cases b)
            case True
            with res s show thesis by (intro enqueued [OF act norm None room refl]) simp_all
          next
            case False
            with res s show thesis by (intro oom [OF act norm None room]) simp_all
          qed
        qed
      qed
    qed
  qed
qed

lemma enqueue_inorder:
  assumes "rbtree_ok rb" "sh_inv crc sh" "requests_normalize host = Some norm"
    and "find_name rn_key norm (inorder (rq_rbtree sh)) = None"
    and "rn_host rn = norm" "rn_hash rn = crc norm"
  shows "inorder (rb_fixup rb (requests_insert_value rn (rq_rbtree sh))) =
      insort_key rn_key rn (inorder (rq_rbtree sh))"
    and "index_wf rn_key crc (insort_key rn_key rn (inorder (rq_rbtree sh)))"
proof -
  have wf: "index_wf rn_key crc (inorder (rq_rbtree sh))" using assms(2) by (simp add: sh_inv_def)
  show "inorder (rb_fixup rb (requests_insert_value rn (rq_rbtree sh))) =
      insort_key rn_key rn (inorder (rq_rbtree sh))"
    using req_ix.inorder_ins [OF wf, of rn] assms by (simp add: rbtree_okD)
  show "index_wf rn_key crc (insort_key rn_key rn (inorder (rq_rbtree sh)))"
    using wf assms by (intro index_wf_insort) simp_all
qed

lemma requests_ensure_inv [inv_intros]:
  assumes "rbtree_ok rb" "requests_inv crc z"
  shows "requests_inv crc (snd (requests_ensure rb crc now z host))"
  using assms prod.collapse [symmetric]
proof (cases rule: requests_ensure_cases [where host = host and now = now])
  case (hit sh norm rn)
  with requests_inv_active [OF assms(2) hit(1)]
  have "sh_inv crc (put_node rn (\<lambda>n. n\<lparr>rn_last_seen := now\<rparr>) sh)"
    unfolding put_node_def by (intro sh_inv_nodes) auto
  with hit requests_inv_active [OF assms(2) hit(1)] show ?thesis
    by (simp add: requests_inv_def put_node_def)
next
  case (oom sh norm)
  with assms(2) slab_alloc_effect [OF prod.collapse [symmetric], of "rz_slab z"] show ?thesis
    by (auto simp: requests_inv_def split: option.splits)
next
  case (enqueued sh norm rn)
  note sh = requests_inv_active [OF assms(2) enqueued(1)]
  from enqueued sh have ins: "inorder (rb_fixup rb (requests_insert_value rn (rq_rbtree sh))) =
      insort_key rn_key rn (inorder (rq_rbtree sh))"
      "index_wf rn_key crc (insort_key rn_key rn (inorder (rq_rbtree sh)))"
    using enqueue_inorder [OF assms(1) _ enqueued(2,3), of crc rn] by simp_all
  from enqueued requests_normalize_idem have "request_wf rn"
    by (auto simp: request_wf_def)
  with enqueued sh ins slab_alloc_effect [OF prod.collapse [symmetric], of "rz_slab z"] show ?thesis
    by (auto simp: requests_inv_def sh_inv_def set_insort_key list_all_iff)
qed (use assms in simp_all)

lemma requests_drain_inv [inv_intros]:
  assumes "requests_inv crc z"
  shows "requests_inv crc (snd (snd (requests_drain rb now z pool cap)))"
proof (cases "active_sh z")
  case None
  with assms show ?thesis by (simp add: requests_drain_def)
next
  case (Some sh)
  note sh = requests_inv_active [OF assms Some]
  then show ?thesis
    using sh_inv_nodes [of crc sh "\<lambda>n. if n \<in> X then n\<lparr>rn_state := 2, rn_last_attempt := now\<rparr> else n" for X]
    by (simp add: requests_drain_def Some Let_def requests_inv_def)
qed

lemma requests_set_state_inv [inv_intros]:
  assumes "requests_inv crc z"
  shows "requests_inv crc (snd (requests_set_state crc now z host st ne))"
proof -
  have "requests_inv crc (put_sh (put_node rn (set_state_node now st ne) sh) z)"
    if "active_sh z = Some sh" "0 < st" "st \<le> REQ_DENIED" for sh rn
  proof -
    note sh = requests_inv_active [OF assms that(1)]
    then have "sh_inv crc (put_node rn (set_state_node now st ne) sh)"
      unfolding put_node_def using that by (intro sh_inv_nodes) auto
    with sh show ?thesis by (simp add: requests_inv_def put_node_def)
  qed
  with assms show ?thesis
    by (auto simp: requests_set_state_def split: option.splits)
qed


subsection \<open>Eviction\<close>

lemma gc_evict_effect:
  assumes "rbtree_ok rb" "sh_inv crc sh" "live s = 1 + rq_count sh"
    and "distinct vs" "set vs \<subseteq> set (inorder (rq_rbtree sh))"
    and "gc_evict rb pool vs sh s = (out, sh', s')"
  shows "\<exists>k \<le> length vs. out = map rn_host (take k vs) \<and>
    inorder (rq_rbtree sh') = filter (\<lambda>n. n \<notin> set (take k vs)) (inorder (rq_rbtree sh)) \<and>
    sh_inv crc sh' \<and> live s' = 1 + rq_count sh' \<and> api_version sh' = api_version sh \<and>
    (pool = [] \<longrightarrow> k = length vs)"
  using assms(2-)
proof (induction vs arbitrary: pool sh s out)
  case Nil
  then show ?case by simp
next
  case (Cons rn rns)
  let ?sh = "sh\<lparr>rq_rbtree := rb_delete rb rn (rq_rbtree sh),
    rq_count := (if rq_count sh > 0 then rq_count sh - 1 else rq_count sh)\<rparr>"
  let ?s = "slab_free (rn_host rn) s"
  obtain b1 p1 b2 p2 where al: "alloc_next pool = (b1, p1)" "alloc_next p1 = (b2, p2)" by force
  show ?case
  proof (cases "b1 \<and> b2")
    case False
    with Cons.prems al show ?thesis by (intro exI [of _ 0]) (cases pool; auto split: bool.splits)
  next
    case True
    obtain o' where rest: "gc_evict rb p2 rns ?sh ?s = (o', sh', s')" "out = rn_host rn # o'"
      using Cons.prems al True by (auto simp: Let_def split: prod.splits)
    have mem: "rn \<in> set (inorder (rq_rbtree sh))" using Cons.prems by simp
    have wf: "index_wf rn_key crc (inorder (rq_rbtree sh))" "distinct (inorder (rq_rbtree sh))"
      using Cons.prems(1) index_wf_distinct by (auto simp: sh_inv_def)
    then have del: "inorder (rb_delete rb rn (rq_rbtree sh)) = remove1 rn (inorder (rq_rbtree sh))"
      using rbtree_okD(2) [OF assms(1)] mem by blast
    have len: "0 < length (inorder (rq_rbtree sh))" using mem by (cases "inorder (rq_rbtree sh)") auto
    with Cons.prems mem wf del have "sh_inv crc ?sh" "live ?s = 1 + rq_count ?sh"
      by (auto simp: sh_inv_def index_wf_remove1 list_all_iff length_remove1 simp del: length_inorder)
    with Cons.prems del rest mem wf obtain k where k: "k \<le> length rns"
      "o' = map rn_host (take k rns)"
      "inorder (rq_rbtree sh') = filter (\<lambda>n. n \<notin> set (take k rns)) (remove1 rn (inorder (rq_rbtree sh)))"
      "sh_inv crc sh'" "live s' = 1 + rq_count sh'" "api_version sh' = api_version sh"
      "p2 = [] \<longrightarrow> k = length rns"
      using Cons.IH [of ?sh ?s p2 o'] by (auto simp: set_remove1_eq)
    have "pool = [] \<Longrightarrow> p2 = []" using al by simp
    with k rest wf show ?thesis
      by (intro exI [of _ "Suc k"]) (auto simp: distinct_remove1_removeAll removeAll_filter_not_eq
          intro!: filter_cong)
  qed
qed

lemma requests_gc_effect:
  assumes rb: "rbtree_ok rb" and inv: "requests_inv crc z" and act: "active_sh z = Some sh"
    and ttl: "0 < ttl" and gc: "requests_gc rb now z ttl pool = (rc, out, z')"
  shows "\<exists>gone. set gone \<subseteq> set (inorder (rq_rbtree sh)) \<and> distinct gone \<and>
    (\<forall>rn \<in> set gone. gc_idle now ttl rn) \<and> out = map rn_host gone \<and> rc = int (length out) \<and>
    (pool = [] \<longrightarrow> (\<forall>rn \<in> set (inorder (rq_rbtree sh)). gc_idle now ttl rn \<longrightarrow> rn \<in> set gone)) \<and>
    (\<exists>sh'. active_sh z' = Some sh' \<and> requests_inv crc z' \<and>
      inorder (rq_rbtree sh') = filter (\<lambda>n. n \<notin> set gone) (inorder (rq_rbtree sh)))"
proof -
  note sh = requests_inv_active [OF inv act]
  have mapped: "rz_mapped z" "api_version sh = API_VERSION" using act by (simp_all add: active_sh_Some)
  let ?ns = "inorder (rq_rbtree sh)"
  let ?vs = "gc_victims now ttl ?ns"
  have all: "?vs = filter (gc_idle now ttl) ?ns"
    using sh length_filter_le [of "gc_idle now ttl" ?ns] by (simp add: gc_victims_def sh_inv_def)
  have dist: "distinct ?vs"
    unfolding all using sh by (auto simp: sh_inv_def intro: index_wf_distinct distinct_filter)
  obtain sh' s' where ev: "gc_evict rb pool ?vs sh (rz_slab z) = (out, sh', s')"
    "z' = put_sh sh' (z\<lparr>rz_slab := s'\<rparr>)" "rc = int (length out)"
    using gc mapped act ttl rbtree_okD(3) [OF rb]
    by (auto simp: requests_gc_def Let_def split: prod.splits)
  from sh have "\<exists>k \<le> length ?vs. out = map rn_host (take k ?vs) \<and>
    inorder (rq_rbtree sh') = filter (\<lambda>n. n \<notin> set (take k ?vs)) ?ns \<and>
    sh_inv crc sh' \<and> live s' = 1 + rq_count sh' \<and> api_version sh' = api_version sh \<and>
    (pool = [] \<longrightarrow> k = length ?vs)"
    by (intro gc_evict_effect [OF rb _ _ dist _ ev(1)]) (auto simp: all)
  then obtain k where k: "k \<le> length ?vs" "out = map rn_host (take k ?vs)"
    "inorder (rq_rbtree sh') = filter (\<lambda>n. n \<notin> set (take k ?vs)) ?ns"
    "sh_inv crc sh'" "live s' = 1 + rq_count sh'" "api_version sh' = api_version sh"
    "pool = [] \<longrightarrow> k = length ?vs" by blast
  have sub: "set (take k ?vs) \<subseteq> set ?vs" by (rule set_take_subset)
  show ?thesis
    using k ev mapped dist sub
    by (intro exI [of _ "take k ?vs"]) (auto simp: all requests_inv_def active_sh_Some dest: subsetD)
qed

lemma requests_gc_inv [inv_intros]:
  assumes "rbtree_ok rb" "requests_inv crc z"
  shows "requests_inv crc (snd (snd (requests_gc rb now z ttl pool)))"
proof (cases "active_sh z = None \<or> ttl \<le> 0")
  case True
  with assms show ?thesis by (auto simp: requests_gc_def)
next
  case False
  then obtain sh where "active_sh z = Some sh" "0 < ttl" by auto
  with requests_gc_effect [OF assms this prod.collapse [symmetric, THEN trans, OF arg_cong2
      [where f = Pair, OF refl prod.collapse [symmetric]]]] show ?thesis by auto
qed


section \<open>Sequences of calls\<close>

text \<open>
  The calls that the worker processes and the driver make on the zone, each with the
  wall clock of the call and, where it copies names out, the pool it allocates from.
\<close>

datatype request_call =
    Init_Owner
  | Init_Consumer
  | Ensure int bytes
  | Drain int alloc nat
  | Gc int int alloc
  | Set_State int bytes nat int

fun requests_step ::
  "request rbtree_ops \<Rightarrow> (bytes \<Rightarrow> u32) \<Rightarrow> request_call \<Rightarrow> requests_zone \<Rightarrow> requests_zone" where
  "requests_step rb crc Init_Owner z = snd (requests_init_zone z)"
| "requests_step rb crc Init_Consumer z = snd (requests_init_zone_consumer z)"
| "requests_step rb crc (Ensure now host) z = snd (requests_ensure rb crc now z host)"
| "requests_step rb crc (Drain now pool cap) z = snd (snd (requests_drain rb now z pool cap))"
| "requests_step rb crc (Gc now ttl pool) z = snd (snd (requests_gc rb now z ttl pool))"
| "requests_step rb crc (Set_State now host st ne) z = snd (requests_set_state crc now z host st ne)"

definition requests_run ::
  "request rbtree_ops \<Rightarrow> (bytes \<Rightarrow> u32) \<Rightarrow> request_call list \<Rightarrow> requests_zone \<Rightarrow> requests_zone" where
  "requests_run rb crc calls z = fold (requests_step rb crc) calls z"

definition requests_fresh :: "alloc \<Rightarrow> requests_zone" where
  "requests_fresh as = \<lparr>rz_mapped = True, rz_sh = None, rz_slab = \<lparr>answers = as, live = 0, freed = []\<rparr>\<rparr>"

lemma requests_inv_fresh [inv_intros]: "requests_inv crc (requests_fresh as)"
  by (simp add: requests_inv_def requests_fresh_def)

lemma requests_step_inv:
  "rbtree_ok rb \<Longrightarrow> requests_inv crc z \<Longrightarrow> requests_inv crc (requests_step rb crc call z)"
  by (cases call) (simp_all add: requests_init_zone_def requests_init_zone_consumer_def inv_intros)

lemma requests_run_inv:
  "rbtree_ok rb \<Longrightarrow> requests_inv crc z \<Longrightarrow> requests_inv crc (requests_run rb crc calls z)"
  by (induction calls arbitrary: z) (simp_all add: requests_run_def requests_step_inv)

lemma requests_view_SomeD:
  assumes "requests_inv crc z" "requests_view z h = Some rn"
  shows "rn_host rn = h" "request_wf rn" "rn_hash rn = crc h"
  using assms
  by (auto simp: requests_view_def requests_inv_def sh_inv_def list_all_iff index_wf_def
      dest!: find_name_SomeD split: option.splits)

lemma requests_view_active:
  "active_sh z = Some sh \<Longrightarrow> requests_view z h = find_name rn_key h (inorder (rq_rbtree sh))"
  by (simp add: requests_view_def active_sh_Some)

text \<open>
  Claim C7.  The registry after any sequence of calls on a fresh zone, by any process
  and under any pattern of allocation failures: every stored name is in normal form
  (it is the result of \<^const>\<open>requests_normalize\<close> on itself), no name is
  stored twice, every state is one of the five stored states, the counter is the number
  of nodes and never exceeds the cap of 64, and the slab holds exactly the nodes and
  the header: no node leaks.
\<close>

theorem requests_run_invariant:
  assumes "rbtree_ok rb" "rz_sh (requests_run rb crc calls (requests_fresh as)) = Some sh"
  shows "rq_count sh = length (inorder (rq_rbtree sh)) \<and> rq_count sh \<le> REQUESTS_MAX \<and>
    distinct (map rn_host (inorder (rq_rbtree sh))) \<and>
    live (rz_slab (requests_run rb crc calls (requests_fresh as))) = 1 + rq_count sh \<and>
    (\<forall>rn \<in> set (inorder (rq_rbtree sh)).
       requests_normalize (rn_host rn) = Some (rn_host rn) \<and>
       rn_state rn \<in> {REQ_REQUESTED, REQ_PENDING, REQ_ISSUED, REQ_FAILED, REQ_DENIED})"
proof -
  have inv: "sh_inv crc sh" "live (rz_slab (requests_run rb crc calls (requests_fresh as))) = 1 + rq_count sh"
    using requests_run_inv [OF assms(1) requests_inv_fresh, of crc calls as] assms(2)
    by (simp_all add: requests_inv_def)
  then have "distinct (map rn_host (inorder (rq_rbtree sh)))"
    using index_wf_distinct [of rn_key crc] index_wf_key_name_inj [of rn_key crc]
    by (fastforce simp: sh_inv_def distinct_map inj_on_def)
  with inv show ?thesis by (auto simp: sh_inv_def list_all_iff request_wf_def)
qed

theorem requests_run_invariant_witness:
  defines "z \<equiv> requests_run plain_ops (\<lambda>_. 0)
    [Init_Owner, Ensure 5 (str ''a.com''), Ensure 6 (str ''B.com''), Ensure 7 (str ''A.COM''), Drain 9 [] 1]
    (requests_fresh [True, True, True])"
  shows "map rn_host (inorder (rq_rbtree (the (rz_sh z)))) = [str ''a.com'', str ''b.com''] \<and>
    distinct (map rn_host (inorder (rq_rbtree (the (rz_sh z)))))"
proof -
  have "map_option (\<lambda>sh. map rn_host (inorder (rq_rbtree sh))) (rz_sh z) =
      Some [str ''a.com'', str ''b.com'']"
    unfolding z_def by code_simp
  then obtain sh where sh: "rz_sh z = Some sh"
    "map rn_host (inorder (rq_rbtree sh)) = [str ''a.com'', str ''b.com'']" by auto
  with requests_run_invariant [OF rbtree_ok_plain_ops sh(1) [unfolded z_def]] show ?thesis by simp
qed


section \<open>What each operation promises\<close>

text \<open>
  Claim C8.  Host names are accepted exactly when they are DNS names in the strict
  sense: at most 253 bytes, dot-separated labels of 1 to 63 letters, digits and hyphens
  that neither start nor end with a hyphen, and not a dotted-quad IPv4 address.  The
  result is the name in lower case.  Every other input is refused.
\<close>

theorem requests_normalize_correct:
  "requests_normalize h =
     (if length h \<le> 253 \<and> list_all label_ok (split_dots h) \<and> \<not> dotted_quad h
      then Some (map lower h) else None)"
proof -
  have "dotted_quad (map lower h) \<longleftrightarrow> dotted_quad h"
  proof -
    have up: "\<not> is_digit (lower c)" if "is_upper c" for c
      using that by (simp add: byte_class_unat unat_lower)
    have same: "lower c = c" if "\<not> is_upper c" for c
      using that by (simp add: lower_def)
    have dig: "is_digit (lower c) \<longleftrightarrow> is_digit c" for c
      using up [of c] same [of c] by (cases "is_upper c") (auto simp: byte_class_unat)
    have "map lower ds = ds" if "list_all is_digit ds" for ds
      using that up same dig by (intro map_idI) (metis list_all_iff)
    then have "octet_ok (map lower ds) \<longleftrightarrow> octet_ok ds" for ds
      by (auto simp: octet_ok_def list_all_iff dig)
    then show ?thesis
      by (simp add: dotted_quad_def split_dots_map_lower list_all_iff)
  qed
  then show ?thesis
    by (simp add: requests_normalize_eq runtime_host_ok_def labels_ok_def)
qed

lemma requests_ensure_view:
  assumes "rbtree_ok rb" "requests_inv crc z" "active_sh z = Some sh"
    "requests_normalize host = Some norm"
    "requests_ensure rb crc now z host = (st, z')"
  shows "(\<forall>rn. requests_view z norm = Some rn \<longrightarrow> st = rn_state rn \<and>
      requests_view z' = (requests_view z)(norm \<mapsto> rn\<lparr>rn_last_seen := now\<rparr>)) \<and>
    (requests_view z norm = None \<longrightarrow>
      (if rq_count sh = REQUESTS_MAX then st = REQ_DENIED \<and> z' = z
       else if fst (slab_alloc (rz_slab z)) then st = REQ_REQUESTED \<and>
         requests_view z' = (requests_view z)(norm \<mapsto>
           \<lparr>rn_hash = crc norm, rn_state = REQ_REQUESTED, rn_first_seen = now, rn_last_attempt = 0,
            rn_last_seen = now, rn_next_eligible = 0, rn_fail_count = 0, rn_host = norm\<rparr>)
       else st = REQ_UNKNOWN \<and> requests_view z' = requests_view z))"
  using assms(1,2,5)
proof (cases rule: requests_ensure_cases)
  case (hit sh0 norm0 rn)
  with assms have eq [simp]: "sh0 = sh" "norm0 = norm" by simp_all
  have "index_wf rn_key crc (inorder (rq_rbtree sh))"
    using requests_inv_active [OF assms(2,3)] by (simp add: sh_inv_def)
  from find_name_update [OF this hit(3) [unfolded eq], of "\<lambda>n. n\<lparr>rn_last_seen := now\<rparr>"] hit assms(3)
  show ?thesis
    by (auto simp: requests_view_def active_sh_Some put_node_def inorder_map fun_eq_iff)
next
  case (full sh0 norm0)
  with assms show ?thesis by (simp add: requests_view_active)
next
  case (oom sh0 norm0)
  with assms show ?thesis by (auto simp: requests_view_active requests_view_def fun_eq_iff active_sh_Some)
next
  case (enqueued sh0 norm0 rn)
  with assms have eq [simp]: "sh0 = sh" "norm0 = norm" by simp_all
  from enqueued assms requests_inv_active [OF assms(2,3)]
  have "inorder (rb_fixup rb (requests_insert_value rn (rq_rbtree sh))) =
      insort_key rn_key rn (inorder (rq_rbtree sh))" "rn_host rn = norm"
    using enqueue_inorder(1) [OF assms(1) _ enqueued(2,3), of crc rn] by simp_all
  with enqueued assms(3) find_name_insort [of rn_key rn "inorder (rq_rbtree sh)"] show ?thesis
    by (auto simp: requests_view_def active_sh_Some fun_eq_iff)
qed (use assms in \<open>auto simp: active_sh_Some\<close>)




subsection \<open>Draining\<close>

lemma requests_walk_sub:
  "requests_walk want cap pool n rns = (took, oom) \<Longrightarrow>
   \<exists>rest. filter want rns = took @ rest \<and>
     (cap \<noteq> 0 \<longrightarrow> length took \<le> cap - n) \<and> (pool = [] \<longrightarrow> \<not> oom) \<and>
     (\<not> oom \<longrightarrow> rest = [] \<or> cap \<noteq> 0 \<and> length took = cap - n)"
proof (induction want cap pool n rns arbitrary: took oom rule: requests_walk.induct)
  case (1 want cap pool n)
  then show ?case by simp
next
  case (2 want cap pool n rn rns)
  obtain b1 p1 b2 p2 where al: "alloc_next pool = (b1, p1)" "alloc_next p1 = (b2, p2)" by force
  consider (cap) "cap \<noteq> 0 \<and> n \<ge> cap" | (skip) "\<not> (cap \<noteq> 0 \<and> n \<ge> cap)" "\<not> want rn"
    | (oom) "\<not> (cap \<noteq> 0 \<and> n \<ge> cap)" "want rn" "\<not> (b1 \<and> b2)"
    | (took) "\<not> (cap \<noteq> 0 \<and> n \<ge> cap)" "want rn" "b1" "b2" by blast
  then show ?case
  proof cases
    case cap
    with 2(3) show ?thesis by auto
  next
    case skip
    with 2(3) have "requests_walk want cap pool n rns = (took, oom)" by (auto split: if_splits)
    from 2(1) [OF skip(1) skip(2) this] skip(2) show ?thesis by simp
  next
    case oom
    with 2(3) al show ?thesis by (cases pool) (auto split: bool.splits)
  next
    case took
    obtain t' where t': "requests_walk want cap p2 (n + 1) rns = (t', oom)" "took = rn # t'"
      using 2(3) al took by (auto split: prod.splits)
    have "pool = [] \<Longrightarrow> p2 = []" using al by simp
    moreover have "\<exists>rest. filter want rns = t' @ rest \<and>
     (cap \<noteq> 0 \<longrightarrow> length t' \<le> cap - (n + 1)) \<and> (p2 = [] \<longrightarrow> \<not> oom) \<and>
     (\<not> oom \<longrightarrow> rest = [] \<or> cap \<noteq> 0 \<and> length t' = cap - (n + 1))"
      by (rule 2(2) [OF took(1) _ al(1) [symmetric] _ al(2) [symmetric] _ t'(1)]) (use took al in auto)
    ultimately show ?thesis using took t' by auto
  qed
qed

lemma requests_drain_effect:
  assumes "rbtree_ok rb" "requests_inv crc z" "active_sh z = Some sh"
    and "requests_drain rb now z pool cap = (rc, names, z')"
  shows "\<exists>took rest. names = map rn_host took \<and>
     filter (drain_eligible now) (inorder (rq_rbtree sh)) = took @ rest \<and>
     (rc = int (length names) \<or> rc = - 1 \<and> names = [] \<and> pool \<noteq> []) \<and>
     (cap \<noteq> 0 \<longrightarrow> length took \<le> cap) \<and>
     (pool = [] \<longrightarrow> rest = [] \<or> cap \<noteq> 0 \<and> length took = cap) \<and>
     requests_view z' = (\<lambda>h. map_option (\<lambda>rn. if rn \<in> set took
       then rn\<lparr>rn_state := REQ_PENDING, rn_last_attempt := now\<rparr> else rn) (requests_view z h))"
proof -
  obtain took oom where w: "requests_walk (drain_eligible now) cap pool 0 (inorder (rq_rbtree sh)) = (took, oom)"
    by force
  from requests_walk_sub [OF w] obtain rest where rest:
    "filter (drain_eligible now) (inorder (rq_rbtree sh)) = took @ rest"
    "cap \<noteq> 0 \<longrightarrow> length took \<le> cap" "pool = [] \<longrightarrow> \<not> oom"
    "\<not> oom \<longrightarrow> rest = [] \<or> cap \<noteq> 0 \<and> length took = cap" by auto
  have res: "rc = walk_rc (took, oom)" "names = map rn_host took"
    "z' = put_sh (sh\<lparr>rq_rbtree := map_tree (\<lambda>n. if n \<in> set took
      then n\<lparr>rn_state := REQ_PENDING, rn_last_attempt := now\<rparr> else n) (rq_rbtree sh)\<rparr>) z"
    using assms(3,4) w rbtree_okD(3) [OF assms(1)] by (auto simp: requests_drain_def Let_def)
  moreover have "requests_view z' = (\<lambda>h. map_option (\<lambda>rn. if rn \<in> set took
       then rn\<lparr>rn_state := REQ_PENDING, rn_last_attempt := now\<rparr> else rn) (requests_view z h))"
    unfolding res requests_view_active [OF assms(3)]
    by (auto simp: requests_view_def inorder_map fun_eq_iff intro!: find_name_map)
  ultimately show ?thesis
    using rest by (intro exI [of _ took] exI [of _ rest]) (auto simp: walk_rc_def)
qed

lemma drain_eligible_pending [simp]:
  "\<not> drain_eligible now (rn\<lparr>rn_state := REQ_PENDING, rn_last_attempt := t\<rparr>)"
  by (simp add: drain_eligible_def)

text \<open>
  Claim C10.  \<^const>\<open>requests_drain\<close> hands out work exactly once.  The names
  returned are pairwise distinct, each of them had a node that was REQUESTED, or FAILED
  with its backoff elapsed; each is now PENDING, stamped with the clock, and no longer
  eligible at any time; every other node is as before.  No more than the cap is handed
  out, and when no allocation fails nothing eligible is left behind unless the cap was
  reached.  A count of -1 means that nothing was claimed.
\<close>

theorem requests_drain_claims_once:
  assumes "rbtree_ok rb" "requests_inv crc z" "active_sh z = Some sh"
    and "requests_drain rb now z pool cap = (rc, names, z')"
  shows "distinct names \<and>
    (\<forall>h \<in> set names. \<exists>rn. requests_view z h = Some rn \<and> drain_eligible now rn \<and>
       requests_view z' h = Some (rn\<lparr>rn_state := REQ_PENDING, rn_last_attempt := now\<rparr>) \<and>
       (\<forall>later. \<not> drain_eligible later (the (requests_view z' h)))) \<and>
    (\<forall>h. h \<notin> set names \<longrightarrow> requests_view z' h = requests_view z h) \<and>
    (rc = int (length names) \<or> rc = - 1 \<and> names = []) \<and>
    (cap \<noteq> 0 \<longrightarrow> length names \<le> cap) \<and>
    (pool = [] \<longrightarrow> rc = int (length names) \<and> (cap = 0 \<or> length names < cap \<longrightarrow>
       (\<forall>h rn. requests_view z' h = Some rn \<longrightarrow> \<not> drain_eligible now rn)))"
proof -
  obtain took rest where t: "names = map rn_host took"
     "filter (drain_eligible now) (inorder (rq_rbtree sh)) = took @ rest"
     "rc = int (length names) \<or> rc = - 1 \<and> names = [] \<and> pool \<noteq> []"
     "cap \<noteq> 0 \<longrightarrow> length took \<le> cap" "pool = [] \<longrightarrow> rest = [] \<or> cap \<noteq> 0 \<and> length took = cap"
     "requests_view z' = (\<lambda>h. map_option (\<lambda>rn. if rn \<in> set took
       then rn\<lparr>rn_state := REQ_PENDING, rn_last_attempt := now\<rparr> else rn) (requests_view z h))"
    using requests_drain_effect [OF assms] by blast
  have wf: "index_wf rn_key crc (inorder (rq_rbtree sh))"
    using requests_inv_active [OF assms(2,3)] by (simp add: sh_inv_def)
  have view: "requests_view z h = Some rn \<longleftrightarrow> rn \<in> set (inorder (rq_rbtree sh)) \<and> rn_host rn = h" for h rn
    using find_name_Some_iff [OF wf] by (simp add: requests_view_active [OF assms(3)])
  have "set (took @ rest) = {rn \<in> set (inorder (rq_rbtree sh)). drain_eligible now rn}"
    unfolding t(2) [symmetric] by auto
  then have sub: "rn \<in> set took \<Longrightarrow> requests_view z (rn_host rn) = Some rn \<and> drain_eligible now rn"
    and all: "rest = [] \<Longrightarrow> requests_view z h = Some rn \<Longrightarrow> drain_eligible now rn \<Longrightarrow> rn \<in> set took" for rn h
    by (auto simp: view)
  have "distinct (took @ rest)"
    unfolding t(2) [symmetric] by (intro distinct_filter index_wf_distinct [OF wf])
  moreover have "inj_on rn_host (set took)"
    using sub by (intro inj_onI) (metis option.inject)
  ultimately have "distinct names" by (simp add: t(1) distinct_map)
  moreover have "requests_view z' h = requests_view z h" if "h \<notin> set names" for h
    using that t(1,6) requests_view_SomeD(1) [OF assms(2), of h] by (cases "requests_view z h") auto
  moreover have "\<not> drain_eligible now rn" if r: "rest = []" and v': "requests_view z' h = Some rn" for h rn
  proof -
    obtain rn0 where rn0: "requests_view z h = Some rn0"
      "rn = (if rn0 \<in> set took then rn0\<lparr>rn_state := REQ_PENDING, rn_last_attempt := now\<rparr> else rn0)"
      using v' t(6) by auto
    show ?thesis
      using all [OF r rn0(1)] drain_eligible_pending [where rn = rn0] unfolding rn0(2)
      by (cases "rn0 \<in> set took") auto
  qed
  moreover have "\<exists>rn. requests_view z h = Some rn \<and> drain_eligible now rn \<and>
       requests_view z' h = Some (rn\<lparr>rn_state := REQ_PENDING, rn_last_attempt := now\<rparr>)" if "h \<in> set names" for h
    using that sub t(1,6) by auto
  ultimately show ?thesis
    using t(1,3,4,5) by fastforce
qed

theorem requests_drain_claims_once_witness:
  "let z = requests_run plain_ops (\<lambda>_. 0) [Init_Owner, Ensure 5 (str ''a.com''), Ensure 6 (str ''b.com'')]
         (requests_fresh []);
       (rc, names, z') = requests_drain plain_ops 9 z [] 0 in
   rc = 2 \<and> names = [str ''a.com'', str ''b.com''] \<and> distinct names \<and>
   fst (requests_drain plain_ops 9 z' [] 0) = 0"
proof -
  define z where "z = requests_run plain_ops (\<lambda>_. 0)
    [Init_Owner, Ensure 5 (str ''a.com''), Ensure 6 (str ''b.com'')] (requests_fresh [])"
  obtain rc names z' where d: "requests_drain plain_ops 9 z [] 0 = (rc, names, z')" by (metis surj_pair)
  have inv: "requests_inv (\<lambda>_. 0) z"
    unfolding z_def by (intro requests_run_inv rbtree_ok_plain_ops requests_inv_fresh)
  have act: "active_sh z = Some (the (active_sh z))" unfolding z_def by code_simp
  have names: "fst (snd (requests_drain plain_ops 9 z [] 0)) = [str ''a.com'', str ''b.com'']"
    "fst (requests_drain plain_ops 9 (snd (snd (requests_drain plain_ops 9 z [] 0))) [] 0) = 0"
    unfolding z_def by code_simp+
  then show ?thesis
    using requests_drain_claims_once [OF rbtree_ok_plain_ops inv act d] d
    unfolding z_def [symmetric] by (simp add: Let_def)
qed


subsection \<open>Idle eviction\<close>

text \<open>
  Claim C11.  \<^const>\<open>requests_gc\<close> with a positive TTL.  Every name it
  reports was in the table, had not been seen for more than the TTL, and is gone; every
  other name is exactly as before; the count is the number of names.  When no allocation
  fails no idle name is left.  Idleness alone decides: a node in any state is evicted,
  PENDING ones included.
\<close>

theorem requests_gc_correct:
  assumes "rbtree_ok rb" "requests_inv crc z" "active_sh z = Some sh" "0 < ttl"
    and "requests_gc rb now z ttl pool = (rc, names, z')"
  shows "distinct names \<and> rc = int (length names) \<and>
    (\<forall>h \<in> set names. \<exists>rn. requests_view z h = Some rn \<and> ttl < now - rn_last_seen rn) \<and>
    (\<forall>h. requests_view z' h = (if h \<in> set names then None else requests_view z h)) \<and>
    (pool = [] \<longrightarrow> (\<forall>h rn. requests_view z' h = Some rn \<longrightarrow> now - rn_last_seen rn \<le> ttl))"
proof -
  obtain gone sh' where g: "set gone \<subseteq> set (inorder (rq_rbtree sh))" "distinct gone"
    "\<forall>rn \<in> set gone. gc_idle now ttl rn" "names = map rn_host gone" "rc = int (length names)"
    "pool = [] \<longrightarrow> (\<forall>rn \<in> set (inorder (rq_rbtree sh)). gc_idle now ttl rn \<longrightarrow> rn \<in> set gone)"
    "active_sh z' = Some sh'" "requests_inv crc z'"
    "inorder (rq_rbtree sh') = filter (\<lambda>n. n \<notin> set gone) (inorder (rq_rbtree sh))"
    using requests_gc_effect [OF assms] by blast
  have wf: "index_wf rn_key crc (inorder (rq_rbtree sh))" "index_wf rn_key crc (inorder (rq_rbtree sh'))"
    using requests_inv_active [OF assms(2,3)] requests_inv_active [OF g(8,7)] by (simp_all add: sh_inv_def)
  have view: "requests_view z h = Some rn \<longleftrightarrow> rn \<in> set (inorder (rq_rbtree sh)) \<and> rn_host rn = h"
    and view': "requests_view z' h = Some rn \<longleftrightarrow>
      rn \<in> set (inorder (rq_rbtree sh)) \<and> rn \<notin> set gone \<and> rn_host rn = h" for h rn
    using find_name_Some_iff [OF wf(1)] find_name_Some_iff [OF wf(2)] g(9)
    by (auto simp: requests_view_active [OF assms(3)] requests_view_active [OF g(7)])
  have inj: "a = b" if "a \<in> set (inorder (rq_rbtree sh))" "b \<in> set (inorder (rq_rbtree sh))"
      "rn_host a = rn_host b" for a b
    using that view by (metis option.inject)
  have "distinct names"
    using g(1,2,4) inj by (auto simp: distinct_map inj_on_def)
  moreover have "requests_view z' h = None" if "h \<in> set names" for h
    using that g(1,4) inj view' [of h] by (cases "requests_view z' h") auto
  moreover have "requests_view z' h = requests_view z h" if "h \<notin> set names" for h
  proof (cases "requests_view z h")
    case None
    with view [of h] view' [of h] show ?thesis by (cases "requests_view z' h") auto
  next
    case (Some rn)
    with view [of h rn] that g(4) have "requests_view z' h = Some rn" by (auto simp: view')
    with Some show ?thesis by simp
  qed
  moreover have "now - rn_last_seen rn \<le> ttl" if "pool = []" "requests_view z' h = Some rn" for h rn
    using that g(6) view' [of h rn] by (auto simp: gc_idle_def)
  moreover have "\<exists>rn. requests_view z h = Some rn \<and> ttl < now - rn_last_seen rn" if "h \<in> set names" for h
    using that g(1,3,4) view by (force simp: gc_idle_def not_le)
  ultimately show ?thesis using g(5) by simp
qed

theorem requests_gc_correct_witness:
  "let z = requests_run plain_ops (\<lambda>_. 0)
         [Init_Owner, Ensure 5 (str ''a.com''), Drain 5 [] 0, Ensure 90 (str ''b.com'')] (requests_fresh []);
       (rc, names, z') = requests_gc plain_ops 100 z 50 [] in
   map_option rn_state (requests_view z (str ''a.com'')) = Some REQ_PENDING \<and>
   names = [str ''a.com''] \<and> requests_view z' (str ''a.com'') = None \<and>
   requests_view z' (str ''b.com'') = requests_view z (str ''b.com'')"
proof -
  define z where "z = requests_run plain_ops (\<lambda>_. 0)
         [Init_Owner, Ensure 5 (str ''a.com''), Drain 5 [] 0, Ensure 90 (str ''b.com'')] (requests_fresh [])"
  obtain rc names z' where d: "requests_gc plain_ops 100 z 50 [] = (rc, names, z')" by (metis surj_pair)
  have inv: "requests_inv (\<lambda>_. 0) z"
    unfolding z_def by (intro requests_run_inv rbtree_ok_plain_ops requests_inv_fresh)
  have act: "active_sh z = Some (the (active_sh z))"
    "map_option rn_state (requests_view z (str ''a.com'')) = Some REQ_PENDING"
    unfolding z_def by code_simp+
  have "fst (snd (requests_gc plain_ops 100 z 50 [])) = [str ''a.com'']"
    unfolding z_def by code_simp
  then show ?thesis
    using requests_gc_correct [OF rbtree_ok_plain_ops inv act(1) _ d] act(2) d
    unfolding z_def [symmetric] by (simp add: Let_def)
qed

subsection \<open>Backoff\<close>

lemma backoff_loop_eq:
  "0 \<le> b \<Longrightarrow> b < REQ_BACKOFF_MAX \<Longrightarrow> backoff_loop n b = min REQ_BACKOFF_MAX (b * 2 ^ (n - 1))"
proof (induction n arbitrary: b)
  case 0
  then show ?case by (simp add: backoff_loop.simps)
next
  case (Suc n)
  show ?case
  proof (cases n)
    case 0
    with Suc.prems show ?thesis by (simp add: backoff_loop.simps)
  next
    case (Suc m)
    have "b * 1 \<le> b * 2 ^ m" using Suc.prems by (intro mult_left_mono) simp_all
    then have "b * 2 \<le> b * 2 * 2 ^ m" by simp
    moreover have "b * 2 ^ n = b * 2 * 2 ^ m" using Suc by simp
    ultimately show ?thesis
      using Suc Suc.IH [of "b * 2"] Suc.prems by (subst backoff_loop.simps) (auto simp: Let_def min_def)
  qed
qed

lemma requests_set_state_view:
  assumes "requests_inv crc z" "active_sh z = Some sh" "requests_normalize host = Some norm"
    "REQ_UNKNOWN < st" "st \<le> REQ_DENIED"
  shows "fst (requests_set_state crc now z host st ne) = NGX_OK \<and>
    requests_view (snd (requests_set_state crc now z host st ne)) =
      (case requests_view z norm of
         None \<Rightarrow> requests_view z
       | Some rn \<Rightarrow> (requests_view z)(norm \<mapsto> set_state_node now st ne rn))"
proof -
  have mapped: "rz_mapped z" and sh: "rz_sh z = Some sh" using assms(2) by (simp_all add: active_sh_Some)
  have wf: "index_wf rn_key crc (inorder (rq_rbtree sh))"
    using requests_inv_active [OF assms(1,2)] by (simp add: sh_inv_def)
  have look: "requests_lookup norm (crc norm) (rq_rbtree sh) = requests_view z norm"
    using requests_lookup_find [of crc sh norm] requests_inv_active [OF assms(1,2)]
    by (simp add: requests_view_active [OF assms(2)])
  show ?thesis
  proof (cases "requests_view z norm")
    case None
    with look mapped assms show ?thesis by (simp add: requests_set_state_def)
  next
    case (Some rn)
    with find_name_update [OF wf, of norm rn "set_state_node now st ne"] sh
    have "requests_view (put_sh (put_node rn (set_state_node now st ne) sh) z) =
        (requests_view z)(norm \<mapsto> set_state_node now st ne rn)"
      by (auto simp: requests_view_def put_node_def inorder_map fun_eq_iff)
    with Some look mapped assms show ?thesis by (simp add: requests_set_state_def)
  qed
qed




subsection \<open>Reloads\<close>

text \<open>
  A configuration reload never loses a request.  A zone that an owner
  stamped and that a consumer-only configuration then inherits stays as it is but for
  the stamp, which makes every operation inert: \<^const>\<open>requests_ensure\<close> and
  \<^const>\<open>requests_state\<close> answer UNKNOWN and the driver's calls fail.  When the
  owner comes back, the table is as it was when it left.
\<close>

theorem requests_reload_keeps_table:
  assumes "rz_mapped z" "rz_sh z = Some sh" "api_version sh = API_VERSION"
    "requests_normalize host = Some norm"
  defines "parked \<equiv> snd (requests_init_zone_consumer z)"
  shows "fst (requests_init_zone_consumer z) = NGX_OK \<and>
    requests_ensure rb crc now parked host = (REQ_UNKNOWN, parked) \<and>
    requests_state crc parked host = REQ_UNKNOWN \<and>
    requests_drain rb now parked pool cap = (- 1, [], parked) \<and>
    requests_set_state crc now parked host REQ_ISSUED 0 = (NGX_ERROR, parked) \<and>
    requests_init_zone parked = (NGX_OK, z)"
  using assms
  by (simp add: requests_init_zone_consumer_def requests_init_zone_def requests_init_body_def Let_def
      requests_ensure_def requests_state_def requests_drain_def requests_set_state_def active_sh_def)

theorem requests_reload_keeps_table_witness:
  "let z = requests_run plain_ops (\<lambda>_. 0) [Init_Owner, Ensure 5 (str ''a.com'')] (requests_fresh []);
       parked = snd (requests_init_zone_consumer z) in
   requests_state (\<lambda>_. 0) z (str ''a.com'') = REQ_REQUESTED \<and>
   requests_state (\<lambda>_. 0) parked (str ''a.com'') = REQ_UNKNOWN \<and>
   requests_init_zone parked = (NGX_OK, z)"
proof -
  define z where "z = requests_run plain_ops (\<lambda>_. 0) [Init_Owner, Ensure 5 (str ''a.com'')] (requests_fresh [])"
  have z: "rz_mapped z" "rz_sh z = Some (the (rz_sh z))" "api_version (the (rz_sh z)) = API_VERSION"
    "requests_normalize (str ''a.com'') = Some (str ''a.com'')"
    "requests_state (\<lambda>_. 0) z (str ''a.com'') = REQ_REQUESTED"
    unfolding z_def by code_simp+
  show ?thesis
    using requests_reload_keeps_table [OF z(1-4), where crc = "\<lambda>_. 0"] z(5)
    unfolding z_def [symmetric] by (simp add: Let_def)
qed

end
