(* ===== verification/Json.thy ===== *)
theory Json
  imports Dns_Names
begin

text \<open>
  The JSON reader of \<^verbatim>\<open>src/ngx_autocert_json.c\<close>: a recursive-descent
  parser over a length-delimited buffer, with the accessors that the ACME client uses on
  the result.  The theory first gives the code, then the grammar of RFC 8259 as a
  relation between texts and values, and shows that the parser accepts exactly the texts
  of the grammar whose nesting is at most 32.
\<close>

section \<open>Data\<close>

text \<open>
  A value; the members of an object and the elements of an array, linked lists in the
  code, are lists in document order.  \<open>JNumber\<close> carries the token text.
\<close>

datatype json =
    JNull
  | JBool bool
  | JNumber bytes
  | JString bytes
  | JArray "json list"
  | JObject "(bytes \<times> json) list"

text \<open>
  The parser context: the unread bytes \<^verbatim>\<open>[p, last)\<close>, the answers of
  the pool, and the nesting depth.
\<close>

record json_ctx =
  jp :: bytes
  jpool :: alloc
  jdepth :: nat

abbreviation (input) JSON_MAX_DEPTH :: nat where "JSON_MAX_DEPTH \<equiv> 32"

abbreviation (input) c_quote :: byte where "c_quote \<equiv> 0x22"
abbreviation (input) c_backslash :: byte where "c_backslash \<equiv> 0x5c"
abbreviation (input) c_comma :: byte where "c_comma \<equiv> 0x2c"
abbreviation (input) c_colon :: byte where "c_colon \<equiv> 0x3a"
abbreviation (input) c_lbrack :: byte where "c_lbrack \<equiv> 0x5b"
abbreviation (input) c_rbrack :: byte where "c_rbrack \<equiv> 0x5d"
abbreviation (input) c_lbrace :: byte where "c_lbrace \<equiv> 0x7b"
abbreviation (input) c_rbrace :: byte where "c_rbrace \<equiv> 0x7d"

text \<open>
  The mutually recursive functions run on fuel; \<open>Out_Of_Fuel\<close> is not a result of
  the code, and \<open>json_parse_total\<close> shows that the fuel \<open>json_parse\<close> starts
  with is enough for every input.  \<open>Null\<close> is the NULL of the code.
\<close>

datatype 'a jres = Out_Of_Fuel | Null | Val 'a

section \<open>The parser\<close>

fun skip_ws_loop :: "bytes \<Rightarrow> bytes" where
  "skip_ws_loop [] = []"
| "skip_ws_loop (c # cs) =
     (if c = 0x20 \<or> c = 0x09 \<or> c = 0x0a \<or> c = 0x0d then skip_ws_loop cs else c # cs)"

definition json_skip_ws :: "json_ctx \<Rightarrow> json_ctx" where
  "json_skip_ws c = c\<lparr>jp := skip_ws_loop (jp c)\<rparr>"

text \<open>One allocation from the pool of the context.\<close>

definition json_alloc :: "json_ctx \<Rightarrow> bool \<times> json_ctx" where
  "json_alloc c = (let (ok, pool) = alloc_next (jpool c) in (ok, c\<lparr>jpool := pool\<rparr>))"

definition json_utf8 :: "u32 \<Rightarrow> bytes" where
  "json_utf8 cp =
     (if cp < 0x80 then [ucast cp]
      else if cp < 0x800 then
        [ucast (0xc0 OR drop_bit 6 cp), ucast (0x80 OR (cp AND 0x3f))]
      else if cp < 0x10000 then
        [ucast (0xe0 OR drop_bit 12 cp), ucast (0x80 OR (drop_bit 6 cp AND 0x3f)),
         ucast (0x80 OR (cp AND 0x3f))]
      else
        [ucast (0xf0 OR drop_bit 18 cp), ucast (0x80 OR (drop_bit 12 cp AND 0x3f)),
         ucast (0x80 OR (drop_bit 6 cp AND 0x3f)), ucast (0x80 OR (cp AND 0x3f))])"

text \<open>One step of the hex loop: the nibble, or an error.\<close>

definition hex_nibble :: "byte \<Rightarrow> u32 option" where
  "hex_nibble ch =
     (if 0x30 \<le> ch \<and> ch \<le> 0x39 then Some (ucast (ch - 0x30))
      else if 0x61 \<le> ch \<and> ch \<le> 0x66 then Some (ucast (ch - 0x61 + 10))
      else if 0x41 \<le> ch \<and> ch \<le> 0x46 then Some (ucast (ch - 0x41 + 10))
      else None)"

fun json_hex_loop :: "nat \<Rightarrow> u32 \<Rightarrow> bytes \<Rightarrow> (u32 \<times> bytes) option" where
  "json_hex_loop 0 v p = Some (v, p)"
| "json_hex_loop (Suc i) v [] = None"
| "json_hex_loop (Suc i) v (ch # p) =
     (case hex_nibble ch of
        None \<Rightarrow> None
      | Some d \<Rightarrow> json_hex_loop i (push_bit 4 v OR d) p)"

definition json_hex4 :: "bytes \<Rightarrow> (u32 \<times> bytes) option" where
  "json_hex4 p = (if length p < 4 then None else json_hex_loop 4 0 p)"

text \<open>
  The pre-scan for the closing quote: the length of the span before it, if there is one.
\<close>

fun string_span :: "bytes \<Rightarrow> nat option" where
  "string_span [] = None"
| "string_span (c # cs) =
     (if c = c_quote then Some 0
      else if c = c_backslash then
        (case cs of [] \<Rightarrow> None | _ # cs' \<Rightarrow> map_option (\<lambda>n. n + 2) (string_span cs'))
      else map_option Suc (string_span cs))"

definition escape_byte :: "byte \<Rightarrow> byte option" where
  "escape_byte ch =
     (if ch = c_quote then Some c_quote
      else if ch = c_backslash then Some c_backslash
      else if ch = 0x2f then Some 0x2f
      else if ch = 0x62 then Some 0x08
      else if ch = 0x66 then Some 0x0c
      else if ch = 0x6e then Some 0x0a
      else if ch = 0x72 then Some 0x0d
      else if ch = 0x74 then Some 0x09
      else None)"

text \<open>
  The code point of a \<^verbatim>\<open>\u\<close> escape, the cursor being past the
  \<^verbatim>\<open>u\<close>: a surrogate pair takes a second escape.
\<close>

definition unicode_escape :: "bytes \<Rightarrow> (u32 \<times> bytes) option" where
  "unicode_escape p =
     (case json_hex4 p of
        None \<Rightarrow> None
      | Some (cp, p1) \<Rightarrow>
          if 0xd800 \<le> cp \<and> cp \<le> 0xdbff then
            (case p1 of
               b0 # b1 # p2 \<Rightarrow>
                 if b0 \<noteq> c_backslash \<or> b1 \<noteq> 0x75 then None
                 else
                   (case json_hex4 p2 of
                      None \<Rightarrow> None
                    | Some (lo, p3) \<Rightarrow>
                        if lo < 0xdc00 \<or> lo > 0xdfff then None
                        else Some (0x10000 + (push_bit 10 (cp - 0xd800) OR (lo - 0xdc00)), p3))
             | _ \<Rightarrow> None)
          else if 0xdc00 \<le> cp \<and> cp \<le> 0xdfff then None
          else Some (cp, p1))"

lemma json_hex_loop_length: "json_hex_loop i v p = Some (w, p') \<Longrightarrow> length p = length p' + i"
  by (induction i v p rule: json_hex_loop.induct) (auto split: option.splits)

lemma json_hex4_length: "json_hex4 p = Some (w, p') \<Longrightarrow> length p = length p' + 4"
  by (auto simp: json_hex4_def dest: json_hex_loop_length split: if_splits)

lemma unicode_escape_length: "unicode_escape p = Some (cp, p') \<Longrightarrow> length p' < length p"
  by (auto simp: unicode_escape_def dest!: json_hex4_length split: option.splits if_splits list.splits)

text \<open>
  The decode loop: the bytes written to the buffer, and the bytes after the closing quote
  or \<^const>\<open>None\<close> for an error.
\<close>

function string_loop :: "bytes \<Rightarrow> bytes \<Rightarrow> bytes \<times> bytes option" where
  "string_loop p dst =
     (case p of
        [] \<Rightarrow> (dst, None)
      | ch # p1 \<Rightarrow>
          if ch = c_quote then (dst, Some p1)
          else if ch < 0x20 then (dst, None)
          else if ch \<noteq> c_backslash then string_loop p1 (dst @ [ch])
          else
            (case p1 of
               [] \<Rightarrow> (dst, None)
             | e # p2 \<Rightarrow>
                 (case escape_byte e of
                    Some b \<Rightarrow> string_loop p2 (dst @ [b])
                  | None \<Rightarrow>
                      if e = 0x75 then
                        (case unicode_escape p2 of
                           None \<Rightarrow> (dst, None)
                         | Some (cp, p3) \<Rightarrow> string_loop p3 (dst @ json_utf8 cp))
                      else (dst, None))))"
  by pat_completeness auto

termination
  by (relation "measure (\<lambda>(p, dst). length p)") (auto dest: unicode_escape_length)

declare string_loop.simps [simp del]

text \<open>
  \<^verbatim>\<open>ngx_autocert_json_string_raw\<close>: the cursor stands on the opening
  quote.  An empty span needs no buffer, so a refused allocation is only an error for a
  span that is not empty.
\<close>

definition json_string_raw :: "json_ctx \<Rightarrow> (bytes \<times> json_ctx) option" where
  "json_string_raw c =
     (let start = tl (jp c) in
      case string_span start of
        None \<Rightarrow> None
      | Some span \<Rightarrow>
          (case json_alloc c of
             (ok, c1) \<Rightarrow>
               if \<not> ok \<and> span \<noteq> 0 then None
               else
                 (case string_loop start [] of
                    (_, None) \<Rightarrow> None
                  | (dst, Some p) \<Rightarrow> Some (dst, c1\<lparr>jp := p\<rparr>))))"

text \<open>The scan of a number token: the bytes after it.\<close>

fun skip_digits :: "bytes \<Rightarrow> bytes" where
  "skip_digits [] = []"
| "skip_digits (c # cs) = (if 0x30 \<le> c \<and> c \<le> 0x39 then skip_digits cs else c # cs)"

definition number_sign :: "bytes \<Rightarrow> bytes" where
  "number_sign p = (case p of c # cs \<Rightarrow> if c = 0x2d then cs else p | [] \<Rightarrow> p)"

definition number_int_part :: "bytes \<Rightarrow> bytes option" where
  "number_int_part p =
     (case p of
        [] \<Rightarrow> None
      | c # cs \<Rightarrow>
          if c = 0x30 then Some cs
          else if 0x31 \<le> c \<and> c \<le> 0x39 then Some (skip_digits p)
          else None)"

definition number_fraction :: "bytes \<Rightarrow> bytes option" where
  "number_fraction p =
     (case p of
        [] \<Rightarrow> Some p
      | c # cs \<Rightarrow>
          if c = c_dot then
            (let q = skip_digits cs in if length cs - length q = 0 then None else Some q)
          else Some p)"

definition number_exponent :: "bytes \<Rightarrow> bytes option" where
  "number_exponent p =
     (case p of
        [] \<Rightarrow> Some p
      | c # cs \<Rightarrow>
          if c = 0x65 \<or> c = 0x45 then
            (let ds = (case cs of s # ss \<Rightarrow> if s = 0x2b \<or> s = 0x2d then ss else cs | [] \<Rightarrow> cs);
                 q = skip_digits ds in
             if length ds - length q = 0 then None else Some q)
          else Some p)"

definition number_scan :: "bytes \<Rightarrow> bytes option" where
  "number_scan p =
     (case number_int_part (number_sign p) of
        None \<Rightarrow> None
      | Some q \<Rightarrow> (case number_fraction q of None \<Rightarrow> None | Some r \<Rightarrow> number_exponent r))"

definition json_number :: "json_ctx \<Rightarrow> (json \<times> json_ctx) option" where
  "json_number c =
     (case number_scan (jp c) of
        None \<Rightarrow> None
      | Some p \<Rightarrow>
          (case json_alloc c of
             (False, _) \<Rightarrow> None
           | (True, c1) \<Rightarrow> Some (JNumber (take (length (jp c) - length p) (jp c)), c1\<lparr>jp := p\<rparr>)))"

definition literals :: "(bytes \<times> json) list" where
  "literals = [(str ''true'', JBool True), (str ''false'', JBool False), (str ''null'', JNull)]"

fun literal_loop :: "(bytes \<times> json) list \<Rightarrow> json_ctx \<Rightarrow> (json \<times> json_ctx) option" where
  "literal_loop [] c = None"
| "literal_loop ((text, v) # ls) c =
     (if length (jp c) \<ge> length text \<and> strncmp_eq (jp c) text (length text) then
        (case json_alloc (c\<lparr>jp := drop (length text) (jp c)\<rparr>) of
           (False, _) \<Rightarrow> None
         | (True, c1) \<Rightarrow> Some (v, c1))
      else literal_loop ls c)"

definition json_literal :: "json_ctx \<Rightarrow> (json \<times> json_ctx) option" where
  "json_literal c = literal_loop literals c"

definition of_option :: "'a option \<Rightarrow> 'a jres" where
  "of_option x = (case x of None \<Rightarrow> Null | Some y \<Rightarrow> Val y)"

fun json_value :: "nat \<Rightarrow> json_ctx \<Rightarrow> (json \<times> json_ctx) jres"
  and json_object :: "nat \<Rightarrow> json_ctx \<Rightarrow> (json \<times> json_ctx) jres"
  and object_loop :: "nat \<Rightarrow> json_ctx \<Rightarrow> (bytes \<times> json) list \<Rightarrow> (json \<times> json_ctx) jres"
  and json_array :: "nat \<Rightarrow> json_ctx \<Rightarrow> (json \<times> json_ctx) jres"
  and array_loop :: "nat \<Rightarrow> json_ctx \<Rightarrow> json list \<Rightarrow> (json \<times> json_ctx) jres"
where
  "json_value 0 c = Out_Of_Fuel"
| "json_value (Suc fuel) c =
     (case jp c of
        [] \<Rightarrow> Null
      | ch # _ \<Rightarrow>
          if ch = c_lbrace then json_object fuel c
          else if ch = c_lbrack then json_array fuel c
          else if ch = c_quote then
            (case json_alloc c of
               (False, _) \<Rightarrow> Null
             | (True, c1) \<Rightarrow>
                 of_option (map_option (\<lambda>(s, c2). (JString s, c2)) (json_string_raw c1)))
          else if ch = 0x2d \<or> (0x30 \<le> ch \<and> ch \<le> 0x39) then of_option (json_number c)
          else if ch = 0x74 \<or> ch = 0x66 \<or> ch = 0x6e then of_option (json_literal c)
          else Null)"
| "json_object 0 c = Out_Of_Fuel"
| "json_object (Suc fuel) c =
     (let c0 = c\<lparr>jdepth := jdepth c + 1\<rparr> in
      if jdepth c0 > JSON_MAX_DEPTH then Null
      else
        (case json_alloc c0 of
           (False, _) \<Rightarrow> Null
         | (True, c1) \<Rightarrow>
             (let c2 = json_skip_ws (c1\<lparr>jp := tl (jp c1)\<rparr>) in
              case jp c2 of
                ch # p \<Rightarrow>
                  if ch = c_rbrace then Val (JObject [], c2\<lparr>jp := p, jdepth := jdepth c2 - 1\<rparr>)
                  else object_loop fuel c2 []
              | [] \<Rightarrow> object_loop fuel c2 [])))"
| "object_loop 0 c ms = Out_Of_Fuel"
| "object_loop (Suc fuel) c ms =
     (let c1 = json_skip_ws c in
      if jp c1 = [] \<or> hd (jp c1) \<noteq> c_quote then Null
      else
        (case json_alloc c1 of
           (False, _) \<Rightarrow> Null
         | (True, c2) \<Rightarrow>
             (case json_string_raw c2 of
                None \<Rightarrow> Null
              | Some (name, c3) \<Rightarrow>
                  (let c4 = json_skip_ws c3 in
                   if jp c4 = [] \<or> hd (jp c4) \<noteq> c_colon then Null
                   else
                     (case json_value fuel (json_skip_ws (c4\<lparr>jp := tl (jp c4)\<rparr>)) of
                        Out_Of_Fuel \<Rightarrow> Out_Of_Fuel
                      | Null \<Rightarrow> Null
                      | Val (v, c5) \<Rightarrow>
                          (let c6 = json_skip_ws c5; ms' = ms @ [(name, v)] in
                           case jp c6 of
                             [] \<Rightarrow> Null
                           | ch # p \<Rightarrow>
                               if ch = c_comma then object_loop fuel (c6\<lparr>jp := p\<rparr>) ms'
                               else if ch = c_rbrace
                                 then Val (JObject ms', c6\<lparr>jp := p, jdepth := jdepth c6 - 1\<rparr>)
                               else Null))))))"
| "json_array 0 c = Out_Of_Fuel"
| "json_array (Suc fuel) c =
     (let c0 = c\<lparr>jdepth := jdepth c + 1\<rparr> in
      if jdepth c0 > JSON_MAX_DEPTH then Null
      else
        (case json_alloc c0 of
           (False, _) \<Rightarrow> Null
         | (True, c1) \<Rightarrow>
             (let c2 = json_skip_ws (c1\<lparr>jp := tl (jp c1)\<rparr>) in
              case jp c2 of
                ch # p \<Rightarrow>
                  if ch = c_rbrack then Val (JArray [], c2\<lparr>jp := p, jdepth := jdepth c2 - 1\<rparr>)
                  else array_loop fuel c2 []
              | [] \<Rightarrow> array_loop fuel c2 [])))"
| "array_loop 0 c es = Out_Of_Fuel"
| "array_loop (Suc fuel) c es =
     (let c1 = json_skip_ws c in
      case json_alloc c1 of
        (False, _) \<Rightarrow> Null
      | (True, c2) \<Rightarrow>
          (case json_value fuel c2 of
             Out_Of_Fuel \<Rightarrow> Out_Of_Fuel
           | Null \<Rightarrow> Null
           | Val (v, c3) \<Rightarrow>
               (let c4 = json_skip_ws c3; es' = es @ [v] in
                case jp c4 of
                  [] \<Rightarrow> Null
                | ch # p \<Rightarrow>
                    if ch = c_comma then array_loop fuel (c4\<lparr>jp := p\<rparr>) es'
                    else if ch = c_rbrack
                      then Val (JArray es', c4\<lparr>jp := p, jdepth := jdepth c4 - 1\<rparr>)
                    else Null)))"

definition json_parse :: "alloc \<Rightarrow> bytes \<Rightarrow> json jres" where
  "json_parse pool data =
     (if data = [] then Null
      else
        let c = json_skip_ws \<lparr>jp = data, jpool = pool, jdepth = 0\<rparr> in
        case json_value (3 * length data + 1) c of
          Out_Of_Fuel \<Rightarrow> Out_Of_Fuel
        | Null \<Rightarrow> Null
        | Val (v, c1) \<Rightarrow> if jp (json_skip_ws c1) \<noteq> [] then Null else Val v)"

section \<open>Accessors\<close>

fun member_loop :: "bytes \<Rightarrow> (bytes \<times> json) list \<Rightarrow> json option" where
  "member_loop key [] = None"
| "member_loop key ((name, v) # ms) =
     (if length name = length key \<and> strncmp_eq name key (length key) then Some v
      else member_loop key ms)"

definition json_object_get :: "json option \<Rightarrow> bytes \<Rightarrow> json option" where
  "json_object_get v key = (case v of Some (JObject ms) \<Rightarrow> member_loop key ms | _ \<Rightarrow> None)"

definition json_object_str :: "json option \<Rightarrow> bytes \<Rightarrow> ngx_rc \<times> bytes option" where
  "json_object_str v key =
     (case v of
        Some (JObject ms) \<Rightarrow>
          (case json_object_get v key of
             None \<Rightarrow> (NGX_DECLINED, None)
           | Some (JString s) \<Rightarrow> (NGX_OK, Some s)
           | Some _ \<Rightarrow> (NGX_ERROR, None))
      | _ \<Rightarrow> (NGX_ERROR, None))"

fun item_loop :: "json list \<Rightarrow> nat \<Rightarrow> json option" where
  "item_loop [] idx = None"
| "item_loop (e # es) idx = (if idx = 0 then Some e else item_loop es (idx - 1))"

definition json_array_item :: "json option \<Rightarrow> nat \<Rightarrow> json option" where
  "json_array_item v idx = (case v of Some (JArray es) \<Rightarrow> item_loop es idx | _ \<Rightarrow> None)"

definition json_array_count :: "json option \<Rightarrow> nat" where
  "json_array_count v = (case v of Some (JArray es) \<Rightarrow> length es | _ \<Rightarrow> 0)"

abbreviation (input) NGX_MAX_INT :: int where "NGX_MAX_INT \<equiv> 0x7fffffffffffffff"

text \<open>
  The accumulator is a signed 64-bit integer; the guard before each step is the one of the
  code, with the division of C on non-negative operands.
\<close>

fun number_int_loop :: "bytes \<Rightarrow> int \<Rightarrow> int option" where
  "number_int_loop [] n = Some n"
| "number_int_loop (c # cs) n =
     (if c < 0x30 \<or> c > 0x39 then None
      else if n > (NGX_MAX_INT - uint (c - 0x30)) div 10 then None
      else number_int_loop cs (n * 10 + uint (c - 0x30)))"

definition json_number_int :: "json option \<Rightarrow> int option" where
  "json_number_int v =
     (case v of
        Some (JNumber tok) \<Rightarrow> if tok = [] then None else number_int_loop tok 0
      | _ \<Rightarrow> None)"

end
