(* ===== verification/Json_Grammar.thy ===== *)
theory Json_Grammar
  imports Json
begin

text \<open>
  The grammar of RFC 8259 as relations between texts and values, and the theorems that
  tie the parser of \<^verbatim>\<open>src/ngx_autocert_json.c\<close> to it: strings first
  (with the bound on the decode buffer), then numbers, then values; at the end the
  equivalence of parser and grammar, the round trip through a printer, and the accessors.
\<close>

section \<open>Strings\<close>

definition hex_val :: "byte \<Rightarrow> nat option" where
  "hex_val ch =
     (if is_digit ch then Some (unat ch - 0x30)
      else if 0x61 \<le> ch \<and> ch \<le> 0x66 then Some (unat ch - 0x61 + 10)
      else if 0x41 \<le> ch \<and> ch \<le> 0x46 then Some (unat ch - 0x41 + 10)
      else None)"

text \<open>Four hex digits and their value.\<close>

definition hex4_val :: "bytes \<Rightarrow> nat option" where
  "hex4_val ds =
     (case map hex_val ds of
        [Some a, Some b, Some c, Some d] \<Rightarrow> Some (((a * 16 + b) * 16 + c) * 16 + d)
      | _ \<Rightarrow> None)"

text \<open>UTF-8 (RFC 3629) by division.\<close>

definition utf8_enc :: "nat \<Rightarrow> bytes" where
  "utf8_enc n =
     (if n < 0x80 then [word_of_nat n]
      else if n < 0x800 then [word_of_nat (0xc0 + n div 64), word_of_nat (0x80 + n mod 64)]
      else if n < 0x10000 then
        [word_of_nat (0xe0 + n div 4096), word_of_nat (0x80 + n div 64 mod 64),
         word_of_nat (0x80 + n mod 64)]
      else
        [word_of_nat (0xf0 + n div 262144), word_of_nat (0x80 + n div 4096 mod 64),
         word_of_nat (0x80 + n div 64 mod 64), word_of_nat (0x80 + n mod 64)])"

definition high_surrogate :: "nat \<Rightarrow> bool" where
  "high_surrogate n \<longleftrightarrow> 0xd800 \<le> n \<and> n \<le> 0xdbff"

definition low_surrogate :: "nat \<Rightarrow> bool" where
  "low_surrogate n \<longleftrightarrow> 0xdc00 \<le> n \<and> n \<le> 0xdfff"

text \<open>The text between the quotes and the bytes it stands for.\<close>

inductive str_body :: "bytes \<Rightarrow> bytes \<Rightarrow> bool" where
  empty: "str_body [] []"
| plain: "\<lbrakk> 0x20 \<le> c; c \<noteq> c_quote; c \<noteq> c_backslash; str_body r s \<rbrakk> \<Longrightarrow> str_body (c # r) (c # s)"
| escape: "\<lbrakk> escape_byte e = Some b; str_body r s \<rbrakk> \<Longrightarrow> str_body (c_backslash # e # r) (b # s)"
| unicode: "\<lbrakk> hex4_val ds = Some n; \<not> high_surrogate n; \<not> low_surrogate n; str_body r s \<rbrakk>
    \<Longrightarrow> str_body (c_backslash # 0x75 # ds @ r) (utf8_enc n @ s)"
| pair: "\<lbrakk> hex4_val ds = Some hi; high_surrogate hi; hex4_val es = Some lo; low_surrogate lo; str_body r s \<rbrakk>
    \<Longrightarrow> str_body (c_backslash # 0x75 # ds @ c_backslash # 0x75 # es @ r)
          (utf8_enc (0x10000 + (hi - 0xd800) * 1024 + (lo - 0xdc00)) @ s)"

subsection \<open>The word operations of the decoder\<close>

lemma unat_drop_bit_div: "unat (drop_bit n w) = unat w div 2 ^ n"
  by (simp only: unat_drop_bit_eq) (simp only: drop_bit_eq_div)

lemma ucast_or_field:
  fixes a x :: u32
  assumes "unat a = m * 2 ^ k" "unat x = n" "n < 2 ^ k"
  shows "(ucast (a OR x) :: byte) = word_of_nat (m * 2 ^ k + n)"
proof -
  have "unat (a OR x) = m * 2 ^ k + n"
    using assms or_nat_add [of "unat x" k m] by (simp add: unsigned_or_eq)
  then have "(word_of_nat (unat (a OR x)) :: byte) = word_of_nat (m * 2 ^ k + n)" by simp
  then show ?thesis by simp
qed

lemma utf8_trail: "(ucast (0x80 OR (x AND 0x3f)) :: byte) = word_of_nat (0x80 + unat (x :: u32) mod 64)"
proof -
  have "unat (x AND 0x3f) = unat x mod 64" by (simp add: unsigned_and_eq and_63_mod)
  then show ?thesis using ucast_or_field [of "0x80" 2 6 "x AND 0x3f"] by simp
qed

lemma utf8_lead:
  "unat cp < 0x800 \<Longrightarrow> (ucast (0xc0 OR drop_bit 6 cp) :: byte) = word_of_nat (0xc0 + unat (cp :: u32) div 64)"
  "unat cp < 0x10000 \<Longrightarrow> (ucast (0xe0 OR drop_bit 12 cp) :: byte) = word_of_nat (0xe0 + unat cp div 4096)"
  "unat cp < 0x110000 \<Longrightarrow> (ucast (0xf0 OR drop_bit 18 cp) :: byte) = word_of_nat (0xf0 + unat cp div 262144)"
  using ucast_or_field [of "0xc0" 6 5 _ "unat cp div 64", OF _ unat_drop_bit_div [of 6 cp, simplified]]
    ucast_or_field [of "0xe0" 14 4 _ "unat cp div 4096", OF _ unat_drop_bit_div [of 12 cp, simplified]]
    ucast_or_field [of "0xf0" 30 3 _ "unat cp div 262144", OF _ unat_drop_bit_div [of 18 cp, simplified]]
  by (simp_all add: less_mult_imp_div_less)

lemma json_utf8_eq: "unat cp < 0x110000 \<Longrightarrow> json_utf8 cp = utf8_enc (unat cp)"
  by (simp only: json_utf8_def utf8_enc_def utf8_trail unat_drop_bit_div word_less_nat_alt)
    (use utf8_lead [of cp] in simp)

lemma hex_val_unat:
  "hex_val ch = Some d \<Longrightarrow> hex_nibble ch = Some (word_of_nat d) \<and> d < 16"
proof -
  have sub: "(ucast (ch - a + b) :: u32) = word_of_nat (unat ch - unat a + unat b)"
    if "a \<le> ch" "unat ch - unat a + unat b < 256" for a b
  proof -
    have "unat (ch - a + b) = unat ch - unat a + unat b"
      using that by (simp add: unat_word_ariths unat_sub)
    then have "(word_of_nat (unat (ch - a + b)) :: u32) = word_of_nat (unat ch - unat a + unat b)" by simp
    then show ?thesis by simp
  qed
  assume "hex_val ch = Some d"
  then consider "0x30 \<le> ch" "ch \<le> 0x39" "d = unat ch - 0x30"
    | "0x61 \<le> ch" "ch \<le> 0x66" "d = unat ch - 0x61 + 10" | "0x41 \<le> ch" "ch \<le> 0x46" "d = unat ch - 0x41 + 10"
    by (auto simp: hex_val_def is_digit_def split: if_splits)
  then show ?thesis
    using sub [of "0x30" 0] sub [of "0x61" 10] sub [of "0x41" 10]
    by cases (auto simp: hex_nibble_def word_le_nat_alt)
qed

lemma hex_val_None: "hex_val ch = None \<Longrightarrow> hex_nibble ch = None"
  by (auto simp: hex_val_def hex_nibble_def is_digit_def split: if_splits)

lemma hex_val_not [simp]: "hex_val c_quote = None" "hex_val c_backslash = None"
  by (simp_all add: hex_val_def is_digit_def)

lemma push_nibble:
  assumes "n < 2 ^ 28" "d < 16"
  shows "push_bit 4 (word_of_nat n :: u32) OR word_of_nat d = word_of_nat (n * 16 + d)"
proof (rule word_eq_iff_unsigned [where ?'a = nat, THEN iffD2])
  have "(push_bit 4 (word_of_nat n) :: u32) = word_of_nat (n * 16)"
    by (simp add: push_bit_eq_mult mult.commute)
  moreover have "unat (word_of_nat (n * 16) :: u32) = n * 16" "unat (word_of_nat d :: u32) = d"
    "unat (word_of_nat (n * 16 + d) :: u32) = n * 16 + d"
    using assms by (simp_all only: unat_of_nat) simp_all
  ultimately show "unat (push_bit 4 (word_of_nat n :: u32) OR word_of_nat d) = unat (word_of_nat (n * 16 + d) :: u32)"
    using or_nat_add [of d 4 n] assms(2) by (simp only: unsigned_or_eq) simp
qed

lemma json_hex4_eq:
  "json_hex4 p = (if length p < 4 then None
     else map_option (\<lambda>n. (word_of_nat n, drop 4 p)) (hex4_val (take 4 p)))"
proof (cases "length p < 4")
  case False
  then obtain a b c d r where p: "p = a # b # c # d # r"
    by (auto simp: not_less numeral_eq_Suc Suc_le_length_iff)
  show ?thesis
  proof (cases "\<exists>w x y z. map hex_val [a, b, c, d] = [Some w, Some x, Some y, Some z]")
    case True
    then obtain w x y z where v: "hex_val a = Some w" "hex_val b = Some x" "hex_val c = Some y" "hex_val d = Some z"
      by auto
    note v' = v [THEN hex_val_unat]
    have "push_bit 4 (0 :: u32) OR word_of_nat w = word_of_nat w"
      "push_bit 4 (word_of_nat w :: u32) OR word_of_nat x = word_of_nat (w * 16 + x)"
      "push_bit 4 (word_of_nat (w * 16 + x) :: u32) OR word_of_nat y = word_of_nat ((w * 16 + x) * 16 + y)"
      "push_bit 4 (word_of_nat ((w * 16 + x) * 16 + y) :: u32) OR word_of_nat z =
         word_of_nat (((w * 16 + x) * 16 + y) * 16 + z)"
      using v' push_nibble [of 0 w] push_nibble [of w x] push_nibble [of "w * 16 + x" y]
        push_nibble [of "(w * 16 + x) * 16 + y" z] by simp_all
    then show ?thesis
      using v v' by (simp add: p json_hex4_def hex4_val_def numeral_eq_Suc del: of_nat_mult of_nat_add of_nat_Suc)
  next
    case False
    then have "hex4_val [a, b, c, d] = None"
      by (auto simp: hex4_val_def split: option.splits)
    moreover have "json_hex4 p = None"
      using False hex_val_None by (auto simp: p json_hex4_def numeral_eq_Suc split: option.splits)
    ultimately show ?thesis by (simp add: p numeral_eq_Suc)
  qed
qed (simp add: json_hex4_def)

lemma hex4_valD:
  assumes "hex4_val ds = Some n"
  shows "length ds = 4" "n < 65536" "c_quote \<notin> set ds" "c_backslash \<notin> set ds"
proof -
  obtain a b c d w x y z where ds: "ds = [a, b, c, d]" "hex_val a = Some w" "hex_val b = Some x"
    "hex_val c = Some y" "hex_val d = Some z" "n = ((w * 16 + x) * 16 + y) * 16 + z"
    using assms by (auto simp: hex4_val_def map_eq_Cons_conv split: list.splits option.splits)
  then have "w < 16" "x < 16" "y < 16" "z < 16" by (auto dest: hex_val_unat)
  with ds show "length ds = 4" "n < 65536" "c_quote \<notin> set ds" "c_backslash \<notin> set ds" by auto
qed

lemma json_hex4_append: "hex4_val ds = Some n \<Longrightarrow> json_hex4 (ds @ r) = Some (word_of_nat n, r)"
  using hex4_valD [of ds n] by (simp add: json_hex4_eq)

lemma json_hex4_SomeD:
  assumes "json_hex4 p = Some (cp, r)"
  obtains ds n where "p = ds @ r" "hex4_val ds = Some n" "cp = word_of_nat n" "n < 65536"
    "unat cp = n"
proof -
  from assms obtain n where n: "hex4_val (take 4 p) = Some n" "cp = word_of_nat n" "r = drop 4 p"
    by (auto simp: json_hex4_eq split: if_splits)
  moreover have "unat (word_of_nat n :: u32) = n"
    using hex4_valD(2) [OF n(1)] by (simp only: unat_of_nat) simp
  ultimately show ?thesis using that [of "take 4 p" n] hex4_valD(2) [OF n(1)] by simp
qed

lemma utf8_length: "0 < length (json_utf8 cp)" "length (json_utf8 cp) \<le> 4"
  "cp < 0x10000 \<Longrightarrow> length (json_utf8 cp) \<le> 3"
  by (simp_all add: json_utf8_def)

lemma surrogate_pair_word:
  assumes "high_surrogate hi" "low_surrogate lo"
  shows "(0x10000 + (push_bit 10 (word_of_nat hi - 0xd800) OR (word_of_nat lo - 0xdc00)) :: u32) =
    word_of_nat (0x10000 + (hi - 0xd800) * 1024 + (lo - 0xdc00))"
proof -
  let ?h = "hi - 0xd800" and ?l = "lo - 0xdc00"
  have h: "?h < 1024" "hi = ?h + 0xd800" and l: "?l < 1024" "lo = ?l + 0xdc00"
    using assms by (auto simp: high_surrogate_def low_surrogate_def)
  have "(word_of_nat hi - 0xd800 :: u32) = word_of_nat ?h" "(word_of_nat lo - 0xdc00 :: u32) = word_of_nat ?l"
    by (subst h(2) l(2), simp)+
  moreover have "(push_bit 10 (word_of_nat ?h) OR word_of_nat ?l :: u32) = word_of_nat (?h * 1024 + ?l)"
  proof (rule word_eq_iff_unsigned [where ?'a = nat, THEN iffD2])
    have "(push_bit 10 (word_of_nat ?h) :: u32) = word_of_nat (?h * 1024)"
      by (simp add: push_bit_eq_mult mult.commute)
    moreover have "unat (word_of_nat (?h * 1024) :: u32) = ?h * 1024" "unat (word_of_nat ?l :: u32) = ?l"
      "unat (word_of_nat (?h * 1024 + ?l) :: u32) = ?h * 1024 + ?l"
      using h(1) l(1) by (simp_all only: unat_of_nat) simp_all
    ultimately show "unat (push_bit 10 (word_of_nat ?h) OR word_of_nat ?l :: u32) =
        unat (word_of_nat (?h * 1024 + ?l) :: u32)"
      using or_nat_add [of ?l 10 ?h] l(1) by (simp only: unsigned_or_eq) simp
  qed
  ultimately show ?thesis by (simp add: ac_simps)
qed

lemma pair_code_point_less:
  assumes "high_surrogate hi" "low_surrogate lo"
  shows "0x10000 + (hi - 0xd800) * 1024 + (lo - 0xdc00) < 0x110000"
proof -
  have "hi - 0xd800 \<le> 0x3ff" "lo - 0xdc00 \<le> 0x3ff"
    using assms by (auto simp: high_surrogate_def low_surrogate_def)
  then show ?thesis by linarith
qed

lemma unat_code_point: "n < 0x110000 \<Longrightarrow> json_utf8 (word_of_nat n) = utf8_enc n"
proof -
  assume "n < 0x110000"
  moreover from this have "unat (word_of_nat n :: u32) = n" by (simp only: unat_of_nat) simp
  ultimately show ?thesis using json_utf8_eq [of "word_of_nat n"] by simp
qed

lemma string_span_run:
  "c_quote \<notin> set r \<Longrightarrow> c_backslash \<notin> set r \<Longrightarrow>
   string_span (r @ p) = map_option (\<lambda>n. n + length r) (string_span p)"
  by (induction r) (auto simp: option.map_comp comp_def option.map_ident)

lemma word_of_nat_le_numeral: "n < 65536 \<Longrightarrow> m < 65536 \<Longrightarrow> (word_of_nat n :: u32) \<le> word_of_nat m \<longleftrightarrow> n \<le> m"
  by (simp add: word_le_nat_alt unat_of_nat)

lemma surrogate_words:
  assumes "n < 65536"
  shows "(0xd800 \<le> (word_of_nat n :: u32) \<and> (word_of_nat n :: u32) \<le> 0xdbff) \<longleftrightarrow> high_surrogate n"
    "(0xdc00 \<le> (word_of_nat n :: u32) \<and> (word_of_nat n :: u32) \<le> 0xdfff) \<longleftrightarrow> low_surrogate n"
    "((word_of_nat n :: u32) < 0xdc00 \<or> 0xdfff < (word_of_nat n :: u32)) \<longleftrightarrow> \<not> low_surrogate n"
    "(word_of_nat n :: u32) < 0x10000"
  using word_of_nat_le_numeral [OF assms, of "0xdbff"] word_of_nat_le_numeral [OF _ assms, of "0xd800"]
    word_of_nat_le_numeral [OF assms, of "0xdfff"] word_of_nat_le_numeral [OF _ assms, of "0xdc00"] assms
  by (auto simp: high_surrogate_def low_surrogate_def not_less not_le word_less_nat_alt unat_of_nat
      simp flip: not_le)

text \<open>
  A \<^verbatim>\<open>\u\<close> escape that the code accepts is one of the grammar, the
  pre-scan steps over it, and its encoding is shorter than its source text.
\<close>

lemma unicode_escape_BMP:
  assumes "hex4_val ds = Some n" "\<not> high_surrogate n" "\<not> low_surrogate n"
  shows "unicode_escape (ds @ r) = Some (word_of_nat n, r)"
  using assms by (simp add: unicode_escape_def json_hex4_append surrogate_words [OF hex4_valD(2) [OF assms(1)]])

lemma unicode_escape_pair:
  assumes "hex4_val ds = Some hi" "high_surrogate hi" "hex4_val es = Some lo" "low_surrogate lo"
  shows "unicode_escape (ds @ c_backslash # 0x75 # es @ r) =
    Some (word_of_nat (0x10000 + (hi - 0xd800) * 1024 + (lo - 0xdc00)), r)"
  using assms surrogate_words [OF hex4_valD(2) [OF assms(1)]] surrogate_words [OF hex4_valD(2) [OF assms(3)]]
    surrogate_pair_word [OF assms(2,4)]
  by (simp add: unicode_escape_def json_hex4_append del: of_nat_add of_nat_mult)

lemma unicode_escapeD:
  assumes "unicode_escape p = Some (cp, p')"
  obtains raw where "p = raw @ p'" "length (json_utf8 cp) \<le> 2 + length raw"
    "\<And>r s. str_body r s \<Longrightarrow> str_body (c_backslash # 0x75 # raw @ r) (json_utf8 cp @ s)"
    "string_span (c_backslash # 0x75 # p) = map_option (\<lambda>n. n + (2 + length raw)) (string_span p')"
proof -
  from assms obtain cp1 p1 where h1: "json_hex4 p = Some (cp1, p1)"
    by (auto simp: unicode_escape_def split: option.splits)
  from h1 obtain ds n where ds: "p = ds @ p1" "hex4_val ds = Some n" "cp1 = word_of_nat n" "n < 65536"
    by (rule json_hex4_SomeD)
  note w = surrogate_words [OF ds(4)] and d = hex4_valD [OF ds(2)]
  show thesis
  proof (cases "high_surrogate n")
    case False
    with assms h1 ds w have ok: "\<not> low_surrogate n" "cp = word_of_nat n" "p' = p1"
      by (auto simp: unicode_escape_def split: if_splits)
    show thesis
    proof (rule that [of ds])
      show "length (json_utf8 cp) \<le> 2 + length ds" using d utf8_length(2) [of cp] by simp
      show "str_body (c_backslash # 0x75 # ds @ r) (json_utf8 cp @ s)" if "str_body r s" for r s
        using str_body.unicode [OF ds(2) False ok(1) that] ok(2) ds(4) by (simp add: unat_code_point)
    qed (use ds ok d in \<open>simp; cases "string_span p'"; simp add: string_span_run\<close>)+
  next
    case True
    with assms h1 ds(3) w obtain p2 lo' where
      h2: "p1 = c_backslash # 0x75 # p2" "json_hex4 p2 = Some (lo', p')" "\<not> (lo' < 0xdc00 \<or> 0xdfff < lo')"
      "cp = 0x10000 + (push_bit 10 (cp1 - 0xd800) OR (lo' - 0xdc00))"
      by (auto simp: unicode_escape_def split: if_splits list.splits option.splits)
    from h2(2) obtain es lo where es: "p2 = es @ p'" "hex4_val es = Some lo" "lo' = word_of_nat lo" "lo < 65536"
      by (rule json_hex4_SomeD)
    note e = hex4_valD [OF es(2)]
    from h2(3) es(3) surrogate_words(3) [OF es(4)] have low: "low_surrogate lo" by simp
    have cp: "cp = word_of_nat (0x10000 + (n - 0xd800) * 1024 + (lo - 0xdc00))"
      unfolding h2(4) ds(3) es(3) by (rule surrogate_pair_word [OF True low])
    from pair_code_point_less [OF True low] have enc: "json_utf8 cp = utf8_enc (0x10000 + (n - 0xd800) * 1024 + (lo - 0xdc00))"
      unfolding cp by (rule unat_code_point)
    show thesis
    proof (rule that [of "ds @ c_backslash # 0x75 # es"])
      show "length (json_utf8 cp) \<le> 2 + length (ds @ c_backslash # 0x75 # es)"
        using utf8_length(2) [of cp] by simp
      show "str_body (c_backslash # 0x75 # (ds @ c_backslash # 0x75 # es) @ r) (json_utf8 cp @ s)"
        if "str_body r s" for r s
        using str_body.pair [OF ds(2) True es(2) low that] enc by simp
    qed (use ds h2(1) es d e in \<open>simp; cases "string_span p'"; simp add: string_span_run\<close>)+
  qed
qed

lemma unicode_escape_span:
  assumes "unicode_escape p = Some (cp, p')"
  shows "\<exists>k. length (json_utf8 cp) \<le> k \<and>
    string_span (c_backslash # 0x75 # p) = map_option (\<lambda>n. n + k) (string_span p')"
  using assms by (rule unicode_escapeD) blast

subsection \<open>The decode loop\<close>

lemma string_loop_simps [simp]:
  "string_loop [] dst = (dst, None)"
  "string_loop (c_quote # p) dst = (dst, Some p)"
  "ch < 0x20 \<Longrightarrow> string_loop (ch # p) dst = (dst, None)"
  "0x20 \<le> ch \<Longrightarrow> ch \<noteq> c_quote \<Longrightarrow> ch \<noteq> c_backslash \<Longrightarrow>
     string_loop (ch # p) dst = string_loop p (dst @ [ch])"
  "string_loop [c_backslash] dst = (dst, None)"
  "string_loop (c_backslash # e # p) dst =
     (case escape_byte e of
        Some b \<Rightarrow> string_loop p (dst @ [b])
      | None \<Rightarrow>
          if e = 0x75 then
            (case unicode_escape p of
               None \<Rightarrow> (dst, None)
             | Some (cp, p3) \<Rightarrow> string_loop p3 (dst @ json_utf8 cp))
          else (dst, None))"
  by (auto simp: string_loop.simps [of "_ # _"] string_loop.simps [of "[]"] not_less split: if_splits)

lemma string_loop_cases:
  obtains (Nil) "p = []" | (quote) p1 where "p = c_quote # p1"
  | (control) ch p1 where "p = ch # p1" "ch < 0x20"
  | (plain) ch p1 where "p = ch # p1" "0x20 \<le> ch" "ch \<noteq> c_quote" "ch \<noteq> c_backslash"
  | (cut) "p = [c_backslash]"
  | (escape) e p1 b where "p = c_backslash # e # p1" "escape_byte e = Some b"
  | (unicode) p1 where "p = c_backslash # 0x75 # p1"
  | (bad) e p1 where "p = c_backslash # e # p1" "escape_byte e = None" "e \<noteq> 0x75"
  by (metis list.exhaust not_le option.exhaust)

lemma escape_u [simp]: "escape_byte 0x75 = None"
  by (simp add: escape_byte_def)

lemma string_loop_induct [case_names Nil quote control plain cut escape unicode unicode_bad bad]:
  assumes "\<And>dst. P [] dst" "\<And>p dst. P (c_quote # p) dst" "\<And>ch p dst. ch < 0x20 \<Longrightarrow> P (ch # p) dst"
    and "\<And>ch p dst. 0x20 \<le> ch \<Longrightarrow> ch \<noteq> c_quote \<Longrightarrow> ch \<noteq> c_backslash \<Longrightarrow> P p (dst @ [ch]) \<Longrightarrow> P (ch # p) dst"
    and "\<And>dst. P [c_backslash] dst"
    and "\<And>e p b dst. escape_byte e = Some b \<Longrightarrow> P p (dst @ [b]) \<Longrightarrow> P (c_backslash # e # p) dst"
    and "\<And>p cp p' dst. unicode_escape p = Some (cp, p') \<Longrightarrow> P p' (dst @ json_utf8 cp) \<Longrightarrow>
      P (c_backslash # 0x75 # p) dst"
    and "\<And>p dst. unicode_escape p = None \<Longrightarrow> P (c_backslash # 0x75 # p) dst"
    and "\<And>e p dst. escape_byte e = None \<Longrightarrow> e \<noteq> 0x75 \<Longrightarrow> P (c_backslash # e # p) dst"
  shows "P p dst"
proof (induction p arbitrary: dst rule: length_induct)
  case (1 p)
  then have IH: "length q < length p \<Longrightarrow> P q d" for q d by blast
  show ?case
  proof (cases p rule: string_loop_cases)
    case (unicode p1)
    then show ?thesis
      using assms(7,8) IH unicode_escape_length by (cases "unicode_escape p1") fastforce+
  qed (use IH assms in auto)
qed

lemma string_loop_sound:
  "string_loop p dst = (out, Some r) \<Longrightarrow>
   \<exists>raw s. p = raw @ c_quote # r \<and> out = dst @ s \<and> str_body raw s"
proof (induction p dst rule: string_loop_induct)
  case (quote p dst)
  then show ?case by (intro exI [of _ "[]"]) (auto intro: str_body.empty)
next
  case (plain ch p dst)
  then obtain raw s where "p = raw @ c_quote # r" "out = dst @ ch # s" "str_body raw s" by auto
  with plain show ?case
    by (intro exI [of _ "ch # raw"] exI [of _ "ch # s"]) (auto intro: str_body.plain)
next
  case (escape e p b dst)
  then obtain raw s where "p = raw @ c_quote # r" "out = dst @ b # s" "str_body raw s" by auto
  with escape show ?case
    by (intro exI [of _ "c_backslash # e # raw"] exI [of _ "b # s"]) (auto intro: str_body.escape)
next
  case (unicode p cp p' dst)
  then obtain raw s where s: "p' = raw @ c_quote # r" "out = (dst @ json_utf8 cp) @ s" "str_body raw s" by auto
  from unicode(1) obtain esc where
    "p = esc @ p'" "str_body (c_backslash # 0x75 # esc @ raw) (json_utf8 cp @ s)"
    by (rule unicode_escapeD) (use s(3) in blast)
  with s show ?case
    by (intro exI [of _ "c_backslash # 0x75 # esc @ raw"] exI [of _ "json_utf8 cp @ s"]) simp
qed simp_all

lemma string_loop_complete:
  "str_body raw s \<Longrightarrow> string_loop (raw @ c_quote # r) dst = (dst @ s, Some r)"
proof (induction raw s arbitrary: dst rule: str_body.induct)
  case (unicode ds n r' s)
  from unicode(1) have "n < 0x110000" using hex4_valD(2) [of ds n] by simp
  with unicode show ?case by (simp add: unicode_escape_BMP unat_code_point)
next
  case (pair ds hi es lo r' s)
  from pair_code_point_less [OF pair(2,4)] have "0x10000 + (hi - 0xd800) * 1024 + (lo - 0xdc00) < 0x110000" .
  with pair show ?case
    by (simp add: unicode_escape_pair unat_code_point del: of_nat_add of_nat_mult)
qed simp_all

lemma string_span_complete:
  "str_body raw s \<Longrightarrow> string_span (raw @ c_quote # r) = Some (length raw)"
proof (induction raw s rule: str_body.induct)
  case (unicode ds n r' s)
  then show ?case using hex4_valD [of ds n] by (simp add: string_span_run)
next
  case (pair ds hi es lo r' s)
  then show ?case using hex4_valD [of ds hi] hex4_valD [of es lo] by (simp add: string_span_run)
qed simp_all

text \<open>
  The buffer has as many bytes as the pre-scan counted.  Whatever the input, and whether
  the loop succeeds or stops at an error, no more than that is written.
\<close>

lemma string_loop_bound:
  "string_span p = Some n \<Longrightarrow> length (fst (string_loop p dst)) \<le> length dst + n"
proof (induction p dst arbitrary: n rule: string_loop_induct)
  case (unicode p cp p' dst)
  from unicode_escape_span [OF unicode(1)] obtain k where esc: "length (json_utf8 cp) \<le> k"
    "string_span (c_backslash # 0x75 # p) = map_option (\<lambda>n. n + k) (string_span p')" by blast
  from esc(2) unicode(3) have "map_option (\<lambda>n. n + k) (string_span p') = Some n" by (simp only:)
  then obtain m where m: "string_span p' = Some m" "n = m + k" by auto
  have "length (fst (string_loop p' (dst @ json_utf8 cp))) \<le> length (dst @ json_utf8 cp) + m"
    by (rule unicode(2) [OF m(1)])
  with unicode(1) esc(1) m(2) show ?case by simp
next
  case (plain ch p dst)
  then obtain m where "string_span p = Some m" "n = Suc m" by auto
  with plain show ?case by fastforce
next
  case (escape e p b dst)
  then obtain m where "string_span p = Some m" "n = m + 2" by auto
  with escape show ?case by fastforce
qed auto

section \<open>Numbers\<close>

text \<open>
  The tokens of the grammar: an optional minus, an integer without leading zeros, an
  optional fraction, an optional exponent.
\<close>

definition digits1 :: "bytes \<Rightarrow> bool" where
  "digits1 ds \<longleftrightarrow> ds \<noteq> [] \<and> list_all is_digit ds"

inductive number_tok :: "bytes \<Rightarrow> bool" where
  "\<lbrakk> sg = [] \<or> sg = [0x2d]; ip = [0x30] \<or> digits1 ip \<and> hd ip \<noteq> 0x30;
     fp = [] \<or> (\<exists>ds. digits1 ds \<and> fp = c_dot # ds);
     ex = [] \<or> (\<exists>e es ds. (e = 0x65 \<or> e = 0x45) \<and> (es = [] \<or> es = [0x2b] \<or> es = [0x2d]) \<and>
        digits1 ds \<and> ex = e # es @ ds) \<rbrakk>
   \<Longrightarrow> number_tok (sg @ ip @ fp @ ex)"

text \<open>A byte that can continue a number; none of them follows a value in a document.\<close>

definition number_cont :: "byte \<Rightarrow> bool" where
  "number_cont c \<longleftrightarrow> is_digit c \<or> c = c_dot \<or> c = 0x65 \<or> c = 0x45"

lemma skip_digits_eq: "skip_digits p = dropWhile is_digit p"
  by (induction p) (auto simp: is_digit_def)

lemma skip_digits_append:
  "list_all is_digit ds \<Longrightarrow> r = [] \<or> \<not> is_digit (hd r) \<Longrightarrow> skip_digits (ds @ r) = r"
  by (cases r) (auto simp: skip_digits_eq list_all_iff dropWhile_append2 dropWhile_eq_Cons_conv)

lemma skip_digits_split: "\<exists>ds. p = ds @ skip_digits p \<and> list_all is_digit ds"
  by (rule exI [of _ "takeWhile is_digit p"])
    (auto simp: skip_digits_eq list_all_iff dest: set_takeWhileD)

lemma number_sign_split: "\<exists>s. p = s @ number_sign p \<and> (s = [] \<or> s = [0x2d])"
  by (auto simp: number_sign_def split: list.splits)

lemma number_int_split:
  assumes "number_int_part p = Some q"
  shows "\<exists>i. p = i @ q \<and> (i = [0x30] \<or> digits1 i \<and> hd i \<noteq> 0x30)"
proof (cases "p \<noteq> [] \<and> hd p = 0x30")
  case True
  with assms show ?thesis by (cases p) (auto simp: number_int_part_def)
next
  case False
  then obtain c cs where p: "p = c # cs" "0x31 \<le> c" "c \<le> 0x39" "q = skip_digits p"
    using assms by (auto simp: number_int_part_def split: list.splits if_splits)
  obtain ds where ds: "p = ds @ q" "list_all is_digit ds" using skip_digits_split p(4) by auto
  have "is_digit c" using p(2,3) by (auto simp: byte_class_unat word_le_nat_alt)
  then have "length q < length p"
    using p(1,4) by (simp add: skip_digits_eq length_dropWhile_le le_imp_less_Suc)
  then have "q \<noteq> p" by auto
  with ds p False show ?thesis by (intro exI [of _ ds]) (cases ds, auto simp: digits1_def)
qed

lemma number_fraction_split:
  assumes "number_fraction p = Some q"
  shows "\<exists>f. p = f @ q \<and> (f = [] \<or> (\<exists>ds. digits1 ds \<and> f = c_dot # ds))"
proof (cases "p \<noteq> [] \<and> hd p = c_dot")
  case True
  then obtain cs where p: "p = c_dot # cs" by (cases p) auto
  obtain ds where ds: "cs = ds @ skip_digits cs" "list_all is_digit ds" using skip_digits_split by blast
  with p assms have "q = skip_digits cs" "ds \<noteq> []"
    by (auto simp: number_fraction_def Let_def split: if_splits)
  with p ds show ?thesis by (intro exI [of _ "c_dot # ds"]) (auto simp: digits1_def)
next
  case False
  with assms show ?thesis by (cases p) (auto simp: number_fraction_def)
qed

lemma number_exponent_split:
  assumes "number_exponent p = Some q"
  shows "\<exists>x. p = x @ q \<and> (x = [] \<or> (\<exists>e es ds. (e = 0x65 \<or> e = 0x45) \<and>
    (es = [] \<or> es = [0x2b] \<or> es = [0x2d]) \<and> digits1 ds \<and> x = e # es @ ds))"
proof (cases "p \<noteq> [] \<and> (hd p = 0x65 \<or> hd p = 0x45)")
  case True
  then obtain e cs where p: "p = e # cs" "e = 0x65 \<or> e = 0x45" by (cases p) auto
  define r where "r = (case cs of s # ss \<Rightarrow> if s = 0x2b \<or> s = 0x2d then ss else cs | [] \<Rightarrow> cs)"
  obtain es where es: "cs = es @ r" "es = [] \<or> es = [0x2b] \<or> es = [0x2d]"
  proof (cases "cs \<noteq> [] \<and> (hd cs = 0x2b \<or> hd cs = 0x2d)")
    case True
    then show thesis by (intro that [of "[hd cs]"]) (auto simp: r_def neq_Nil_conv)
  next
    case False
    then show thesis by (intro that [of "[]"]) (auto simp: r_def split: list.splits)
  qed
  obtain ds where ds: "r = ds @ skip_digits r" "list_all is_digit ds" using skip_digits_split by blast
  with p assms have "q = skip_digits r" "ds \<noteq> []"
    by (auto simp: number_exponent_def Let_def r_def [symmetric] split: if_splits)
  with p es ds show ?thesis
    by (intro exI [of _ "e # es @ ds"]) (auto simp: digits1_def)
next
  case False
  with assms show ?thesis by (cases p) (auto simp: number_exponent_def)
qed

lemma number_scan_sound: "number_scan p = Some q \<Longrightarrow> \<exists>t. p = t @ q \<and> number_tok t"
proof -
  assume "number_scan p = Some q"
  then obtain a b where ab: "number_int_part (number_sign p) = Some a" "number_fraction a = Some b"
    "number_exponent b = Some q" by (auto simp: number_scan_def split: option.splits)
  obtain s where "p = s @ number_sign p" "s = [] \<or> s = [0x2d]" using number_sign_split by blast
  moreover obtain i where "number_sign p = i @ a" "i = [0x30] \<or> digits1 i \<and> hd i \<noteq> 0x30"
    using number_int_split [OF ab(1)] by blast
  moreover obtain f where "a = f @ b" "f = [] \<or> (\<exists>ds. digits1 ds \<and> f = c_dot # ds)"
    using number_fraction_split [OF ab(2)] by blast
  moreover obtain x where "b = x @ q" "x = [] \<or> (\<exists>e es ds. (e = 0x65 \<or> e = 0x45) \<and>
    (es = [] \<or> es = [0x2b] \<or> es = [0x2d]) \<and> digits1 ds \<and> x = e # es @ ds)"
    using number_exponent_split [OF ab(3)] by blast
  ultimately show ?thesis
    using number_tok.intros [of s i f x] by (intro exI [of _ "s @ i @ f @ x"]) simp
qed

lemma number_scan_complete:
  assumes "number_tok t" "r = [] \<or> \<not> number_cont (hd r)"
  shows "number_scan (t @ r) = Some r"
  using assms(1)
proof cases
  case (1 sg ip fp ex)
  have r: "r = [] \<or> \<not> is_digit (hd r)" using assms(2) by (auto simp: number_cont_def)
  have ex: "number_exponent (ex @ r) = Some r"
  proof (cases "ex = []")
    case True
    with assms(2) show ?thesis by (cases r) (auto simp: number_exponent_def number_cont_def)
  next
    case False
    with 1 obtain e es ds where "ex = e # es @ ds" "e = 0x65 \<or> e = 0x45"
      "es = [] \<or> es = [0x2b] \<or> es = [0x2d]" "digits1 ds" by blast
    moreover from this have "(case es @ ds @ r of s # ss \<Rightarrow> if s = 0x2b \<or> s = 0x2d then ss else es @ ds @ r
        | [] \<Rightarrow> es @ ds @ r) = ds @ r"
      by (auto simp: digits1_def is_digit_def neq_Nil_conv)
    ultimately show ?thesis
      using skip_digits_append [of ds r] r by (auto simp: number_exponent_def digits1_def Let_def)
  qed
  have xr: "ex @ r = [] \<or> \<not> is_digit (hd (ex @ r)) \<and> hd (ex @ r) \<noteq> c_dot"
    using 1 assms(2) by (auto simp: number_cont_def is_digit_def hd_append)
  have frac: "number_fraction (fp @ ex @ r) = Some (ex @ r)"
  proof (cases "fp = []")
    case True
    with xr show ?thesis by (cases "ex @ r") (auto simp: number_fraction_def)
  next
    case False
    with 1 obtain ds where "fp = c_dot # ds" "digits1 ds" by blast
    with xr show ?thesis
      using skip_digits_append [of ds "ex @ r"] by (auto simp: number_fraction_def digits1_def Let_def)
  qed
  have fr: "fp @ ex @ r = [] \<or> \<not> is_digit (hd (fp @ ex @ r))"
    using 1 xr by (auto simp: is_digit_def)
  have int: "number_int_part (ip @ fp @ ex @ r) = Some (fp @ ex @ r)"
  proof (cases "ip = [0x30]")
    case True
    then show ?thesis by (simp add: number_int_part_def)
  next
    case False
    with 1 obtain c cs where c: "ip = c # cs" "is_digit c" "c \<noteq> 0x30" "list_all is_digit cs"
      by (cases ip) (auto simp: digits1_def)
    then have "0x31 \<le> c" "c \<le> 0x39" by (auto simp: byte_class_unat word_le_nat_alt byte_eq_unat)
    with c fr show ?thesis
      using skip_digits_append [of ip "fp @ ex @ r"] by (simp add: number_int_part_def)
  qed
  have "ip \<noteq> []" "hd ip \<noteq> 0x2d"
    using 1(3) by (cases ip; auto simp: digits1_def is_digit_def)+
  then have "number_sign (sg @ ip @ fp @ ex @ r) = ip @ fp @ ex @ r"
    using 1 by (cases ip) (auto simp: number_sign_def)
  with int frac ex 1(1) show ?thesis by (simp add: number_scan_def)
qed

section \<open>Values\<close>

definition ws :: "bytes \<Rightarrow> bool" where
  "ws w \<longleftrightarrow> list_all (\<lambda>c. c = 0x20 \<or> c = 0x09 \<or> c = 0x0a \<or> c = 0x0d) w"

text \<open>
  The first argument is the nesting that is still allowed: an object or an array takes
  one level from it.
\<close>

inductive jval :: "nat \<Rightarrow> bytes \<Rightarrow> json \<Rightarrow> bool"
  and jmembers :: "nat \<Rightarrow> bytes \<Rightarrow> (bytes \<times> json) list \<Rightarrow> bool"
  and jelems :: "nat \<Rightarrow> bytes \<Rightarrow> json list \<Rightarrow> bool"
where
  jstring: "str_body raw s \<Longrightarrow> jval n (c_quote # raw @ [c_quote]) (JString s)"
| jnumber: "number_tok t \<Longrightarrow> jval n t (JNumber t)"
| jtrue: "jval n (str ''true'') (JBool True)"
| jfalse: "jval n (str ''false'') (JBool False)"
| jnull: "jval n (str ''null'') JNull"
| jempty_object: "ws w \<Longrightarrow> jval (Suc n) (c_lbrace # w @ [c_rbrace]) (JObject [])"
| jobject: "jmembers n t ms \<Longrightarrow> jval (Suc n) (c_lbrace # t @ [c_rbrace]) (JObject ms)"
| jempty_array: "ws w \<Longrightarrow> jval (Suc n) (c_lbrack # w @ [c_rbrack]) (JArray [])"
| jarray: "jelems n t es \<Longrightarrow> jval (Suc n) (c_lbrack # t @ [c_rbrack]) (JArray es)"
| jmember: "\<lbrakk> ws w1; str_body raw k; ws w2; ws w3; jval n t v; ws w4 \<rbrakk>
    \<Longrightarrow> jmembers n (w1 @ c_quote # raw @ c_quote # w2 @ c_colon # w3 @ t @ w4) [(k, v)]"
| jmember_more: "\<lbrakk> ws w1; str_body raw k; ws w2; ws w3; jval n t v; ws w4; jmembers n t' ms \<rbrakk>
    \<Longrightarrow> jmembers n (w1 @ c_quote # raw @ c_quote # w2 @ c_colon # w3 @ t @ w4 @ c_comma # t') ((k, v) # ms)"
| jelem: "\<lbrakk> ws w1; jval n t v; ws w2 \<rbrakk> \<Longrightarrow> jelems n (w1 @ t @ w2) [v]"
| jelem_more: "\<lbrakk> ws w1; jval n t v; ws w2; jelems n t' es \<rbrakk>
    \<Longrightarrow> jelems n (w1 @ t @ w2 @ c_comma # t') (v # es)"

definition json_text :: "nat \<Rightarrow> bytes \<Rightarrow> json \<Rightarrow> bool" where
  "json_text n d v \<longleftrightarrow> (\<exists>w1 t w2. d = w1 @ t @ w2 \<and> ws w1 \<and> ws w2 \<and> jval n t v)"

subsection \<open>The leaves of the parser\<close>

lemma json_alloc_fields [simp]:
  "jp (snd (json_alloc c)) = jp c" "jdepth (snd (json_alloc c)) = jdepth c"
  by (simp_all add: json_alloc_def split: prod.splits)

lemma json_alloc_eq: "json_alloc c = (b, c1) \<Longrightarrow> jp c1 = jp c \<and> jdepth c1 = jdepth c"
  using json_alloc_fields [of c] by simp

lemma json_alloc_never_fails: "jpool c = [] \<Longrightarrow> json_alloc c = (True, c)"
  by (simp add: json_alloc_def)

lemma skip_ws_fields [simp]:
  "jdepth (json_skip_ws c) = jdepth c" "jpool (json_skip_ws c) = jpool c"
  by (simp_all add: json_skip_ws_def)

lemma skip_ws_loop_split: "\<exists>w. p = w @ skip_ws_loop p \<and> ws w"
proof (induction p)
  case (Cons c p)
  then obtain w where "p = w @ skip_ws_loop p" "ws w" by blast
  then show ?case
    by (cases "c = 0x20 \<or> c = 0x09 \<or> c = 0x0a \<or> c = 0x0d")
      (auto simp: ws_def intro: exI [of _ "c # w"] exI [of _ "[]"])
qed (simp add: ws_def)

lemma skip_ws_split: "\<exists>w. jp c = w @ jp (json_skip_ws c) \<and> ws w"
  using skip_ws_loop_split [of "jp c"] by (simp add: json_skip_ws_def)

lemma skip_ws_loop_append:
  "ws w \<Longrightarrow> p = [] \<or> \<not> ws [hd p] \<Longrightarrow> skip_ws_loop (w @ p) = p"
  by (induction w; cases p) (auto simp: ws_def)

lemma skip_ws_loop_idem [simp]: "skip_ws_loop (skip_ws_loop p) = skip_ws_loop p"
  by (induction p) auto

lemma skip_ws_idem [simp]: "json_skip_ws (json_skip_ws c) = json_skip_ws c"
  by (simp add: json_skip_ws_def)

lemma json_string_raw_sound:
  assumes "json_string_raw c = Some (s, c1)"
  shows "\<exists>raw. tl (jp c) = raw @ c_quote # jp c1 \<and> str_body raw s \<and> jdepth c1 = jdepth c"
proof -
  from assms obtain p where p: "string_loop (tl (jp c)) [] = (s, Some p)" "jp c1 = p" "jdepth c1 = jdepth c"
    by (auto simp: json_string_raw_def Let_def dest: json_alloc_eq split: option.splits prod.splits if_splits)
  from string_loop_sound [OF p(1)] p(2,3) show ?thesis by auto
qed

lemma json_string_raw_complete:
  assumes "str_body raw s" "jp c = c_quote # raw @ c_quote # r" "jpool c = []"
  shows "json_string_raw c = Some (s, c\<lparr>jp := r\<rparr>)"
  using assms string_span_complete [OF assms(1), of r] string_loop_complete [OF assms(1), of r "[]"]
  by (simp add: json_string_raw_def Let_def json_alloc_never_fails)

lemma json_number_sound:
  assumes "json_number c = Some (v, c1)"
  shows "\<exists>t. jp c = t @ jp c1 \<and> v = JNumber t \<and> number_tok t \<and> jdepth c1 = jdepth c"
proof -
  from assms obtain p where p: "number_scan (jp c) = Some p" "jp c1 = p" "jdepth c1 = jdepth c"
    "v = JNumber (take (length (jp c) - length p) (jp c))"
    by (auto simp: json_number_def dest: json_alloc_eq split: option.splits prod.splits bool.splits)
  with number_scan_sound [OF p(1)] show ?thesis by auto
qed

lemma json_number_complete:
  assumes "number_tok t" "jp c = t @ r" "jpool c = []" "r = [] \<or> \<not> number_cont (hd r)"
  shows "json_number c = Some (JNumber t, c\<lparr>jp := r\<rparr>)"
  using assms number_scan_complete [OF assms(1,4)] by (simp add: json_number_def json_alloc_never_fails)

lemma strncmp_eq_prefix:
  assumes "0 \<notin> set txt0"
  shows "length txt0 \<le> length p \<and> strncmp_eq p txt0 (length txt0) \<longleftrightarrow> (\<exists>r. p = txt0 @ r)"
  using strncmp_eq_nul_free [OF assms, of "length txt0" p]
  by (auto simp: append_eq_conv_conj intro: exI [of _ "drop (length txt0) p"]) (metis append_take_drop_id)

lemma json_literal_sound:
  assumes "json_literal c = Some (v, c1)"
  shows "\<exists>t. jp c = t @ jp c1 \<and> jval n t v \<and> jdepth c1 = jdepth c"
proof -
  have "\<exists>txt0. (txt0, v) \<in> set ls \<and> jp c = txt0 @ jp c1 \<and> jdepth c1 = jdepth c"
    if "literal_loop ls c = Some (v, c1)" "\<forall>(txt0, v) \<in> set ls. 0 \<notin> set txt0" for ls
    using that
  proof (induction ls)
    case (Cons l ls)
    obtain txt0 v0 where l: "l = (txt0, v0)" by force
    show ?case
    proof (cases "length (jp c) \<ge> length txt0 \<and> strncmp_eq (jp c) txt0 (length txt0)")
      case True
      with Cons.prems l strncmp_eq_prefix [of txt0 "jp c"] obtain r where "jp c = txt0 @ r" by auto
      moreover from True Cons.prems l have "v0 = v" "jp c1 = drop (length txt0) (jp c)" "jdepth c1 = jdepth c"
        by (auto dest: json_alloc_eq split: prod.splits bool.splits)
      ultimately show ?thesis using l by auto
    next
      case False
      with Cons l show ?thesis by auto
    qed
  qed simp
  from this [of literals] assms show ?thesis
    unfolding json_literal_def literals_def
    using jtrue [of n] jfalse [of n] jnull [of n] by auto
qed

lemma json_literal_complete:
  assumes "(txt0, v) \<in> set literals" "jp c = txt0 @ r" "jpool c = []"
  shows "json_literal c = Some (v, c\<lparr>jp := r\<rparr>)"
  using assms by (auto simp: json_literal_def literals_def json_alloc_never_fails)

lemma of_option_Val [simp]: "of_option x = Val y \<longleftrightarrow> x = Some y"
  and of_option_fuel [simp]: "of_option x \<noteq> Out_Of_Fuel"
  by (auto simp: of_option_def split: option.splits)

subsection \<open>What is accepted is in the grammar\<close>

lemma object_loop_step:
  assumes "object_loop (Suc fuel) c ms = Val (v, c')"
  obtains w1 raw name c3 w2 w3 c4 m c5 w4 ch c6 where
    "jp c = w1 @ c_quote # raw @ c_quote # w2 @ c_colon # w3 @ jp c4" "ws w1" "str_body raw name" "ws w2" "ws w3"
    "jdepth c4 = jdepth c" "json_value fuel c4 = Val (m, c5)" "jp c5 = w4 @ ch # jp c6" "ws w4"
    "jdepth c6 = jdepth c5"
    "ch = c_comma \<and> object_loop fuel c6 (ms @ [(name, m)]) = Val (v, c') \<or>
     ch = c_rbrace \<and> v = JObject (ms @ [(name, m)]) \<and> jp c' = jp c6 \<and> jdepth c' = jdepth c6 - 1"
proof -
  let ?c1 = "json_skip_ws c"
  obtain c2 where c2: "json_alloc ?c1 = (True, c2)" "jp ?c1 \<noteq> []" "hd (jp ?c1) = c_quote"
    using assms by (auto simp: Let_def split: if_splits prod.splits bool.splits)
  then obtain name c3 where c3: "json_string_raw c2 = Some (name, c3)"
    using assms by (auto simp: Let_def split: option.splits)
  let ?c4 = "json_skip_ws c3"
  have c4: "jp ?c4 \<noteq> []" "hd (jp ?c4) = c_colon"
    using assms c2 c3 by (auto simp: Let_def split: if_splits)
  let ?d4 = "json_skip_ws (?c4\<lparr>jp := tl (jp ?c4)\<rparr>)"
  obtain m c5 where c5: "json_value fuel ?d4 = Val (m, c5)"
    using assms c2 c3 c4 by (auto simp: Let_def split: jres.splits)
  let ?c6 = "json_skip_ws c5"
  obtain ch p where c6: "jp ?c6 = ch # p"
    using assms c2 c3 c4 c5 by (auto simp: Let_def split: list.splits)
  obtain w1 w2 w3 w4 where w: "jp c = w1 @ jp ?c1" "ws w1" "jp c3 = w2 @ jp ?c4" "ws w2"
    "tl (jp ?c4) = w3 @ jp ?d4" "ws w3" "jp c5 = w4 @ jp ?c6" "ws w4"
    using skip_ws_split [of c] skip_ws_split [of c3] skip_ws_split [of "?c4\<lparr>jp := tl (jp ?c4)\<rparr>"]
      skip_ws_split [of c5] by auto
  obtain raw where raw: "tl (jp c2) = raw @ c_quote # jp c3" "str_body raw name" "jdepth c3 = jdepth c2"
    using json_string_raw_sound [OF c3] by blast
  have "jp c = w1 @ c_quote # raw @ c_quote # w2 @ c_colon # w3 @ jp ?d4"
    using w(1,3,5) c2 c4 raw(1) json_alloc_eq [OF c2(1)] by (metis list.collapse)
  moreover have "jdepth ?d4 = jdepth c" using raw(3) json_alloc_eq [OF c2(1)] by simp
  moreover have "ch = c_comma \<and> object_loop fuel (?c6\<lparr>jp := p\<rparr>) (ms @ [(name, m)]) = Val (v, c') \<or>
     ch = c_rbrace \<and> v = JObject (ms @ [(name, m)]) \<and> jp c' = p \<and> jdepth c' = jdepth c5 - 1"
    using assms c2 c3 c4 c5 c6 by (auto simp: Let_def split: if_splits)
  ultimately show thesis
    using that [of w1 raw w2 w3 ?d4 name m c5 w4 ch "?c6\<lparr>jp := p\<rparr>"] w raw(2) c5 c6 by simp
qed

lemma array_loop_step:
  assumes "array_loop (Suc fuel) c es = Val (v, c')"
  obtains w1 c2 m c3 w2 ch c4 where
    "jp c = w1 @ jp c2" "ws w1" "jdepth c2 = jdepth c" "json_value fuel c2 = Val (m, c3)"
    "jp c3 = w2 @ ch # jp c4" "ws w2" "jdepth c4 = jdepth c3"
    "ch = c_comma \<and> array_loop fuel c4 (es @ [m]) = Val (v, c') \<or>
     ch = c_rbrack \<and> v = JArray (es @ [m]) \<and> jp c' = jp c4 \<and> jdepth c' = jdepth c4 - 1"
proof -
  let ?c1 = "json_skip_ws c"
  obtain c2 where c2: "json_alloc ?c1 = (True, c2)"
    using assms by (auto simp: Let_def split: prod.splits bool.splits)
  then obtain m c3 where c3: "json_value fuel c2 = Val (m, c3)"
    using assms by (auto simp: Let_def split: jres.splits)
  let ?c4 = "json_skip_ws c3"
  obtain ch p where c4: "jp ?c4 = ch # p"
    using assms c2 c3 by (auto simp: Let_def split: list.splits)
  obtain w1 w2 where w: "jp c = w1 @ jp ?c1" "ws w1" "jp c3 = w2 @ jp ?c4" "ws w2"
    using skip_ws_split [of c] skip_ws_split [of c3] by auto
  have "ch = c_comma \<and> array_loop fuel (?c4\<lparr>jp := p\<rparr>) (es @ [m]) = Val (v, c') \<or>
     ch = c_rbrack \<and> v = JArray (es @ [m]) \<and> jp c' = p \<and> jdepth c' = jdepth c3 - 1"
    using assms c2 c3 c4 by (auto simp: Let_def split: if_splits)
  then show thesis
    using that [of w1 c2 m c3 w2 ch "?c4\<lparr>jp := p\<rparr>"] w c3 c4 json_alloc_eq [OF c2] by simp
qed

lemma json_object_step:
  assumes "json_object fuel c = Val (v, c')"
  obtains f w c2 where "fuel = Suc f" "jdepth c < 32" "tl (jp c) = w @ jp c2" "ws w" "jdepth c2 = jdepth c + 1"
    "jp c2 = c_rbrace # jp c' \<and> v = JObject [] \<and> jdepth c' = jdepth c \<or> object_loop f c2 [] = Val (v, c')"
proof -
  obtain f where f: "fuel = Suc f" using assms by (cases fuel) auto
  let ?c0 = "c\<lparr>jdepth := jdepth c + 1\<rparr>"
  obtain c1 where c1: "json_alloc ?c0 = (True, c1)" "jdepth c < 32"
    using assms by (auto simp: f Let_def split: if_splits prod.splits bool.splits)
  let ?c2 = "json_skip_ws (c1\<lparr>jp := tl (jp c1)\<rparr>)"
  obtain w where "tl (jp c) = w @ jp ?c2" "ws w"
    using skip_ws_split [of "c1\<lparr>jp := tl (jp c1)\<rparr>"] json_alloc_eq [OF c1(1)] by auto
  moreover have "jp ?c2 = c_rbrace # jp c' \<and> v = JObject [] \<and> jdepth c' = jdepth c \<or>
      object_loop f ?c2 [] = Val (v, c')"
    using assms c1 json_alloc_eq [OF c1(1)] by (auto simp: f Let_def split: list.splits if_splits)
  ultimately show thesis
    using that [of f w ?c2] f c1(2) json_alloc_eq [OF c1(1)] by simp
qed

lemma json_array_step:
  assumes "json_array fuel c = Val (v, c')"
  obtains f w c2 where "fuel = Suc f" "jdepth c < 32" "tl (jp c) = w @ jp c2" "ws w" "jdepth c2 = jdepth c + 1"
    "jp c2 = c_rbrack # jp c' \<and> v = JArray [] \<and> jdepth c' = jdepth c \<or> array_loop f c2 [] = Val (v, c')"
proof -
  obtain f where f: "fuel = Suc f" using assms by (cases fuel) auto
  let ?c0 = "c\<lparr>jdepth := jdepth c + 1\<rparr>"
  obtain c1 where c1: "json_alloc ?c0 = (True, c1)" "jdepth c < 32"
    using assms by (auto simp: f Let_def split: if_splits prod.splits bool.splits)
  let ?c2 = "json_skip_ws (c1\<lparr>jp := tl (jp c1)\<rparr>)"
  obtain w where "tl (jp c) = w @ jp ?c2" "ws w"
    using skip_ws_split [of "c1\<lparr>jp := tl (jp c1)\<rparr>"] json_alloc_eq [OF c1(1)] by auto
  moreover have "jp ?c2 = c_rbrack # jp c' \<and> v = JArray [] \<and> jdepth c' = jdepth c \<or>
      array_loop f ?c2 [] = Val (v, c')"
    using assms c1 json_alloc_eq [OF c1(1)] by (auto simp: f Let_def split: list.splits if_splits)
  ultimately show thesis
    using that [of f w ?c2] f c1(2) json_alloc_eq [OF c1(1)] by simp
qed

lemma ws_append [simp]: "ws (u @ w) \<longleftrightarrow> ws u \<and> ws w" "ws []"
  by (simp_all add: ws_def)

lemma jmembers_ws: "jmembers n t ms \<Longrightarrow> ws w \<Longrightarrow> jmembers n (w @ t) ms"
  by (erule jmembers.cases)
    (auto intro: jmember [of "w @ u" for u, simplified] jmember_more [of "w @ u" for u, simplified])

lemma jelems_ws: "jelems n t es \<Longrightarrow> ws w \<Longrightarrow> jelems n (w @ t) es"
  by (erule jelems.cases)
    (auto intro: jelem [of "w @ u" for u, simplified] jelem_more [of "w @ u" for u, simplified])

text \<open>
  The first byte of a value decides which routine runs.
\<close>

lemma json_value_step:
  assumes "json_value (Suc f) c = Val (v, c')"
  obtains (object) p where "jp c = c_lbrace # p" "json_object f c = Val (v, c')"
  | (array) p where "jp c = c_lbrack # p" "json_array f c = Val (v, c')"
  | (string) p c1 s where "jp c = c_quote # p" "jp c1 = jp c" "jdepth c1 = jdepth c" "v = JString s"
      "json_string_raw c1 = Some (s, c')"
  | (number) "json_number c = Some (v, c')"
  | (literal) "json_literal c = Some (v, c')"
proof (cases "jp c")
  case Nil
  with assms show thesis by simp
next
  case (Cons ch p)
  consider "ch = c_lbrace" | "ch = c_lbrack" | "ch = c_quote" | "ch \<notin> {c_lbrace, c_lbrack, c_quote}" by blast
  then show thesis
  proof cases
    case 1
    with Cons assms object show thesis by simp
  next
    case 2
    with Cons assms array show thesis by simp
  next
    case 3
    with Cons assms obtain c1 s where "json_alloc c = (True, c1)" "json_string_raw c1 = Some (s, c')" "v = JString s"
      by (auto split: prod.splits bool.splits)
    with Cons 3 show thesis using string [of p c1 s] json_alloc_eq [of c True c1] by simp
  next
    case 4
    with Cons assms number literal show thesis by (auto split: if_splits)
  qed
qed

lemma json_sound:
  "json_value fuel c = Val (v, c') \<Longrightarrow> jdepth c \<le> 32 \<Longrightarrow>
     \<exists>t. jp c = t @ jp c' \<and> jval (32 - jdepth c) t v \<and> jdepth c' = jdepth c"
  "object_loop fuel c ms = Val (v, c') \<Longrightarrow> 0 < jdepth c \<Longrightarrow> jdepth c \<le> 32 \<Longrightarrow>
     \<exists>t ms'. jp c = t @ c_rbrace # jp c' \<and> v = JObject (ms @ ms') \<and> jmembers (32 - jdepth c) t ms' \<and>
       jdepth c' = jdepth c - 1"
  "array_loop fuel c es = Val (v, c') \<Longrightarrow> 0 < jdepth c \<Longrightarrow> jdepth c \<le> 32 \<Longrightarrow>
     \<exists>t es'. jp c = t @ c_rbrack # jp c' \<and> v = JArray (es @ es') \<and> jelems (32 - jdepth c) t es' \<and>
       jdepth c' = jdepth c - 1"
proof (induction fuel arbitrary: c v c' ms es rule: less_induct)
  case (less fuel)
  {
    case 1
    then obtain f where f: "fuel = Suc f" by (cases fuel) auto
    from 1(1) [unfolded f] show ?case
    proof (cases rule: json_value_step)
      case (object p)
      from object(2) obtain g w c2 where g: "f = Suc g" "jdepth c < 32" "tl (jp c) = w @ jp c2" "ws w"
        "jdepth c2 = jdepth c + 1"
        "jp c2 = c_rbrace # jp c' \<and> v = JObject [] \<and> jdepth c' = jdepth c \<or> object_loop g c2 [] = Val (v, c')"
        by (rule json_object_step)
      from g(2) have n: "32 - jdepth c = Suc (32 - jdepth c2)" using g(5) by simp
      from g(6) show ?thesis
      proof
        assume "jp c2 = c_rbrace # jp c' \<and> v = JObject [] \<and> jdepth c' = jdepth c"
        with object(1) g jempty_object [OF g(4)] n show ?thesis
          by (intro exI [of _ "c_lbrace # w @ [c_rbrace]"]) simp
      next
        assume "object_loop g c2 [] = Val (v, c')"
        with less(2) [of g c2 "[]" v c'] f g obtain t ms' where
          t: "jp c2 = t @ c_rbrace # jp c'" "v = JObject ms'" "jmembers (32 - jdepth c2) t ms'" "jdepth c' = jdepth c"
          by auto
        with object(1) g jobject [OF jmembers_ws [OF t(3) g(4)]] n show ?thesis
          by (intro exI [of _ "c_lbrace # (w @ t) @ [c_rbrace]"]) simp
      qed
    next
      case (array p)
      from array(2) obtain g w c2 where g: "f = Suc g" "jdepth c < 32" "tl (jp c) = w @ jp c2" "ws w"
        "jdepth c2 = jdepth c + 1"
        "jp c2 = c_rbrack # jp c' \<and> v = JArray [] \<and> jdepth c' = jdepth c \<or> array_loop g c2 [] = Val (v, c')"
        by (rule json_array_step)
      from g(2) have n: "32 - jdepth c = Suc (32 - jdepth c2)" using g(5) by simp
      from g(6) show ?thesis
      proof
        assume "jp c2 = c_rbrack # jp c' \<and> v = JArray [] \<and> jdepth c' = jdepth c"
        with array(1) g jempty_array [OF g(4)] n show ?thesis
          by (intro exI [of _ "c_lbrack # w @ [c_rbrack]"]) simp
      next
        assume "array_loop g c2 [] = Val (v, c')"
        with less(3) [of g c2 "[]" v c'] f g obtain t es' where
          t: "jp c2 = t @ c_rbrack # jp c'" "v = JArray es'" "jelems (32 - jdepth c2) t es'" "jdepth c' = jdepth c"
          by auto
        with array(1) g jarray [OF jelems_ws [OF t(3) g(4)]] n show ?thesis
          by (intro exI [of _ "c_lbrack # (w @ t) @ [c_rbrack]"]) simp
      qed
    next
      case (string p c1 s)
      with json_string_raw_sound [OF string(5)] jstring show ?thesis by fastforce
    next
      case number
      with json_number_sound [OF number] jnumber show ?thesis by blast
    next
      case literal
      then show ?thesis by (rule json_literal_sound)
    qed
  next
    case 2
    then obtain f where f: "fuel = Suc f" by (cases fuel) auto
    from 2(1) [unfolded f] show ?case
    proof (rule object_loop_step)
      fix w1 raw w2 w3 c4 name m c5 w4 ch c6
      assume a: "jp c = w1 @ c_quote # raw @ c_quote # w2 @ c_colon # w3 @ jp c4"
        and ws: "ws w1" "str_body raw name" "ws w2" "ws w3" and d4: "jdepth c4 = jdepth c"
        and v: "json_value f c4 = Val (m, c5)" and c5: "jp c5 = w4 @ ch # jp c6" "ws w4" "jdepth c6 = jdepth c5"
        and next_m: "ch = c_comma \<and> object_loop f c6 (ms @ [(name, m)]) = Val (v, c') \<or>
          ch = c_rbrace \<and> v = JObject (ms @ [(name, m)]) \<and> jp c' = jp c6 \<and> jdepth c' = jdepth c6 - 1"
      obtain t where t: "jp c4 = t @ jp c5" "jval (32 - jdepth c) t m" "jdepth c5 = jdepth c"
        using less(1) [OF _ v] f d4 2(3) by auto
      show ?thesis
      proof (cases "ch = c_comma")
        case True
        with next_m c5 t obtain t' ms' where "jp c6 = t' @ c_rbrace # jp c'" "v = JObject ((ms @ [(name, m)]) @ ms')"
          "jmembers (32 - jdepth c) t' ms'" "jdepth c' = jdepth c - 1"
          using less(2) [of f c6 "ms @ [(name, m)]" v c'] f 2(2,3) by auto
        then show ?thesis
          using a ws c5 t True jmember_more [OF ws t(2) c5(2)]
          by (intro exI [of _ "w1 @ c_quote # raw @ c_quote # w2 @ c_colon # w3 @ t @ w4 @ c_comma # t'"]
              exI [of _ "(name, m) # ms'"]) simp
      next
        case False
        with next_m show ?thesis
          using a ws c5 t jmember [OF ws t(2) c5(2)]
          by (intro exI [of _ "w1 @ c_quote # raw @ c_quote # w2 @ c_colon # w3 @ t @ w4"]
              exI [of _ "[(name, m)]"]) simp
      qed
    qed
  next
    case 3
    then obtain f where f: "fuel = Suc f" by (cases fuel) auto
    from 3(1) [unfolded f] show ?case
    proof (rule array_loop_step)
      fix w1 c2 m c3 w2 ch c4
      assume a: "jp c = w1 @ jp c2" and ws: "ws w1" and d2: "jdepth c2 = jdepth c"
        and v: "json_value f c2 = Val (m, c3)" and c3: "jp c3 = w2 @ ch # jp c4" "ws w2" "jdepth c4 = jdepth c3"
        and next_m: "ch = c_comma \<and> array_loop f c4 (es @ [m]) = Val (v, c') \<or>
          ch = c_rbrack \<and> v = JArray (es @ [m]) \<and> jp c' = jp c4 \<and> jdepth c' = jdepth c4 - 1"
      obtain t where t: "jp c2 = t @ jp c3" "jval (32 - jdepth c) t m" "jdepth c3 = jdepth c"
        using less(1) [OF _ v] f d2 3(3) by auto
      show ?thesis
      proof (cases "ch = c_comma")
        case True
        with next_m c3 t obtain t' es' where "jp c4 = t' @ c_rbrack # jp c'" "v = JArray ((es @ [m]) @ es')"
          "jelems (32 - jdepth c) t' es'" "jdepth c' = jdepth c - 1"
          using less(3) [of f c4 "es @ [m]" v c'] f 3(2,3) by auto
        then show ?thesis
          using a c3 t True jelem_more [OF ws t(2) c3(2)]
          by (intro exI [of _ "w1 @ t @ w2 @ c_comma # t'"] exI [of _ "m # es'"]) simp
      next
        case False
        with next_m show ?thesis
          using a c3 t jelem [OF ws t(2) c3(2)]
          by (intro exI [of _ "w1 @ t @ w2"] exI [of _ "[m]"]) simp
      qed
    qed
  }
qed

subsection \<open>What is in the grammar is accepted\<close>

definition follow :: "bytes \<Rightarrow> bool" where
  "follow r \<longleftrightarrow> r = [] \<or> \<not> number_cont (hd r)"

lemma follow_ws: "ws w \<Longrightarrow> follow r \<Longrightarrow> follow (w @ r)"
  by (cases w) (auto simp: follow_def ws_def number_cont_def is_digit_def)

lemma follow_punct [simp]: "follow (c_comma # r)" "follow (c_rbrace # r)" "follow (c_rbrack # r)" "follow []"
  by (simp_all add: follow_def number_cont_def is_digit_def)

lemma not_ws [simp]: "\<not> ws [c_quote]" "\<not> ws [c_colon]" "\<not> ws [c_comma]" "\<not> ws [c_rbrace]" "\<not> ws [c_rbrack]"
  by (simp_all add: ws_def)

lemma number_tok_hd: "number_tok t \<Longrightarrow> t \<noteq> [] \<and> (hd t = 0x2d \<or> is_digit (hd t))"
proof (erule number_tok.cases)
  fix sg ip fp ex
  assume 1: "t = sg @ ip @ fp @ ex" "sg = [] \<or> sg = [0x2d]" "ip = [0x30] \<or> digits1 ip \<and> hd ip \<noteq> 0x30"
  then have "ip \<noteq> [] \<and> is_digit (hd ip)"
    by (cases ip) (auto simp: digits1_def is_digit_def)
  with 1 show ?thesis by (cases ip) auto
qed

lemma jval_hd: "jval n t v \<Longrightarrow> t \<noteq> [] \<and> \<not> ws [hd t] \<and> hd t \<noteq> c_rbrack"
  by (erule jval.cases) (auto simp: ws_def is_digit_def dest: number_tok_hd)

lemma skip_ws_to:
  assumes "jp c = w @ p" "ws w" "p \<noteq> []" "\<not> ws [hd p]"
  shows "json_skip_ws c = c\<lparr>jp := p\<rparr>"
  using assms skip_ws_loop_append [of w p] by (simp add: json_skip_ws_def)

lemma object_loop_skip: "object_loop fuel (json_skip_ws c) ms = object_loop fuel c ms"
  by (cases fuel) simp_all

lemma array_loop_skip: "array_loop fuel (json_skip_ws c) es = array_loop fuel c es"
  by (cases fuel) simp_all

lemma object_loop_run:
  assumes "jp c = w1 @ c_quote # raw @ c_quote # w2 @ c_colon # w3 @ t @ w4 @ ch # r"
    and "ws w1" "str_body raw k" "ws w2" "ws w3" "ws w4" "jpool c = []"
    and "t \<noteq> []" "\<not> ws [hd t]" "\<not> ws [ch]"
    and "json_value fuel (c\<lparr>jp := t @ w4 @ ch # r\<rparr>) = Val (v, c\<lparr>jp := w4 @ ch # r\<rparr>)"
  shows "object_loop (Suc fuel) c ms =
    (if ch = c_comma then object_loop fuel (c\<lparr>jp := r\<rparr>) (ms @ [(k, v)])
     else if ch = c_rbrace then Val (JObject (ms @ [(k, v)]), c\<lparr>jp := r, jdepth := jdepth c - 1\<rparr>)
     else Null)"
proof -
  let ?p1 = "c_quote # raw @ c_quote # w2 @ c_colon # w3 @ t @ w4 @ ch # r"
  have 1: "json_skip_ws c = c\<lparr>jp := ?p1\<rparr>"
    by (rule skip_ws_to [OF assms(1,2)]) simp_all
  have 2: "json_string_raw (c\<lparr>jp := ?p1\<rparr>) = Some (k, c\<lparr>jp := w2 @ c_colon # w3 @ t @ w4 @ ch # r\<rparr>)"
    using json_string_raw_complete [OF assms(3), of "c\<lparr>jp := ?p1\<rparr>"] assms(7) by simp
  have 3: "json_skip_ws (c\<lparr>jp := w2 @ c_colon # w3 @ t @ w4 @ ch # r\<rparr>) = c\<lparr>jp := c_colon # w3 @ t @ w4 @ ch # r\<rparr>"
    using skip_ws_to [of "c\<lparr>jp := w2 @ c_colon # w3 @ t @ w4 @ ch # r\<rparr>" w2 "c_colon # w3 @ t @ w4 @ ch # r"] assms(4)
    by simp
  have 4: "json_skip_ws (c\<lparr>jp := w3 @ t @ w4 @ ch # r\<rparr>) = c\<lparr>jp := t @ w4 @ ch # r\<rparr>"
    using skip_ws_to [of "c\<lparr>jp := w3 @ t @ w4 @ ch # r\<rparr>" w3 "t @ w4 @ ch # r"] assms(5,8,9) by simp
  have 5: "json_skip_ws (c\<lparr>jp := w4 @ ch # r\<rparr>) = c\<lparr>jp := ch # r\<rparr>"
    using skip_ws_to [of "c\<lparr>jp := w4 @ ch # r\<rparr>" w4 "ch # r"] assms(6,10) by simp
  show ?thesis
    using assms(7,11) 1 2 3 4 5 by (cases "ch = c_comma") (simp_all add: Let_def json_alloc_never_fails)
qed

lemma array_loop_run:
  assumes "jp c = w1 @ t @ w2 @ ch # r" "ws w1" "ws w2" "jpool c = []"
    and "t \<noteq> []" "\<not> ws [hd t]" "\<not> ws [ch]"
    and "json_value fuel (c\<lparr>jp := t @ w2 @ ch # r\<rparr>) = Val (v, c\<lparr>jp := w2 @ ch # r\<rparr>)"
  shows "array_loop (Suc fuel) c es =
    (if ch = c_comma then array_loop fuel (c\<lparr>jp := r\<rparr>) (es @ [v])
     else if ch = c_rbrack then Val (JArray (es @ [v]), c\<lparr>jp := r, jdepth := jdepth c - 1\<rparr>)
     else Null)"
proof -
  have 1: "json_skip_ws c = c\<lparr>jp := t @ w2 @ ch # r\<rparr>"
    by (rule skip_ws_to [OF assms(1,2)]) (use assms(5,6) in simp_all)
  have 2: "json_skip_ws (c\<lparr>jp := w2 @ ch # r\<rparr>) = c\<lparr>jp := ch # r\<rparr>"
    using skip_ws_to [of "c\<lparr>jp := w2 @ ch # r\<rparr>" w2 "ch # r"] assms(3,7) by simp
  show ?thesis
    using assms(4,8) 2 by (cases "ch = c_comma") (simp_all add: Let_def 1 json_alloc_never_fails)
qed

lemma json_object_run:
  assumes "jp c = c_lbrace # p" "jpool c = []" "jdepth c < 32"
    "\<forall>r. skip_ws_loop p \<noteq> c_rbrace # r"
  shows "json_object (Suc fuel) c = object_loop fuel (c\<lparr>jp := p, jdepth := jdepth c + 1\<rparr>) []"
proof -
  have "json_object (Suc fuel) c = object_loop fuel (json_skip_ws (c\<lparr>jp := p, jdepth := jdepth c + 1\<rparr>)) []"
    using assms by (auto simp: Let_def json_alloc_never_fails json_skip_ws_def split: list.splits)
  then show ?thesis by (simp only: object_loop_skip)
qed

lemma json_array_run:
  assumes "jp c = c_lbrack # p" "jpool c = []" "jdepth c < 32"
    "\<forall>r. skip_ws_loop p \<noteq> c_rbrack # r"
  shows "json_array (Suc fuel) c = array_loop fuel (c\<lparr>jp := p, jdepth := jdepth c + 1\<rparr>) []"
proof -
  have "json_array (Suc fuel) c = array_loop fuel (json_skip_ws (c\<lparr>jp := p, jdepth := jdepth c + 1\<rparr>)) []"
    using assms by (auto simp: Let_def json_alloc_never_fails json_skip_ws_def split: list.splits)
  then show ?thesis by (simp only: array_loop_skip)
qed

lemma jmembers_hd: "jmembers n t ms \<Longrightarrow> \<exists>p. skip_ws_loop (t @ r) = c_quote # p"
  by (erule jmembers.cases) (auto simp: skip_ws_loop_append)

lemma jelems_hd: "jelems n t es \<Longrightarrow> \<exists>c p. skip_ws_loop (t @ r) = c # p \<and> c \<noteq> c_rbrack"
  by (erule jelems.cases) (auto simp: skip_ws_loop_append neq_Nil_conv dest!: jval_hd)

text \<open>
  Rule induction: from any context whose pool never fails and whose depth leaves room for
  the nesting, the parser consumes exactly the text and returns its value.  The fuel is
  three steps for each byte that is left.
\<close>

lemma json_complete:
  "jval n t v \<Longrightarrow> jp c = t @ r \<Longrightarrow> jpool c = [] \<Longrightarrow> jdepth c + n \<le> 32 \<Longrightarrow> follow r \<Longrightarrow>
     3 * length (jp c) + 1 \<le> fuel \<Longrightarrow> json_value fuel c = Val (v, c\<lparr>jp := r\<rparr>)"
  "jmembers n t ms \<Longrightarrow> jp c = t @ c_rbrace # r \<Longrightarrow> jpool c = [] \<Longrightarrow> jdepth c + n \<le> 32 \<Longrightarrow>
     3 * length (jp c) + 2 \<le> fuel \<Longrightarrow>
     object_loop fuel c ms0 = Val (JObject (ms0 @ ms), c\<lparr>jp := r, jdepth := jdepth c - 1\<rparr>)"
  "jelems n t es \<Longrightarrow> jp c = t @ c_rbrack # r \<Longrightarrow> jpool c = [] \<Longrightarrow> jdepth c + n \<le> 32 \<Longrightarrow>
     3 * length (jp c) + 2 \<le> fuel \<Longrightarrow>
     array_loop fuel c es0 = Val (JArray (es0 @ es), c\<lparr>jp := r, jdepth := jdepth c - 1\<rparr>)"
proof (induction arbitrary: c r fuel and c r fuel ms0 and c r fuel es0 rule: jval_jmembers_jelems.inducts)
  case (jstring raw s n)
  then obtain f where f: "fuel = Suc f" by (cases fuel) auto
  with jstring show ?case
    using json_string_raw_complete [OF jstring(1), of c r] by (simp add: json_alloc_never_fails)
next
  case (jnumber t n)
  then obtain f where f: "fuel = Suc f" by (cases fuel) auto
  obtain ch p where t: "t = ch # p" "ch = 0x2d \<or> is_digit ch"
    using number_tok_hd [OF jnumber(1)] by (cases t) auto
  have "json_number c = Some (JNumber t, c\<lparr>jp := r\<rparr>)"
    using jnumber by (intro json_number_complete) (auto simp: follow_def)
  with f t jnumber show ?case by (auto simp: is_digit_def)
next
  case (jtrue n)
  then obtain f where f: "fuel = Suc f" by (cases fuel) auto
  with jtrue json_literal_complete [of "str ''true''" _ c r] show ?case by (simp add: literals_def)
next
  case (jfalse n)
  then obtain f where f: "fuel = Suc f" by (cases fuel) auto
  with jfalse json_literal_complete [of "str ''false''" _ c r] show ?case by (simp add: literals_def)
next
  case (jnull n)
  then obtain f where f: "fuel = Suc f" by (cases fuel) auto
  with jnull json_literal_complete [of "str ''null''" _ c r] show ?case by (simp add: literals_def)
next
  case (jempty_object w n)
  then obtain f where f: "fuel = Suc (Suc f)" by (cases fuel; cases "fuel - 1") auto
  from jempty_object f show ?case
    by (simp add: Let_def json_alloc_never_fails json_skip_ws_def skip_ws_loop_append)
next
  case (jempty_array w n)
  then obtain f where f: "fuel = Suc (Suc f)" by (cases fuel; cases "fuel - 1") auto
  from jempty_array f show ?case
    by (simp add: Let_def json_alloc_never_fails json_skip_ws_def skip_ws_loop_append)
next
  case (jobject n t ms)
  then obtain f where f: "fuel = Suc (Suc f)" by (cases fuel; cases "fuel - 1") auto
  let ?c = "c\<lparr>jp := t @ c_rbrace # r, jdepth := jdepth c + 1\<rparr>"
  have "\<forall>q. skip_ws_loop (t @ c_rbrace # r) \<noteq> c_rbrace # q"
    using jmembers_hd [OF jobject(1), of "c_rbrace # r"] by auto
  then have "json_object (Suc f) c = object_loop f ?c []"
    using jobject.prems by (intro json_object_run) auto
  moreover have "object_loop f ?c [] = Val (JObject ([] @ ms), ?c\<lparr>jp := r, jdepth := jdepth ?c - 1\<rparr>)"
    using jobject.prems f by (intro jobject.IH) auto
  ultimately show ?case using jobject.prems f by simp
next
  case (jarray n t es)
  then obtain f where f: "fuel = Suc (Suc f)" by (cases fuel; cases "fuel - 1") auto
  let ?c = "c\<lparr>jp := t @ c_rbrack # r, jdepth := jdepth c + 1\<rparr>"
  have "\<forall>q. skip_ws_loop (t @ c_rbrack # r) \<noteq> c_rbrack # q"
    using jelems_hd [OF jarray(1), of "c_rbrack # r"] by auto
  then have "json_array (Suc f) c = array_loop f ?c []"
    using jarray.prems by (intro json_array_run) auto
  moreover have "array_loop f ?c [] = Val (JArray ([] @ es), ?c\<lparr>jp := r, jdepth := jdepth ?c - 1\<rparr>)"
    using jarray.prems f by (intro jarray.IH) auto
  ultimately show ?case using jarray.prems f by simp
next
  case (jmember w1 raw k w2 w3 n t v w4)
  then obtain f where f: "fuel = Suc f" by (cases fuel) auto
  have "json_value f (c\<lparr>jp := t @ w4 @ c_rbrace # r\<rparr>) = Val (v, (c\<lparr>jp := t @ w4 @ c_rbrace # r\<rparr>)\<lparr>jp := w4 @ c_rbrace # r\<rparr>)"
    using jmember.prems f jmember(6) by (intro jmember.IH) (auto intro: follow_ws)
  with object_loop_run [of c w1 raw w2 w3 t w4 c_rbrace r k f v ms0] jval_hd [OF jmember(5)] jmember f
  show ?case by simp
next
  case (jmember_more w1 raw k w2 w3 n t v w4 t' ms)
  then obtain f where f: "fuel = Suc f" by (cases fuel) auto
  let ?r = "t' @ c_rbrace # r"
  have "json_value f (c\<lparr>jp := t @ w4 @ c_comma # ?r\<rparr>) = Val (v, (c\<lparr>jp := t @ w4 @ c_comma # ?r\<rparr>)\<lparr>jp := w4 @ c_comma # ?r\<rparr>)"
    using jmember_more.prems f jmember_more(6) by (intro jmember_more.IH(1)) (auto intro: follow_ws)
  moreover have "object_loop f (c\<lparr>jp := ?r\<rparr>) (ms0 @ [(k, v)]) =
      Val (JObject ((ms0 @ [(k, v)]) @ ms), (c\<lparr>jp := ?r\<rparr>)\<lparr>jp := r, jdepth := jdepth (c\<lparr>jp := ?r\<rparr>) - 1\<rparr>)"
    using jmember_more.prems f by (intro jmember_more.IH(2)) auto
  ultimately show ?case
    using object_loop_run [of c w1 raw w2 w3 t w4 c_comma ?r k f v ms0] jval_hd [OF jmember_more(5)] jmember_more f
    by simp
next
  case (jelem w1 n t v w2)
  then obtain f where f: "fuel = Suc f" by (cases fuel) auto
  have "json_value f (c\<lparr>jp := t @ w2 @ c_rbrack # r\<rparr>) = Val (v, (c\<lparr>jp := t @ w2 @ c_rbrack # r\<rparr>)\<lparr>jp := w2 @ c_rbrack # r\<rparr>)"
    using jelem.prems f jelem(3) by (intro jelem.IH) (auto intro: follow_ws)
  with array_loop_run [of c w1 t w2 c_rbrack r f v es0] jval_hd [OF jelem(2)] jelem f
  show ?case by simp
next
  case (jelem_more w1 n t v w2 t' es)
  then obtain f where f: "fuel = Suc f" by (cases fuel) auto
  let ?r = "t' @ c_rbrack # r"
  have "json_value f (c\<lparr>jp := t @ w2 @ c_comma # ?r\<rparr>) = Val (v, (c\<lparr>jp := t @ w2 @ c_comma # ?r\<rparr>)\<lparr>jp := w2 @ c_comma # ?r\<rparr>)"
    using jelem_more.prems f jelem_more(3) by (intro jelem_more.IH(1)) (auto intro: follow_ws)
  moreover have "array_loop f (c\<lparr>jp := ?r\<rparr>) (es0 @ [v]) =
      Val (JArray ((es0 @ [v]) @ es), (c\<lparr>jp := ?r\<rparr>)\<lparr>jp := r, jdepth := jdepth (c\<lparr>jp := ?r\<rparr>) - 1\<rparr>)"
    using jelem_more.prems f by (intro jelem_more.IH(2)) auto
  ultimately show ?case
    using array_loop_run [of c w1 t w2 c_comma ?r f v es0] jval_hd [OF jelem_more(2)] jelem_more f by simp
qed

subsection \<open>The fuel is enough\<close>

lemma json_value_progress:
  "json_value fuel c = Val (v, c') \<Longrightarrow> jdepth c \<le> 32 \<Longrightarrow> length (jp c') < length (jp c) \<and> jdepth c' = jdepth c"
  using json_sound(1) [of fuel c v c'] jval_hd by fastforce

lemma skip_ws_length: "length (jp (json_skip_ws c)) \<le> length (jp c)"
  using skip_ws_split [of c] by (metis le_add2 length_append)

lemma json_string_raw_progress:
  "json_string_raw c = Some (s, c1) \<Longrightarrow> length (jp c1) < length (jp c) \<and> jdepth c1 = jdepth c"
  using json_string_raw_sound [of c s c1] by (cases "jp c") auto

lemma object_loop_fuel_step:
  assumes "jdepth c \<le> 32" "3 * length (jp c) + 2 \<le> Suc fuel"
    and val: "\<And>d. jdepth d \<le> 32 \<Longrightarrow> 3 * length (jp d) + 1 \<le> fuel \<Longrightarrow> json_value fuel d \<noteq> Out_Of_Fuel"
    and loop: "\<And>d ms. jdepth d \<le> 32 \<Longrightarrow> 3 * length (jp d) + 2 \<le> fuel \<Longrightarrow> object_loop fuel d ms \<noteq> Out_Of_Fuel"
  shows "object_loop (Suc fuel) c ms \<noteq> Out_Of_Fuel"
proof
  assume oof: "object_loop (Suc fuel) c ms = Out_Of_Fuel"
  let ?c1 = "json_skip_ws c"
  obtain c2 where c2: "json_alloc ?c1 = (True, c2)" "jp ?c1 \<noteq> []" "hd (jp ?c1) = c_quote"
    using oof by (auto simp: Let_def split: if_splits prod.splits bool.splits)
  then obtain name c3 where c3: "json_string_raw c2 = Some (name, c3)"
    using oof by (auto simp: Let_def split: option.splits)
  let ?c4 = "json_skip_ws c3"
  have c4: "jp ?c4 \<noteq> []" "hd (jp ?c4) = c_colon"
    using oof c2 c3 by (auto simp: Let_def split: if_splits)
  let ?d4 = "json_skip_ws (?c4\<lparr>jp := tl (jp ?c4)\<rparr>)"
  have "length (jp ?d4) < length (jp c)" "jdepth ?d4 = jdepth c"
    using skip_ws_length [of "?c4\<lparr>jp := tl (jp ?c4)\<rparr>"] skip_ws_length [of c3] skip_ws_length [of c]
      json_string_raw_progress [OF c3] json_alloc_eq [OF c2(1)] by auto
  with assms(1,2) have d4: "jdepth ?d4 \<le> 32" "3 * length (jp ?d4) + 1 \<le> fuel" "length (jp ?d4) < length (jp c)"
    by auto
  with val obtain m c5 where c5: "json_value fuel ?d4 = Val (m, c5)"
    using oof c2 c3 c4 by (auto simp: Let_def split: jres.splits)
  let ?c6 = "json_skip_ws c5"
  obtain p where "jp ?c6 = c_comma # p" "object_loop fuel (?c6\<lparr>jp := p\<rparr>) (ms @ [(name, m)]) = Out_Of_Fuel"
    using oof c2 c3 c4 c5 by (auto simp: Let_def split: list.splits if_splits)
  moreover from this have "jdepth (?c6\<lparr>jp := p\<rparr>) \<le> 32" "3 * length (jp (?c6\<lparr>jp := p\<rparr>)) + 2 \<le> fuel"
    using json_value_progress [OF c5 d4(1)] skip_ws_length [of c5] d4 assms(2) by auto
  ultimately show False using loop by blast
qed

lemma array_loop_fuel_step:
  assumes "jdepth c \<le> 32" "3 * length (jp c) + 2 \<le> Suc fuel"
    and val: "\<And>d. jdepth d \<le> 32 \<Longrightarrow> 3 * length (jp d) + 1 \<le> fuel \<Longrightarrow> json_value fuel d \<noteq> Out_Of_Fuel"
    and loop: "\<And>d es. jdepth d \<le> 32 \<Longrightarrow> 3 * length (jp d) + 2 \<le> fuel \<Longrightarrow> array_loop fuel d es \<noteq> Out_Of_Fuel"
  shows "array_loop (Suc fuel) c es \<noteq> Out_Of_Fuel"
proof
  assume oof: "array_loop (Suc fuel) c es = Out_Of_Fuel"
  let ?c1 = "json_skip_ws c"
  obtain c2 where c2: "json_alloc ?c1 = (True, c2)"
    using oof by (auto simp: Let_def split: if_splits prod.splits bool.splits)
  have "length (jp c2) \<le> length (jp c)" "jdepth c2 = jdepth c"
    using skip_ws_length [of c] json_alloc_eq [OF c2(1)] by auto
  with assms(1,2) have d4: "jdepth c2 \<le> 32" "3 * length (jp c2) + 1 \<le> fuel" "length (jp c2) \<le> length (jp c)"
    by auto
  with val obtain m c5 where c5: "json_value fuel c2 = Val (m, c5)"
    using oof c2 by (auto simp: Let_def split: jres.splits)
  let ?c6 = "json_skip_ws c5"
  obtain p where "jp ?c6 = c_comma # p" "array_loop fuel (?c6\<lparr>jp := p\<rparr>) (es @ [m]) = Out_Of_Fuel"
    using oof c2 c5 by (auto simp: Let_def split: list.splits if_splits)
  moreover from this have "jdepth (?c6\<lparr>jp := p\<rparr>) \<le> 32" "3 * length (jp (?c6\<lparr>jp := p\<rparr>)) + 2 \<le> fuel"
    using json_value_progress [OF c5 d4(1)] skip_ws_length [of c5] d4 assms(2) by auto
  ultimately show False using loop by blast
qed

lemma json_object_fuel:
  assumes "jp c = ch # p" "3 * length (jp c) \<le> fuel"
    and loop: "\<And>f d ms. fuel = Suc f \<Longrightarrow> jdepth d \<le> 32 \<Longrightarrow> 3 * length (jp d) + 2 \<le> f \<Longrightarrow>
      object_loop f d ms \<noteq> Out_Of_Fuel"
  shows "json_object fuel c \<noteq> Out_Of_Fuel"
proof
  assume oof: "json_object fuel c = Out_Of_Fuel"
  from assms obtain f where f: "fuel = Suc f" by (cases fuel) auto
  obtain c1 where c1: "json_alloc (c\<lparr>jdepth := jdepth c + 1\<rparr>) = (True, c1)" "jdepth c < 32"
    using oof by (auto simp: f Let_def split: if_splits prod.splits bool.splits)
  let ?c2 = "json_skip_ws (c1\<lparr>jp := tl (jp c1)\<rparr>)"
  have "object_loop f ?c2 [] = Out_Of_Fuel"
    using oof c1 by (auto simp: f Let_def split: list.splits if_splits)
  moreover have "jdepth ?c2 \<le> 32" "3 * length (jp ?c2) + 2 \<le> f"
    using c1 json_alloc_eq [OF c1(1)] skip_ws_length [of "c1\<lparr>jp := tl (jp c1)\<rparr>"] assms(1,2) f by auto
  ultimately show False using loop [OF f] by blast
qed

lemma json_array_fuel:
  assumes "jp c = ch # p" "3 * length (jp c) \<le> fuel"
    and loop: "\<And>f d es. fuel = Suc f \<Longrightarrow> jdepth d \<le> 32 \<Longrightarrow> 3 * length (jp d) + 2 \<le> f \<Longrightarrow>
      array_loop f d es \<noteq> Out_Of_Fuel"
  shows "json_array fuel c \<noteq> Out_Of_Fuel"
proof
  assume oof: "json_array fuel c = Out_Of_Fuel"
  from assms obtain f where f: "fuel = Suc f" by (cases fuel) auto
  obtain c1 where c1: "json_alloc (c\<lparr>jdepth := jdepth c + 1\<rparr>) = (True, c1)" "jdepth c < 32"
    using oof by (auto simp: f Let_def split: if_splits prod.splits bool.splits)
  let ?c2 = "json_skip_ws (c1\<lparr>jp := tl (jp c1)\<rparr>)"
  have "array_loop f ?c2 [] = Out_Of_Fuel"
    using oof c1 by (auto simp: f Let_def split: list.splits if_splits)
  moreover have "jdepth ?c2 \<le> 32" "3 * length (jp ?c2) + 2 \<le> f"
    using c1 json_alloc_eq [OF c1(1)] skip_ws_length [of "c1\<lparr>jp := tl (jp c1)\<rparr>"] assms(1,2) f by auto
  ultimately show False using loop [OF f] by blast
qed

lemma json_fuel:
  "jdepth c \<le> 32 \<Longrightarrow> 3 * length (jp c) + 1 \<le> fuel \<Longrightarrow> json_value fuel c \<noteq> Out_Of_Fuel"
  "jdepth c \<le> 32 \<Longrightarrow> 3 * length (jp c) + 2 \<le> fuel \<Longrightarrow> object_loop fuel c ms \<noteq> Out_Of_Fuel"
  "jdepth c \<le> 32 \<Longrightarrow> 3 * length (jp c) + 2 \<le> fuel \<Longrightarrow> array_loop fuel c es \<noteq> Out_Of_Fuel"
proof (induction fuel arbitrary: c ms es rule: less_induct)
  case (less fuel)
  {
    case 1
    then obtain f where f: "fuel = Suc f" by (cases fuel) auto
    show ?case
    proof (cases "jp c")
      case (Cons ch p)
      have "json_object f c \<noteq> Out_Of_Fuel" "json_array f c \<noteq> Out_Of_Fuel"
        using 1 f less(2,3) by (intro json_object_fuel [OF Cons] json_array_fuel [OF Cons]; simp)+
      with Cons f show ?thesis by (auto split: prod.splits bool.splits)
    qed (simp add: f)
  next
    case 2
    then obtain f where f: "fuel = Suc f" by (cases fuel) auto
    show ?case unfolding f using 2 f less(1,2) by (intro object_loop_fuel_step) auto
  next
    case 3
    then obtain f where f: "fuel = Suc f" by (cases fuel) auto
    show ?case unfolding f using 3 f less(1,3) by (intro array_loop_fuel_step) auto
  }
qed

section \<open>The parser against the grammar\<close>

lemma json_parse_not_fuel: "json_parse pool d \<noteq> Out_Of_Fuel"
proof (cases "d = []")
  case False
  let ?c = "json_skip_ws \<lparr>jp = d, jpool = pool, jdepth = 0\<rparr>"
  have "3 * length (jp ?c) + 1 \<le> 3 * length d + 1"
    using skip_ws_length [of "\<lparr>jp = d, jpool = pool, jdepth = 0\<rparr>"] by simp
  then have "json_value (3 * length d + 1) ?c \<noteq> Out_Of_Fuel"
    by (intro json_fuel) simp_all
  with False show ?thesis by (auto simp: json_parse_def Let_def split: jres.splits)
qed (simp add: json_parse_def)

lemma json_parse_sound: "json_parse pool d = Val v \<Longrightarrow> json_text 32 d v"
proof -
  assume p: "json_parse pool d = Val v"
  let ?c = "json_skip_ws \<lparr>jp = d, jpool = pool, jdepth = 0\<rparr>"
  from p obtain c1 where c1: "json_value (3 * length d + 1) ?c = Val (v, c1)" "jp (json_skip_ws c1) = []"
    by (auto simp: json_parse_def Let_def split: if_splits jres.splits prod.splits)
  from json_sound(1) [OF c1(1)] obtain t where "jp ?c = t @ jp c1" "jval 32 t v" by auto
  moreover obtain w1 where "d = w1 @ jp ?c" "ws w1"
    using skip_ws_split [of "\<lparr>jp = d, jpool = pool, jdepth = 0\<rparr>"] by auto
  moreover obtain w2 where "jp c1 = w2" "ws w2"
    using skip_ws_split [of c1] c1(2) by auto
  ultimately show ?thesis by (auto simp: json_text_def)
qed

lemma json_parse_complete: "json_text 32 d v \<Longrightarrow> json_parse [] d = Val v"
proof -
  assume "json_text 32 d v"
  then obtain w1 t w2 where d: "d = w1 @ t @ w2" "ws w1" "ws w2" "jval 32 t v"
    by (auto simp: json_text_def)
  let ?c0 = "\<lparr>jp = d, jpool = [], jdepth = 0\<rparr>"
  have c: "json_skip_ws ?c0 = ?c0\<lparr>jp := t @ w2\<rparr>"
    using jval_hd [OF d(4)] d by (intro skip_ws_to [of _ w1]) auto
  have "json_value (3 * length d + 1) (?c0\<lparr>jp := t @ w2\<rparr>) = Val (v, (?c0\<lparr>jp := t @ w2\<rparr>)\<lparr>jp := w2\<rparr>)"
    by (rule json_complete(1) [OF d(4)]) (use d follow_ws [OF d(3), of "[]"] in simp_all)
  moreover have "skip_ws_loop w2 = []" using skip_ws_loop_append [OF d(3), of "[]"] by simp
  moreover have "d \<noteq> []" using jval_hd [OF d(4)] d(1) by simp
  ultimately show ?thesis by (simp add: json_parse_def c) (simp add: json_skip_ws_def)
qed


text \<open>
  Claim C14.  For every input and every pattern of allocation failures the parser ends,
  and an allocation failure can only turn its result into NULL: it never returns a value
  different from the one it would have returned, nor a value for a text that is not JSON.
\<close>

theorem json_parse_total:
  "json_parse pool d = Null \<or> (\<exists>v. json_parse pool d = Val v \<and> json_parse [] d = Val v)"
  using json_parse_not_fuel [of pool d] json_parse_sound json_parse_complete by (cases "json_parse pool d") auto

text \<open>
  Claim C15.  The decode buffer is never overrun.  The buffer of a string has the size
  that the pre-scan found; whatever bytes follow the opening quote, the decode loop writes
  at most that many, also when it stops at an error, and when it succeeds it stops right
  after the closing quote that the pre-scan found.
\<close>

theorem json_string_no_overflow:
  assumes "string_span p = Some span" "string_loop p [] = (dst, res)"
  shows "length dst \<le> span \<and> (\<forall>rest. res = Some rest \<longrightarrow> rest = drop (span + 1) p)"
proof -
  have "length dst \<le> span" using string_loop_bound [OF assms(1), of "[]"] assms(2) by simp
  moreover have "rest = drop (span + 1) p" if "res = Some rest" for rest
  proof -
    from assms(2) that string_loop_sound [of p "[]"] obtain raw s where
      "p = raw @ c_quote # rest" "str_body raw s" by auto
    with string_span_complete [of raw s rest] assms(1) show ?thesis by simp
  qed
  ultimately show ?thesis by blast
qed

theorem json_string_no_overflow_witness:
  "string_span (str ''a'' @ [0x5c] @ str ''u00e9'' @ [0x22, 0x7d]) = Some 7 \<and>
   length (fst (string_loop (str ''a'' @ [0x5c] @ str ''u00e9'' @ [0x22, 0x7d]) [])) \<le> 7"
proof -
  let ?p = "str ''a'' @ [0x5c] @ str ''u00e9'' @ [0x22, 0x7d]"
  have "string_span ?p = Some 7" by code_simp
  moreover obtain dst res where "string_loop ?p [] = (dst, res)" by force
  ultimately show ?thesis using json_string_no_overflow [of ?p 7 dst res] by simp
qed

section \<open>Round trip\<close>

text \<open>
  A printer: control characters, quotes and backslashes are escaped, every other byte is
  written as it is.
\<close>

definition hex_digit :: "nat \<Rightarrow> byte" where
  "hex_digit k = (if k < 10 then word_of_nat (0x30 + k) else word_of_nat (0x57 + k))"

definition escape_char :: "byte \<Rightarrow> bytes" where
  "escape_char c =
     (if c = c_quote \<or> c = c_backslash then [c_backslash, c]
      else if c < 0x20 then [c_backslash, 0x75, 0x30, 0x30, hex_digit (unat c div 16), hex_digit (unat c mod 16)]
      else [c])"

definition print_string :: "bytes \<Rightarrow> bytes" where
  "print_string s = c_quote # concat (map escape_char s) @ [c_quote]"

fun json_print :: "json \<Rightarrow> bytes"
  and print_members :: "(bytes \<times> json) list \<Rightarrow> bytes"
  and print_elems :: "json list \<Rightarrow> bytes"
where
  "json_print JNull = str ''null''"
| "json_print (JBool True) = str ''true''"
| "json_print (JBool False) = str ''false''"
| "json_print (JNumber t) = t"
| "json_print (JString s) = print_string s"
| "json_print (JArray es) = c_lbrack # print_elems es @ [c_rbrack]"
| "json_print (JObject ms) = c_lbrace # print_members ms @ [c_rbrace]"
| "print_members [] = []"
| "print_members [(k, v)] = print_string k @ c_colon # json_print v"
| "print_members ((k, v) # m # ms) = print_string k @ c_colon # json_print v @ c_comma # print_members (m # ms)"
| "print_elems [] = []"
| "print_elems [v] = json_print v"
| "print_elems (v # e # es) = json_print v @ c_comma # print_elems (e # es)"

text \<open>Nesting at most \<open>n\<close>, and every number is a number token.\<close>

fun printable :: "nat \<Rightarrow> json \<Rightarrow> bool" where
  "printable n (JNumber t) = number_tok t"
| "printable n (JArray es) = (0 < n \<and> (\<forall>e \<in> set es. printable (n - 1) e))"
| "printable n (JObject ms) = (0 < n \<and> (\<forall>(k, v) \<in> set ms. printable (n - 1) v))"
| "printable n _ = True"

lemma hex_val_digit: "k < 16 \<Longrightarrow> hex_val (hex_digit k) = Some k"
proof -
  assume k: "k < 16"
  have "unat (hex_digit k) = (if k < 10 then 0x30 + k else 0x57 + k)"
    using k unfolding hex_digit_def by (simp only: unat_of_nat if_distrib [of unat]) simp
  with k show ?thesis by (auto simp: hex_val_def byte_class_unat word_le_nat_alt)
qed

lemma escape_char_body: "str_body r s \<Longrightarrow> str_body (escape_char c @ r) (c # s)"
proof -
  assume rs: "str_body r s"
  consider "c = c_quote \<or> c = c_backslash" | "c \<noteq> c_quote" "c \<noteq> c_backslash" "c < 0x20" | "c \<noteq> c_quote" "c \<noteq> c_backslash" "0x20 \<le> c"
    by fastforce
  then show ?thesis
  proof cases
    case 1
    then show ?thesis using str_body.escape [OF _ rs, of c c] by (auto simp: escape_char_def escape_byte_def)
  next
    case 2
    let ?ds = "[0x30, 0x30, hex_digit (unat c div 16), hex_digit (unat c mod 16)]"
    have lt: "unat c < 32" using 2(3) by (simp add: word_less_nat_alt)
    then have h: "hex4_val ?ds = Some (unat c)"
      using hex_val_digit [of "unat c div 16"] hex_val_digit [of "unat c mod 16"] hex_val_digit [of 0]
      by (simp add: hex4_val_def hex_digit_def [of 0])
    have "utf8_enc (unat c) = [c]" using lt by (simp add: utf8_enc_def)
    with str_body.unicode [OF h _ _ rs] lt 2 show ?thesis
      by (simp add: escape_char_def high_surrogate_def low_surrogate_def)
  next
    case 3
    then have "escape_char c = [c]" by (auto simp: escape_char_def)
    with 3 show ?thesis using str_body.plain [OF _ _ _ rs, of c] by simp
  qed
qed

lemma print_string_body: "str_body (concat (map escape_char s)) s"
  by (induction s) (auto intro: str_body.empty escape_char_body)

lemma json_print_grammar:
  "printable n v \<Longrightarrow> jval n (json_print v) v"
  "ms \<noteq> [] \<Longrightarrow> \<forall>(k, v) \<in> set ms. printable n v \<Longrightarrow> jmembers n (print_members ms) ms"
  "es \<noteq> [] \<Longrightarrow> \<forall>e \<in> set es. printable n e \<Longrightarrow> jelems n (print_elems es) es"
proof (induction v and ms and es arbitrary: n and n and n rule: json_print_print_members_print_elems.induct)
  case (5 s)
  then show ?case using jstring [OF print_string_body, of n s] by (simp add: print_string_def)
next
  case (6 es)
  from 6(2) have "0 < n" by simp
  then obtain m where n: "n = Suc m" by (cases n) auto
  show ?case
  proof (cases "es = []")
    case True
    then show ?thesis using jempty_array [of "[]" m] n by simp
  next
    case False
    with 6 n jarray show ?thesis by simp
  qed
next
  case (7 ms)
  from 7(2) have "0 < n" by simp
  then obtain m where n: "n = Suc m" by (cases n) auto
  show ?case
  proof (cases "ms = []")
    case True
    then show ?thesis using jempty_object [of "[]" m] n by simp
  next
    case False
    with 7 n jobject show ?thesis by simp
  qed
next
  case (9 k v)
  then show ?case
    using jmember [of "[]" _ k "[]" "[]" n _ v "[]", OF _ print_string_body] by (simp add: print_string_def)
next
  case (10 k v m ms)
  then show ?case
    using jmember_more [of "[]" _ k "[]" "[]" n _ v "[]", OF _ print_string_body] by (simp add: print_string_def)
next
  case (12 v)
  then show ?case using jelem [of "[]" n _ v "[]"] by simp
next
  case (13 v e es)
  then show ?case using jelem_more [of "[]" n _ v "[]"] by simp
qed (auto intro: jnumber jtrue [simplified] jfalse [simplified] jnull [simplified])

text \<open>
  Claim C16.  Every value of nesting at most 32, with any bytes in its strings and keys and
  any number tokens, survives printing and parsing.
\<close>

theorem json_round_trip: "printable 32 v \<Longrightarrow> json_parse [] (json_print v) = Val v"
  using json_print_grammar(1) [of 32 v] unfolding json_text_def
  by (intro json_parse_complete [unfolded json_text_def] exI [of _ "[]"] exI [of _ "json_print v"]) simp

theorem json_round_trip_witness:
  "json_parse [] (json_print (JObject [(str ''a'', JArray [JNumber (str ''12''), JString [0x22, 0x0a, 0xff]])])) =
     Val (JObject [(str ''a'', JArray [JNumber (str ''12''), JString [0x22, 0x0a, 0xff]])])"
proof (rule json_round_trip)
  have "number_tok (str ''12'')"
    using number_tok.intros [of "[]" "str ''12''" "[]" "[]"] by (simp add: digits1_def is_digit_def)
  then show "printable 32 (JObject [(str ''a'', JArray [JNumber (str ''12''), JString [0x22, 0x0a, 0xff]])])"
    by simp
qed

section \<open>Accessors\<close>

lemma number_int_loop_eq:
  assumes "int (decimal ds) \<le> NGX_MAX_INT"
  shows "number_int_loop cs (int (decimal ds)) =
    (if list_all is_digit cs \<and> int (decimal (ds @ cs)) \<le> NGX_MAX_INT
     then Some (int (decimal (ds @ cs))) else None)"
  using assms
proof (induction cs arbitrary: ds)
  case (Cons c cs)
  show ?case
  proof (cases "is_digit c")
    case False
    then show ?thesis by (auto simp: is_digit_def not_le)
  next
    case dig: True
    then have range: "\<not> (c < 0x30 \<or> c > 0x39)" by (auto simp: is_digit_def not_less)
    have "uint (c - 0x30) = int (digit_val c)" by (simp add: digit_val_def)
    then have d: "uint (c - 0x30) = int (digit_val c)" "int (decimal ds) * 10 + uint (c - 0x30) = int (decimal (ds @ [c]))"
      by simp_all
    show ?thesis
    proof (cases "int (decimal (ds @ [c])) \<le> NGX_MAX_INT")
      case True
      with d have "\<not> int (decimal ds) > (NGX_MAX_INT - uint (c - 0x30)) div 10" by simp
      with range d Cons.IH [OF True] dig show ?thesis by simp
    next
      case False
      with d have "int (decimal ds) > (NGX_MAX_INT - uint (c - 0x30)) div 10" by simp
      moreover have "decimal (ds @ [c]) \<le> decimal (ds @ c # cs)"
        using decimal_append_ge [of "ds @ [c]" cs] by simp
      ultimately show ?thesis using range False by simp
    qed
  qed
qed simp

text \<open>
  The integer accessor reads exactly the non-negative decimal integers that
  fit a signed 64-bit integer: any other token (a sign, a fraction, an exponent, a value
  above \<open>2 ^ 63 - 1\<close>) is refused, and no intermediate value overflows.
\<close>

theorem json_number_int_correct:
  "json_number_int (Some (JNumber tok)) =
     (if tok \<noteq> [] \<and> list_all is_digit tok \<and> decimal tok < 2 ^ 63 then Some (int (decimal tok)) else None)"
  using number_int_loop_eq [of "[]" tok] by (auto simp: json_number_int_def)

lemma member_loop_map_of: "0 \<notin> set key \<Longrightarrow> member_loop key ms = map_of ms key"
proof (induction ms)
  case (Cons m ms)
  obtain name v where m: "m = (name, v)" by force
  have "length name = length key \<and> strncmp_eq name key (length key) \<longleftrightarrow> name = key"
    using strncmp_eq_nul_free [OF Cons.prems, of "length key" name] by auto
  with Cons m show ?case by simp
qed simp

text \<open>
  Lookup by a key that has no NUL byte compares the whole key, whatever
  bytes the document's keys have, and takes the first of several equal keys: a later
  duplicate never overrides an earlier one.
\<close>

theorem json_object_str_first_wins:
  assumes "0 \<notin> set key"
  shows "json_object_get (Some (JObject ms)) key = map_of ms key \<and>
    json_object_str (Some (JObject ms)) key =
      (case map_of ms key of
         None \<Rightarrow> (NGX_DECLINED, None)
       | Some (JString s) \<Rightarrow> (NGX_OK, Some s)
       | Some _ \<Rightarrow> (NGX_ERROR, None))"
  using member_loop_map_of [OF assms, of ms] by (simp add: json_object_get_def json_object_str_def)

theorem json_object_str_first_wins_witness:
  "json_object_str (Some (JObject [(str ''a'' @ [0], JNull), (str ''a'', JString [1]), (str ''a'', JString [2])])) (str ''a'') =
     (NGX_OK, Some [1])"
  using json_object_str_first_wins [of "str ''a''" "[(str ''a'' @ [0], JNull), (str ''a'', JString [1]), (str ''a'', JString [2])]"]
  by simp

end
