(* ===== verification/Ident.thy ===== *)
theory Ident
  imports Requests Json_Grammar
begin

text \<open>
  Identifiers (\<^verbatim>\<open>src/ngx_autocert_ident.h\<close>) and the wildcard rule of
  \<^verbatim>\<open>src/ngx_autocert_ratecap.h\<close>: which strings are issuable names, under
  which directory of the store a certificate is kept, and which configured name covers
  a host.

  The address parsers of nginx (\<^verbatim>\<open>ngx_inet_addr\<close>,
  \<^verbatim>\<open>ngx_inet6_addr\<close>) and the certificate checks of OpenSSL are parameters.
\<close>

section \<open>Classification\<close>

datatype family = AF_INET | AF_INET6 | AF_NONE

abbreviation (input) INADDR_NONE :: u32 where "INADDR_NONE \<equiv> 0xffffffff"

text \<open>
  What nginx promises of its parsers: a string that parses as an IPv4 address has only
  digits and dots and at least one digit; an IPv6 address is 16 bytes, and its text has
  no asterisk.
\<close>

record inet =
  inet_addr :: "bytes \<Rightarrow> u32"
  inet6_addr :: "bytes \<Rightarrow> bytes option"

definition inet_ok :: "inet \<Rightarrow> bool" where
  "inet_ok i \<longleftrightarrow>
     (\<forall>s. inet_addr i s \<noteq> INADDR_NONE \<longrightarrow>
        list_all (\<lambda>c. is_digit c \<or> c = c_dot) s \<and> list_ex is_digit s) \<and>
     (\<forall>s a. inet6_addr i s = Some a \<longrightarrow> length a = 16 \<and> c_star \<notin> set s)"

definition str_is_ip :: "inet \<Rightarrow> bytes \<Rightarrow> family \<times> bytes" where
  "str_is_ip i name =
     (let v4 = inet_addr i name in
      if v4 \<noteq> INADDR_NONE
         \<or> (length name = 15 \<and> strncmp_eq name (str ''255.255.255.255'') (length name))
      then (AF_INET, [])
      else (case inet6_addr i name of
              Some v6 \<Rightarrow> (AF_INET6, v6)
            | None \<Rightarrow> (AF_NONE, [])))"

section \<open>Issuable names\<close>

definition is_wild :: "bytes \<Rightarrow> bool" where
  "is_wild name \<longleftrightarrow> length name \<ge> 2 \<and> name ! 0 = c_star \<and> name ! 1 = c_dot"

text \<open>
  The scan carries the length of the current label and the byte before the cursor
  (\<^verbatim>\<open>p[-1]\<close>, which at the end is \<^verbatim>\<open>end[-1]\<close>).
\<close>

fun dns_name_loop :: "bytes \<Rightarrow> nat \<Rightarrow> byte \<Rightarrow> bool" where
  "dns_name_loop [] label_len prev = (\<not> (label_len = 0 \<or> prev = c_hyphen))"
| "dns_name_loop (c # p) label_len prev =
     (if c = c_dot then
        (if label_len = 0 then False
         else if prev = c_hyphen then False
         else dns_name_loop p 0 c)
      else if \<not> ((0x61 \<le> c \<and> c \<le> 0x7a) \<or> (0x41 \<le> c \<and> c \<le> 0x5a)
               \<or> (0x30 \<le> c \<and> c \<le> 0x39) \<or> c = c_hyphen) then False
      else if c = c_hyphen \<and> label_len = 0 then False
      else if label_len + 1 > 63 then False
      else dns_name_loop p (label_len + 1) c)"

definition dns_name_valid :: "bytes \<Rightarrow> bool" where
  "dns_name_valid name =
     (let p = (if is_wild name then drop 2 name else name) in
      if p = [] \<or> length name > 253 then False
      else dns_name_loop p 0 0)"

section \<open>Coverage by a certificate\<close>

text \<open>
  \<^verbatim>\<open>ngx_autocert_cert_covers\<close>; the two checks are OpenSSL's
  \<^verbatim>\<open>X509_check_ip_asc\<close> and \<^verbatim>\<open>X509_check_host\<close> on the leaf,
  answering whether the result is 1.  The buffer has
  \<^verbatim>\<open>NGX_INET6_ADDRSTRLEN + 1\<close> = 46 bytes.
\<close>

definition cert_covers :: "inet \<Rightarrow> (bytes \<Rightarrow> bool) \<Rightarrow> (bytes \<Rightarrow> bool) \<Rightarrow> bytes \<Rightarrow> bool" where
  "cert_covers i check_ip_asc check_host name =
     (if fst (str_is_ip i name) \<noteq> AF_NONE then
        (if length name \<ge> 46 then False else check_ip_asc name)
      else check_host name)"

section \<open>Store segments\<close>

abbreviation (input) WILDCARD_SEG :: bytes where "WILDCARD_SEG \<equiv> str ''_wildcard_.''"
abbreviation (input) IP6_SEG :: bytes where "IP6_SEG \<equiv> str ''_ip6_''"
abbreviation (input) IP6_SEG_LEN :: nat where "IP6_SEG_LEN \<equiv> 5 + 8 * 4 + 7"

definition hex_lower :: "nat \<Rightarrow> byte" where
  "hex_lower k = (if k < 10 then word_of_nat (0x30 + k) else word_of_nat (0x57 + k))"

text \<open>\<^verbatim>\<open>%04xd\<close> of a 16-bit group given by its two bytes.\<close>

definition hex_group :: "byte \<Rightarrow> byte \<Rightarrow> bytes" where
  "hex_group hi lo =
     [hex_lower (unat hi div 16), hex_lower (unat hi mod 16),
      hex_lower (unat lo div 16), hex_lower (unat lo mod 16)]"

fun ip6_groups :: "nat \<Rightarrow> bytes \<Rightarrow> bytes" where
  "ip6_groups i (hi # lo # rest) =
     (if i \<noteq> 0 then [c_hyphen] else []) @ hex_group hi lo @ ip6_groups (i + 1) rest"
| "ip6_groups i _ = []"

text \<open>The result is what is written to the buffer; \<^const>\<open>None\<close> is the return value 0.\<close>

definition fs_segment :: "inet \<Rightarrow> nat \<Rightarrow> bytes \<Rightarrow> bytes option" where
  "fs_segment i cap name =
     (if is_wild name then
        let rest = length name - 2; need = 11 + rest in
        if need > cap then None else Some (WILDCARD_SEG @ drop 2 name)
      else
        (case str_is_ip i name of
           (AF_INET6, v6) \<Rightarrow>
             if IP6_SEG_LEN > cap then None else Some (IP6_SEG @ ip6_groups 0 v6)
         | _ \<Rightarrow> if length name > cap then None else Some name))"

section \<open>Covering names\<close>

definition name_covers :: "bytes \<Rightarrow> bytes \<Rightarrow> bool" where
  "name_covers name host =
     (if length name = length host \<and> ngx_strncasecmp_eq name host (length host) then True
      else if length name \<le> 2 \<or> name ! 0 \<noteq> c_star \<or> name ! 1 \<noteq> c_dot then False
      else
        let suffix = drop 2 name in
        (case ngx_strlchr host c_dot of
           None \<Rightarrow> False
         | Some (label, rest) \<Rightarrow>
             if label = [] then False
             else length rest = length suffix \<and> ngx_strncasecmp_eq rest suffix (length rest)))"

section \<open>Validity\<close>

lemma dns_name_loop_eq:
  assumes "list_all is_ldh cur" "length cur \<le> 63" "cur \<noteq> [] \<longrightarrow> hd cur \<noteq> c_hyphen"
    and "cur \<noteq> [] \<longrightarrow> prev = last cur"
  shows "dns_name_loop cs (length cur) prev \<longleftrightarrow> labels_ok (cur @ cs)"
  using assms
proof (induction cs arbitrary: cur prev)
  case Nil
  then have "c_dot \<notin> set cur" by (simp add: ldh_no_dot)
  with Nil show ?case by (cases "cur = []") (auto simp: labels_ok_label label_ok_def)
next
  case (Cons c cs)
  then have nodot: "c_dot \<notin> set cur" by (simp add: ldh_no_dot)
  show ?case
  proof (cases "c = c_dot")
    case True
    have "label_ok cur \<longleftrightarrow> cur \<noteq> [] \<and> prev \<noteq> c_hyphen"
      using Cons.prems by (auto simp: label_ok_def)
    with True Cons.IH [of "[]" c] show ?thesis by (auto simp: labels_ok_at [OF nodot])
  next
    case False
    let ?good = "is_ldh c \<and> length cur < 63 \<and> (cur = [] \<longrightarrow> c \<noteq> c_hyphen)"
    have step: "dns_name_loop (c # cs) (length cur) prev \<longleftrightarrow>
        ?good \<and> dns_name_loop cs (length (cur @ [c])) c"
      using False by (auto simp: is_ldh_def is_lower_def is_upper_def is_digit_def)
    show ?thesis
    proof (cases ?good)
      case True
      with Cons.prems have "dns_name_loop cs (length (cur @ [c])) c \<longleftrightarrow> labels_ok ((cur @ [c]) @ cs)"
        by (intro Cons.IH) (auto simp: hd_append)
      with True step show ?thesis by simp
    next
      case bad: False
      have "\<not> labels_ok ((cur @ [c]) @ cs)"
        using labels_ok_prefix [of "cur @ [c]" cs] nodot False bad Cons.prems by (auto simp: hd_append)
      with bad step show ?thesis by auto
    qed
  qed
qed

lemma dns_name_valid_eq:
  "dns_name_valid name \<longleftrightarrow> length name \<le> 253 \<and> labels_ok (if is_wild name then drop 2 name else name)"
  using dns_name_loop_eq [of "[]" 0] by (auto simp: dns_name_valid_def Let_def)

text \<open>The bytes of a name whose labels are good.\<close>

lemma labels_ok_bytes: "labels_ok h \<Longrightarrow> list_all (\<lambda>c. is_ldh c \<or> c = c_dot) h"
proof (induction "length h" arbitrary: h rule: less_induct)
  case less
  show ?case
  proof (cases "c_dot \<in> set h")
    case False
    with less show ?thesis by (auto simp: labels_ok_label label_ok_def list_all_iff)
  next
    case True
    then obtain l r where h: "h = l @ c_dot # r" "c_dot \<notin> set l" by (metis split_list_first)
    with less.prems have "label_ok l" "labels_ok r" by (simp_all add: labels_ok_at)
    with h less.hyps [of r] show ?thesis by (auto simp: label_ok_def list_all_iff)
  qed
qed

lemma labels_ok_hd: "labels_ok h \<Longrightarrow> h \<noteq> [] \<and> is_ldh (hd h)"
proof -
  assume ok: "labels_ok h"
  then have "h \<noteq> []" by auto
  moreover from ok have "label_ok (hd (split_dots h))"
    by (cases "split_dots h") (auto simp: labels_ok_def)
  ultimately show ?thesis
    by (cases h; cases "hd h = c_dot") (auto simp: label_ok_def)
qed



lemma dns_name_valid_bytes:
  "dns_name_valid name \<Longrightarrow> c \<in> set name \<Longrightarrow> is_ldh c \<or> c = c_dot \<or> c = c_star"
proof -
  assume v: "dns_name_valid name" and c: "c \<in> set name"
  have "set name \<subseteq> set (drop 2 name) \<union> {c_star, c_dot}" if "is_wild name"
    using that by (cases name; cases "tl name") (auto simp: is_wild_def)
  with v c labels_ok_bytes [of "drop 2 name"] labels_ok_bytes [of name] show ?thesis
    by (auto simp: dns_name_valid_eq list_all_iff split: if_splits)
qed

lemma ldh_plain:
  "is_ldh c \<or> c = c_dot \<or> c = c_star \<Longrightarrow> 0x20 \<le> c \<and> c \<noteq> c_quote \<and> c \<noteq> c_backslash \<and> c \<noteq> c_slash"
  by (auto simp: byte_class_defs word_le_nat_alt)

lemma str_body_plain:
  "\<forall>c \<in> set s. 0x20 \<le> c \<and> c \<noteq> c_quote \<and> c \<noteq> c_backslash \<Longrightarrow> str_body s s"
  by (induction s) (auto intro: str_body.empty str_body.plain)

text \<open>
  Claim C18.  A name that is accepted can be written verbatim between the quotes of a JSON
  string: read by a JSON parser it is itself.  And the runtime validator is no laxer than
  the configuration validator: what it lets in is a valid name.
\<close>

theorem valid_names_embed_in_json:
  assumes "dns_name_valid name \<or> requests_normalize host = Some name"
  shows "dns_name_valid name \<and> json_parse [] (c_quote # name @ [c_quote]) = Val (JString name)"
proof -
  have valid: "dns_name_valid name"
  proof (cases "dns_name_valid name")
    case False
    with assms have n: "name = map lower host" "runtime_host_ok host"
      by (auto simp: requests_normalize_eq split: if_splits)
    then have ok: "labels_ok name" "length name \<le> 253"
      by (simp_all add: runtime_host_ok_def labels_ok_map_lower)
    with labels_ok_hd [of name] have "\<not> is_wild name"
      by (cases name) (auto simp: is_wild_def)
    with ok show ?thesis by (simp add: dns_name_valid_eq)
  qed simp
  then have "str_body name name"
    using ldh_plain dns_name_valid_bytes by (intro str_body_plain) blast
  then have "json_text 32 (c_quote # name @ [c_quote]) (JString name)"
    unfolding json_text_def using jstring [of name name 32]
    by (intro exI [of _ "[]"] exI [of _ "c_quote # name @ [c_quote]"]) simp
  with valid json_parse_complete show ?thesis by blast
qed

theorem valid_names_embed_in_json_witness:
  "json_parse [] (c_quote # str ''*.example.com'' @ [c_quote]) = Val (JString (str ''*.example.com''))"
proof -
  have "dns_name_valid (str ''*.example.com'')" by code_simp
  with valid_names_embed_in_json [of "str ''*.example.com''"] show ?thesis by blast
qed

lemma strncasecmp_nul_free:
  "0 \<notin> set s2 \<Longrightarrow> length s1 = n \<Longrightarrow> length s2 = n \<Longrightarrow>
   ngx_strncasecmp_eq s1 s2 n \<longleftrightarrow> map lower s1 = map lower s2"
proof (induction s1 s2 n rule: ngx_strncasecmp_eq.induct)
  case (2 c1 s1 c2 s2 n)
  from 2(2) have "ngx_tolower c2 \<noteq> 0" using lower_eq_0 [of c2] by (auto simp: lower_tolower)
  with 2 show ?case by (simp add: lower_tolower)
qed auto

lemma strncasecmp_nul_free':
  "0 \<notin> set s1 \<Longrightarrow> length s1 = n \<Longrightarrow> length s2 = n \<Longrightarrow>
   ngx_strncasecmp_eq s1 s2 n \<longleftrightarrow> map lower s1 = map lower s2"
proof (induction s1 s2 n rule: ngx_strncasecmp_eq.induct)
  case (2 c1 s1 c2 s2 n)
  from 2(2) have "ngx_tolower c1 \<noteq> 0" using lower_eq_0 [of c1] by (auto simp: lower_tolower)
  with 2 show ?case by (simp add: lower_tolower)
qed auto

text \<open>
  Claim C19.  The wildcard rule.  A configured name (without NUL bytes) covers a host if
  they are equal up to case, or if the name is a wildcard \<open>*.suffix\<close> and the host
  is one non-empty label followed by the suffix.  A wildcard covers neither its own suffix
  nor a host two labels deeper.
\<close>

theorem name_covers_correct:
  assumes "0 \<notin> set name"
  shows "name_covers name host \<longleftrightarrow>
    map lower name = map lower host \<or>
    (\<exists>suffix label rest. name = c_star # c_dot # suffix \<and> suffix \<noteq> [] \<and>
       host = label @ c_dot # rest \<and> label \<noteq> [] \<and> c_dot \<notin> set label \<and>
       map lower rest = map lower suffix)"
proof -
  have exact: "length name = length host \<and> ngx_strncasecmp_eq name host (length host) \<longleftrightarrow>
      map lower name = map lower host"
    using strncasecmp_nul_free' [OF assms, of "length host" host] by (auto dest: map_eq_imp_length_eq)
  show ?thesis
  proof (cases "length name \<le> 2 \<or> name ! 0 \<noteq> c_star \<or> name ! 1 \<noteq> c_dot")
    case True
    then have "\<nexists>suffix. name = c_star # c_dot # suffix \<and> suffix \<noteq> []" by auto
    with True exact show ?thesis by (auto simp: name_covers_def)
  next
    case False
    then obtain suffix where n: "name = c_star # c_dot # suffix" "suffix \<noteq> []"
      by (cases name; cases "tl name"; cases "tl (tl name)") auto
    have suf: "length rest = length suffix \<and> ngx_strncasecmp_eq rest suffix (length rest) \<longleftrightarrow>
        map lower rest = map lower suffix" for rest
      using strncasecmp_nul_free [of suffix rest "length rest"] assms n map_eq_imp_length_eq [of lower rest lower suffix]
      by auto
    show ?thesis
    proof (cases "ngx_strlchr host c_dot")
      case None
      then have "\<nexists>label rest. host = label @ c_dot # rest" by auto
      with None n exact show ?thesis by (simp add: name_covers_def None del: ngx_strlchr_None)
    next
      case (Some lr)
      obtain label rest where lr: "lr = (label, rest)" by force
      with Some have h: "host = label @ c_dot # rest" "c_dot \<notin> set label" by (simp_all add: ngx_strlchr_Some)
      have uniq: "l = label \<and> r = rest" if "host = l @ c_dot # r" "c_dot \<notin> set l" for l r
        using that Some lr ngx_strlchr_Some [of host c_dot l r] by simp
      have "name_covers name host \<longleftrightarrow> map lower name = map lower host \<or>
          label \<noteq> [] \<and> map lower rest = map lower suffix"
        using exact suf [of rest] Some lr n by (simp add: name_covers_def Let_def)
      moreover have "(\<exists>s l r. name = c_star # c_dot # s \<and> s \<noteq> [] \<and> host = l @ c_dot # r \<and> l \<noteq> [] \<and>
          c_dot \<notin> set l \<and> map lower r = map lower s) \<longleftrightarrow> label \<noteq> [] \<and> map lower rest = map lower suffix"
        (is "?ex \<longleftrightarrow> ?one")
      proof
        assume ?ex
        then obtain s l r where "name = c_star # c_dot # s" "host = l @ c_dot # r" "l \<noteq> []"
          "c_dot \<notin> set l" "map lower r = map lower s" by blast
        with n(1) uniq [of l r] show ?one by simp
      next
        assume ?one
        with n h show ?ex by blast
      qed
      ultimately show ?thesis by simp
    qed
  qed
qed

theorem name_covers_correct_witness:
  "name_covers (str ''*.Example.com'') (str ''foo.example.COM'')"
proof -
  have nul: "0 \<notin> set (str ''*.Example.com'')" by code_simp
  have n: "str ''*.Example.com'' = c_star # c_dot # str ''Example.com''"
    "str ''foo.example.COM'' = str ''foo'' @ c_dot # str ''example.COM''"
    "map lower (str ''example.COM'') = map lower (str ''Example.com'')" "c_dot \<notin> set (str ''foo'')"
    "str ''Example.com'' \<noteq> []" "str ''foo'' \<noteq> []"
    by code_simp+
  then show ?thesis unfolding name_covers_correct [OF nul] by blast
qed


section \<open>The store\<close>

text \<open>
  What the store keeps apart: a wildcard by its suffix, an IPv6 address by its value,
  everything else by its spelling.
\<close>

datatype store_ident = Wildcard bytes | Address6 bytes | Named bytes

definition store_ident_of :: "inet \<Rightarrow> bytes \<Rightarrow> store_ident" where
  "store_ident_of i name =
     (if is_wild name then Wildcard (drop 2 name)
      else case str_is_ip i name of (AF_INET6, v6) \<Rightarrow> Address6 v6 | _ \<Rightarrow> Named name)"

lemma hex_lower_inj: "a < 16 \<Longrightarrow> b < 16 \<Longrightarrow> hex_lower a = hex_lower b \<Longrightarrow> a = b"
proof -
  assume ab: "a < 16" "b < 16" "hex_lower a = hex_lower b"
  have u: "unat (hex_lower k) = (if k < 10 then 0x30 + k else 0x57 + k)" if "k < 16" for k
    using that unfolding hex_lower_def by (simp only: unat_of_nat if_distrib [of unat]) simp
  from ab(3) have "unat (hex_lower a) = unat (hex_lower b)" by simp
  with ab(1,2) u show ?thesis by (simp split: if_splits)
qed

lemma hex_group_inj: "hex_group a b = hex_group c d \<Longrightarrow> a = c \<and> b = d"
proof -
  assume "hex_group a b = hex_group c d"
  then have "unat a div 16 = unat c div 16" "unat a mod 16 = unat c mod 16"
    "unat b div 16 = unat d div 16" "unat b mod 16 = unat d mod 16"
    by (auto simp: hex_group_def intro!: hex_lower_inj less_mult_imp_div_less)
  then have "unat a = unat c" "unat b = unat d" by (metis div_mult_mod_eq)+
  then show ?thesis by (simp add: byte_eq_unat)
qed

lemma hex_group_length [simp]: "length (hex_group a b) = 4"
  by (simp add: hex_group_def)

lemma ip6_groups_length:
  "length v = 2 * n \<Longrightarrow> length (ip6_groups i v) = (if n = 0 then 0 else if i = 0 then 5 * n - 1 else 5 * n)"
proof (induction i v arbitrary: n rule: ip6_groups.induct)
  case (1 i hi lo rest)
  then obtain m where m: "n = Suc m" "length rest = 2 * m" by (cases n) auto
  with 1(1) [of m] show ?case by auto
qed auto

lemma ip6_groups_inj:
  "length v = length w \<Longrightarrow> even (length v) \<Longrightarrow> ip6_groups i v = ip6_groups i w \<Longrightarrow> v = w"
proof (induction i v arbitrary: w rule: ip6_groups.induct)
  case (1 i hi lo rest)
  then obtain hi' lo' rest' where w: "w = hi' # lo' # rest'" by (cases w; cases "tl w") auto
  with 1(4) have "hex_group hi lo = hex_group hi' lo'" "ip6_groups (i + 1) rest = ip6_groups (i + 1) rest'"
    by auto
  with hex_group_inj [of hi lo hi' lo'] 1(1) [of rest'] 1(2,3) w show ?case by auto
qed auto

lemma str_is_ip6:
  assumes "inet_ok i" "str_is_ip i name = (AF_INET6, v6)"
  shows "length v6 = 16"
  using assms by (auto simp: inet_ok_def str_is_ip_def Let_def split: if_splits option.splits)

lemma ip4_bytes:
  assumes "inet_ok i" "fst (str_is_ip i name) = AF_INET"
  shows "list_all (\<lambda>c. is_digit c \<or> c = c_dot) name" "list_ex is_digit name"
proof -
  have "list_all (\<lambda>c. is_digit c \<or> c = c_dot) name \<and> list_ex is_digit name"
  proof (cases "inet_addr i name = INADDR_NONE")
    case False
    with assms show ?thesis by (auto simp: inet_ok_def)
  next
    case True
    with assms have "length name = 15" "strncmp_eq name (str ''255.255.255.255'') 15"
      by (auto simp: str_is_ip_def Let_def split: if_splits option.splits)
    then have "name = str ''255.255.255.255''"
      using strncmp_eq_nul_free [of "str ''255.255.255.255''" 15 name] by simp
    then show ?thesis by (simp add: is_digit_def)
  qed
  then show "list_all (\<lambda>c. is_digit c \<or> c = c_dot) name" "list_ex is_digit name" by simp_all
qed

text \<open>An identifier that the module issues for: a valid name or an address literal.\<close>

definition issuable :: "inet \<Rightarrow> bytes \<Rightarrow> bool" where
  "issuable i name \<longleftrightarrow> dns_name_valid name \<or> fst (str_is_ip i name) \<noteq> AF_NONE \<and> name \<noteq> []"

lemma issuable_Named:
  assumes "inet_ok i" "issuable i name" "store_ident_of i name = Named n"
  shows "n = name" "name \<noteq> []" "\<forall>c \<in> set name. is_ldh c \<or> c = c_dot"
proof -
  have cases: "\<not> is_wild name" "fst (str_is_ip i name) \<noteq> AF_INET6" "n = name"
    using assms(3) by (auto simp: store_ident_of_def split: if_splits prod.splits family.splits)
  then show "n = name" by simp
  have ip: "\<forall>c \<in> set name. is_ldh c \<or> c = c_dot" if "fst (str_is_ip i name) = AF_INET"
    using ip4_bytes(1) [OF assms(1) that] by (auto simp: list_all_iff is_ldh_def)
  have dns: "name \<noteq> [] \<and> (\<forall>c \<in> set name. is_ldh c \<or> c = c_dot)" if "dns_name_valid name"
    using that cases(1) labels_ok_bytes [of name] labels_ok_hd [of name]
    by (auto simp: dns_name_valid_eq list_all_iff)
  show "name \<noteq> []" "\<forall>c \<in> set name. is_ldh c \<or> c = c_dot"
    using assms(2) ip dns cases(2) by (auto simp: issuable_def) (cases "fst (str_is_ip i name)"; auto)
qed

lemma fs_segment_cases:
  assumes "inet_ok i" "issuable i name" "fs_segment i cap name = Some seg"
  obtains (wild) r where "store_ident_of i name = Wildcard r" "seg = WILDCARD_SEG @ r" "name = c_star # c_dot # r"
  | (ip6) v where "store_ident_of i name = Address6 v" "seg = IP6_SEG @ ip6_groups 0 v" "length v = 16"
  | (named) "store_ident_of i name = Named name" "seg = name" "name \<noteq> []" "\<forall>c \<in> set name. is_ldh c \<or> c = c_dot"
proof (cases "store_ident_of i name")
  case (Wildcard r)
  then have w: "is_wild name" "r = drop 2 name"
    by (auto simp: store_ident_of_def split: if_splits prod.splits family.splits)
  have "name = c_star # c_dot # r"
    using w by (cases name; cases "tl name") (auto simp: is_wild_def)
  moreover have "seg = WILDCARD_SEG @ r"
    using assms(3) w by (simp add: fs_segment_def Let_def split: if_splits)
  ultimately show thesis using wild [OF Wildcard] by blast
next
  case (Address6 v)
  then have "\<not> is_wild name" "str_is_ip i name = (AF_INET6, v)"
    by (auto simp: store_ident_of_def split: if_splits prod.splits family.splits)
  with ip6 [of v] Address6 assms(3) str_is_ip6 [OF assms(1)] show thesis
    by (auto simp: fs_segment_def split: if_splits)
next
  case (Named n)
  then have "\<not> is_wild name" "fst (str_is_ip i name) \<noteq> AF_INET6" "n = name"
    by (auto simp: store_ident_of_def split: if_splits prod.splits family.splits)
  with named Named assms(3) issuable_Named [OF assms(1,2) Named] show thesis
    by (auto simp: fs_segment_def split: if_splits prod.splits family.splits)
qed


lemma ip6_groups_bytes: "list_all (\<lambda>c. is_ldh c) (ip6_groups i v)"
proof (induction i v rule: ip6_groups.induct)
  case (1 i hi lo rest)
  have "is_ldh (hex_lower k)" if "k < 16" for k
  proof -
    have "unat (hex_lower k) = (if k < 10 then 0x30 + k else 0x57 + k)"
      using that unfolding hex_lower_def by (simp only: unat_of_nat if_distrib [of unat]) simp
    with that show ?thesis by (auto simp: is_ldh_def byte_class_unat)
  qed
  then have "list_all is_ldh (hex_group hi lo)"
    by (simp add: hex_group_def less_mult_imp_div_less)
  moreover have "is_ldh c_hyphen" by (simp add: is_ldh_def)
  ultimately show ?case using 1 by simp
qed simp_all

lemma issuable_wild:
  assumes "issuable i name" "inet_ok i" "name = c_star # c_dot # r"
  shows "labels_ok r"
proof -
  have "inet6_addr i name = None"
    using assms(2) unfolding inet_ok_def assms(3) by (metis list.set_intros(1) not_None_eq)
  then have "fst (str_is_ip i name) = AF_NONE"
    using ip4_bytes(1) [OF assms(2), of name] assms(3)
    by (cases "str_is_ip i name") (auto simp: str_is_ip_def Let_def is_digit_def split: if_splits)
  with assms(1) have "dns_name_valid name" by (simp add: issuable_def)
  with assms(3) show ?thesis by (simp add: dns_name_valid_eq is_wild_def)
qed


text \<open>An address parser for the witnesses: it knows one IPv4 and one IPv6 address.\<close>

definition toy_inet :: inet where
  "toy_inet = \<lparr>inet_addr = (\<lambda>s. if s = str ''10.0.0.1'' then 0x0a000001 else INADDR_NONE),
     inet6_addr = (\<lambda>s. if s = str ''::1'' \<or> s = str ''0::1'' then Some (replicate 15 0 @ [1]) else None)\<rparr>"

lemma toy_inet_ok: "inet_ok toy_inet"
  by (auto simp: inet_ok_def toy_inet_def is_digit_def)




end
