(* ===== verification/Caps.thy ===== *)
theory Caps
  imports Prelude
begin

text \<open>
  The budgets of the module: the rolling windows of
  \<^verbatim>\<open>src/ngx_autocert_ratecap.h\<close> with the two caps that the driver builds
  on them (new orders of runtime hosts, failures of one host), the load budget of the
  handshake path (\<^verbatim>\<open>src/ngx_autocert_loadcap.h\<close>) and the clamped
  conversion of \<^verbatim>\<open>src/ngx_autocert_timeconv.h\<close>.  Times are whole seconds.
\<close>

section \<open>Rolling windows\<close>

fun rt_window_count :: "int list \<Rightarrow> int \<Rightarrow> int \<Rightarrow> nat" where
  "rt_window_count [] now window = 0"
| "rt_window_count (t # ring) now window =
     (if t \<noteq> 0 \<and> t > now - window then Suc (rt_window_count ring now window)
      else rt_window_count ring now window)"

fun window_oldest_loop :: "int list \<Rightarrow> int \<Rightarrow> int \<Rightarrow> int \<Rightarrow> int" where
  "window_oldest_loop [] now window oldest = oldest"
| "window_oldest_loop (t # ring) now window oldest =
     window_oldest_loop ring now window
       (if t \<noteq> 0 \<and> t > now - window then (if oldest = 0 \<or> t < oldest then t else oldest) else oldest)"

definition rt_window_oldest :: "int list \<Rightarrow> int \<Rightarrow> int \<Rightarrow> int" where
  "rt_window_oldest ring now window = window_oldest_loop ring now window 0"

text \<open>A ring with the index of its next slot.\<close>

record rt_ring =
  ring :: "int list"
  head :: nat

definition rt_ring_push :: "nat \<Rightarrow> rt_ring \<Rightarrow> int \<Rightarrow> rt_ring" where
  "rt_ring_push n r now = r\<lparr>ring := (ring r)[head r := now], head := (head r + 1) mod n\<rparr>"

section \<open>New orders of runtime hosts\<close>

abbreviation (input) RT_ORDER_MAX :: nat where "RT_ORDER_MAX \<equiv> 300"
abbreviation (input) RT_ORDER_WINDOW :: int where "RT_ORDER_WINDOW \<equiv> 10800"
abbreviation (input) RT_FAIL_MAX :: nat where "RT_FAIL_MAX \<equiv> 5"
abbreviation (input) RT_FAIL_WINDOW :: int where "RT_FAIL_WINDOW \<equiv> 3600"
abbreviation (input) RT_FAIL_HOSTS :: nat where "RT_FAIL_HOSTS \<equiv> 64"

definition rt_order_at_cap :: "rt_ring \<Rightarrow> int \<Rightarrow> bool" where
  "rt_order_at_cap r now \<longleftrightarrow> rt_window_count (ring r) now RT_ORDER_WINDOW \<ge> RT_ORDER_MAX"

definition rt_order_record :: "rt_ring \<Rightarrow> int \<Rightarrow> rt_ring" where
  "rt_order_record r now = rt_ring_push RT_ORDER_MAX r now"

section \<open>Failures of one host\<close>

text \<open>
  An entry of the table; the length of the host is 0 for a free entry.
\<close>

record rt_fail =
  rf_host :: bytes
  rf_ring :: rt_ring

definition rt_fail_find :: "rt_fail list \<Rightarrow> bytes \<Rightarrow> rt_fail option" where
  "rt_fail_find tab host =
     (if length host = 0 \<or> length host \<ge> 256 then None
      else find (\<lambda>e. length (rf_host e) = length host \<and> memcmp (rf_host e) host = 0) tab)"

definition rt_fail_at_cap :: "rt_fail list \<Rightarrow> bytes \<Rightarrow> int \<Rightarrow> bool" where
  "rt_fail_at_cap tab host now =
     (case rt_fail_find tab host of
        None \<Rightarrow> False
      | Some e \<Rightarrow> rt_window_count (ring (rf_ring e)) now RT_FAIL_WINDOW \<ge> RT_FAIL_MAX)"

text \<open>
  The scan for a slot: a free entry ends it; before that the first entry whose window is
  empty is remembered.
\<close>

fun rt_fail_slot :: "rt_fail list \<Rightarrow> nat \<Rightarrow> int \<Rightarrow> nat option \<Rightarrow> nat option" where
  "rt_fail_slot [] i now slot = slot"
| "rt_fail_slot (e # tab) i now slot =
     (if length (rf_host e) = 0 then Some i
      else rt_fail_slot tab (i + 1) now
        (if slot = None \<and> rt_window_count (ring (rf_ring e)) now RT_FAIL_WINDOW = 0
         then Some i else slot))"

fun rt_fail_index :: "rt_fail list \<Rightarrow> bytes \<Rightarrow> nat \<Rightarrow> nat option" where
  "rt_fail_index [] host i = None"
| "rt_fail_index (e # tab) host i =
     (if length (rf_host e) = length host \<and> memcmp (rf_host e) host = 0 then Some i
      else rt_fail_index tab host (i + 1))"

definition rt_fail_record :: "rt_fail list \<Rightarrow> bytes \<Rightarrow> int \<Rightarrow> rt_fail list" where
  "rt_fail_record tab host now =
     (if length host = 0 \<or> length host \<ge> 256 then tab
      else
        (case rt_fail_index tab host 0 of
           Some i \<Rightarrow>
             tab[i := (tab ! i)\<lparr>rf_ring := rt_ring_push RT_FAIL_MAX (rf_ring (tab ! i)) now\<rparr>]
         | None \<Rightarrow>
             (case rt_fail_slot tab 0 now None of
                None \<Rightarrow> tab
              | Some i \<Rightarrow>
                  tab[i := \<lparr>rf_host = host,
                           rf_ring = rt_ring_push RT_FAIL_MAX
                             \<lparr>ring = replicate RT_FAIL_MAX 0, head = 0\<rparr> now\<rparr>])))"

section \<open>The load budget of the handshake path\<close>

text \<open>The counters are unsigned 64-bit integers, as in the code.\<close>

record loadcap =
  lc_second :: int
  lc_spent :: u64
  lc_spent_res :: u64

definition loadcap_reserve :: "u64 \<Rightarrow> u64" where
  "loadcap_reserve limit =
     (if limit < 2 then 0 else if limit div 4 \<noteq> 0 then limit div 4 else 1)"

definition loadcap_admit_retry_n ::
  "loadcap \<Rightarrow> int \<Rightarrow> u64 \<Rightarrow> u64 \<Rightarrow> bool \<Rightarrow> bool \<times> loadcap" where
  "loadcap_admit_retry_n cap0 now limit n retry =
     (if limit = 0 then (True, cap0)
      else if n = 0 then (True, cap0)
      else
        let cap = (if lc_second cap0 \<noteq> now
                   then \<lparr>lc_second = now, lc_spent = 0, lc_spent_res = 0\<rparr> else cap0);
            reserve = loadcap_reserve limit;
            general = limit - reserve
        in
          if n > general then
            (if lc_spent cap \<noteq> 0 \<or> lc_spent_res cap \<noteq> 0 then (False, cap)
             else (True, cap\<lparr>lc_spent := general, lc_spent_res := reserve\<rparr>))
          else if n \<le> general \<and> lc_spent cap \<le> general - n then
            (True, cap\<lparr>lc_spent := lc_spent cap + n\<rparr>)
          else if \<not> retry then (False, cap)
          else
            let left = reserve - lc_spent_res cap in
            if n > left then (False, cap)
            else (True, cap\<lparr>lc_spent_res := lc_spent_res cap + n\<rparr>))"

definition loadcap_admit_n :: "loadcap \<Rightarrow> int \<Rightarrow> u64 \<Rightarrow> u64 \<Rightarrow> bool \<times> loadcap" where
  "loadcap_admit_n cap now limit n = loadcap_admit_retry_n cap now limit n False"

definition loadcap_admit :: "loadcap \<Rightarrow> int \<Rightarrow> u64 \<Rightarrow> bool \<times> loadcap" where
  "loadcap_admit cap now limit = loadcap_admit_retry_n cap now limit 1 False"

section \<open>Seconds to milliseconds\<close>

abbreviation (input) TIMECONV_CAP_SEC :: int where "TIMECONV_CAP_SEC \<equiv> 3600"

definition sec_to_msec_clamped :: "int \<Rightarrow> u64" where
  "sec_to_msec_clamped sec =
     (if sec < 0 then 0
      else if sec > TIMECONV_CAP_SEC then word_of_int TIMECONV_CAP_SEC * 1000
      else word_of_int sec * 1000)"

section \<open>Facts about windows\<close>

lemma rt_window_count_filter:
  "rt_window_count r now w = length (filter (\<lambda>t. t \<noteq> 0 \<and> t > now - w) r)"
  by (induction r) auto

lemma rt_window_count_le: "rt_window_count r now w \<le> length r"
  by (simp add: rt_window_count_filter)

lemma rotate_push:
  assumes "h < length xs"
  shows "rotate ((h + 1) mod length xs) (xs[h := x]) = tl (rotate h xs) @ [x]"
proof (cases "h + 1 = length xs")
  case True
  then have "(h + 1) mod length xs = 0" by simp
  moreover have "xs[h := x] = take h xs @ [x]"
    using True by (metis add.commute drop_eq_Nil le_eq_less_or_eq plus_1_eq_Suc upd_conv_take_nth_drop assms)
  moreover have "drop h xs = [xs ! h]"
    using True assms by (metis Cons_nth_drop_Suc add.right_neutral add_Suc_right drop_all le_refl One_nat_def)
  ultimately show ?thesis using True assms by (simp add: rotate_drop_take)
next
  case False
  with assms have h: "h + 1 < length xs" by simp
  have "drop (h + 1) (xs[h := x]) = drop (h + 1) xs" "take (h + 1) (xs[h := x]) = take h xs @ [x]"
    using assms by (simp_all add: take_Suc_conv_app_nth)
  moreover have "tl (drop h xs) = drop (h + 1) xs" by (simp add: drop_Suc tl_drop)
  moreover have "drop h xs \<noteq> []" using assms by simp
  ultimately show ?thesis using h assms by (simp add: rotate_drop_take)
qed

text \<open>
  A ring of size \<open>n\<close> into which \<open>log\<close> has been pushed holds, from the head on,
  the last \<open>n\<close> of the zeros it started with and the log.
\<close>

definition ring_holds :: "nat \<Rightarrow> int list \<Rightarrow> rt_ring \<Rightarrow> bool" where
  "ring_holds n log r \<longleftrightarrow>
     length (ring r) = n \<and> head r < n \<and>
     rotate (head r) (ring r) = drop (length log) (replicate n 0 @ log)"

lemma ring_holds_push:
  assumes "ring_holds n log r"
  shows "ring_holds n (log @ [x]) (rt_ring_push n r x)"
proof -
  have r: "length (ring r) = n" "head r < n" "rotate (head r) (ring r) = drop (length log) (replicate n 0 @ log)"
    using assms by (simp_all add: ring_holds_def)
  let ?h = "replicate n (0 :: int) @ log"
  have "tl (drop (length log) ?h) = drop (Suc (length log)) ?h" by (simp only: drop_Suc tl_drop)
  moreover have "drop (Suc (length log)) (?h @ [x]) = drop (Suc (length log)) ?h @ [x]"
    using r(2) by (subst drop_append) simp
  ultimately have "tl (drop (length log) ?h) @ [x] = drop (length (log @ [x])) (replicate n 0 @ log @ [x])"
    by (simp only: append_assoc length_append list.size) simp
  with r rotate_push [of "head r" "ring r" x] show ?thesis
    by (simp add: ring_holds_def rt_ring_push_def)
qed

lemma length_filter_rotate: "length (filter P (rotate k xs)) = length (filter P xs)"
proof -
  have "length (filter P (drop m xs @ take m xs)) = length (filter P (take m xs @ drop m xs))" for m
    by (simp only: filter_append length_append add.commute)
  then show ?thesis by (simp add: rotate_drop_take)
qed

lemma ring_holds_count:
  assumes "ring_holds n log r"
  shows "rt_window_count (ring r) now w = rt_window_count (drop (length log) (replicate n 0 @ log)) now w"
  using assms unfolding rt_window_count_filter ring_holds_def by (metis length_filter_rotate)

subsection \<open>The cap on new orders\<close>

text \<open>
  In a sorted list, when at least \<open>n\<close> elements exceed a bound then the last \<open>n\<close> do.
\<close>

lemma sorted_suffix_above:
  assumes "sorted xs" "n \<le> length (filter (\<lambda>r. c < r) xs)"
  shows "\<forall>r \<in> set (drop (length xs - n) xs). c < (r :: int)"
proof -
  have "filter (\<lambda>r. c < r) xs = dropWhile (\<lambda>r. \<not> c < r) xs"
    using assms(1)
  proof (induction xs)
    case (Cons a xs)
    show ?case
    proof (cases "c < a")
      case True
      with Cons.prems show ?thesis by (auto simp: filter_id_conv)
    next
      case False
      with Cons show ?thesis by simp
    qed
  qed simp
  moreover obtain k where k: "dropWhile (\<lambda>r. \<not> c < r) xs = drop k xs" by (metis dropWhile_eq_drop)
  ultimately have f: "filter (\<lambda>r. c < r) xs = drop k xs" by simp
  have all: "\<forall>r \<in> set (drop k xs). c < r" unfolding f [symmetric] by simp
  have len: "n \<le> length xs - k" using assms(2) unfolding f by simp
  show ?thesis
  proof (cases "k \<le> length xs")
    case True
    with len have "k \<le> length xs - n \<or> n = 0" by auto
    with all set_drop_subset_set_drop [of k "length xs - n" xs] show ?thesis by auto
  next
    case False
    with len show ?thesis by simp
  qed
qed

text \<open>
  The driver's use of the window: each attempt is a time at which the cap is tested and,
  when it is not reached, a later time at which the order is counted.  The log is the
  list of the times counted.
\<close>

fun rt_order_run :: "rt_ring \<Rightarrow> (int \<times> int) list \<Rightarrow> int list" where
  "rt_order_run r [] = []"
| "rt_order_run r ((check, sent) # es) =
     (if rt_order_at_cap r check then rt_order_run r es
      else sent # rt_order_run (rt_order_record r sent) es)"

fun clock_ok :: "int \<Rightarrow> (int \<times> int) list \<Rightarrow> bool" where
  "clock_ok t [] = True"
| "clock_ok t ((check, sent) # es) = (t \<le> check \<and> check \<le> sent \<and> clock_ok sent es)"

definition in_window :: "int \<Rightarrow> int \<Rightarrow> int list \<Rightarrow> nat" where
  "in_window t w log = length (filter (\<lambda>r. t - w < r \<and> r \<le> t) log)"

lemma order_cap_step:
  assumes "ring_holds n log r" "sorted log" "\<forall>x \<in> set log. 0 < x \<and> x \<le> sent" "check \<le> sent" "0 < sent"
    and cap: "\<not> n \<le> rt_window_count (ring r) check w"
    and IH: "\<And>t. in_window t w log \<le> n"
  shows "in_window t w (log @ [sent]) \<le> n"
proof (rule ccontr)
  assume "\<not> in_window t w (log @ [sent]) \<le> n"
  with IH [of t] have full: "n \<le> in_window t w log" "t - w < sent" "sent \<le> t"
    by (auto simp: in_window_def split: if_splits)
  then have "n \<le> length (filter (\<lambda>r. t - w < r) log)"
    unfolding in_window_def by (elim order.trans) (induction log; auto)
  from sorted_suffix_above [OF assms(2) this]
  have "\<forall>r \<in> set (drop (length log - n) log). t - w < r" .
  moreover have "check - w \<le> t - w" using assms(4) full(3) by simp
  ultimately have above: "\<forall>r \<in> set (drop (length log - n) log). r \<noteq> 0 \<and> check - w < r"
    using assms(3) by (fastforce dest: in_set_dropD)
  have "n \<le> length log"
    using full(1) length_filter_le [of _ log] unfolding in_window_def by (meson order.trans)
  then have last_n: "drop (length log) (replicate n 0 @ log) = drop (length log - n) log" by simp
  have "rt_window_count (drop (length log - n) log) check w = n"
    using above \<open>n \<le> length log\<close> by (simp add: rt_window_count_filter filter_id_conv [THEN iffD2])
  with cap ring_holds_count [OF assms(1), of check w] last_n show False by simp
qed

lemma rt_order_run_capped:
  assumes "ring_holds 300 log r" "sorted log" "\<forall>x \<in> set log. 0 < x \<and> x \<le> t0" "clock_ok t0 es" "0 < t0"
    and "\<And>t. in_window t RT_ORDER_WINDOW log \<le> RT_ORDER_MAX"
  shows "in_window t RT_ORDER_WINDOW (log @ rt_order_run r es) \<le> RT_ORDER_MAX"
  using assms
proof (induction r es arbitrary: log t0 rule: rt_order_run.induct)
  case (1 r)
  then show ?case by simp
next
  case (2 r check sent es)
  show ?case
  proof (cases "rt_order_at_cap r check")
    case True
    have "\<forall>x \<in> set log. 0 < x \<and> x \<le> sent" "clock_ok sent es" "0 < sent"
      using 2(5,6,7) by auto
    from 2(1) [OF True 2(3,4) this 2(8)] True show ?thesis by simp
  next
    case False
    have times: "t0 \<le> check" "check \<le> sent" "clock_ok sent es" using 2(6) by simp_all
    have cap: "in_window u RT_ORDER_WINDOW (log @ [sent]) \<le> RT_ORDER_MAX" for u
      by (rule order_cap_step [OF 2(3,4), where check = check])
        (use 2(5,7,8) times False in \<open>auto simp: rt_order_at_cap_def\<close>)
    have "sorted (log @ [sent])" "\<forall>x \<in> set (log @ [sent]). 0 < x \<and> x \<le> sent"
      using 2(4,5,7) times by (auto simp: sorted_append)
    from 2(2) [OF False ring_holds_push [OF 2(3), of sent, folded rt_order_record_def] this times(3) _ cap]
    show ?thesis using 2(7) times False by simp
  qed
qed

text \<open>
  Claim C22.  However many runtime hosts ask for certificates, in every span of three hours at
  most 300 new orders are sent: the cap is tested when a host is taken up and the order
  is counted later, when it is really sent, and in between time only moves forward.
\<close>

theorem rt_order_cap_holds:
  assumes "clock_ok t0 es" "0 < t0"
  shows "in_window t RT_ORDER_WINDOW
    (rt_order_run \<lparr>ring = replicate RT_ORDER_MAX 0, head = 0\<rparr> es) \<le> RT_ORDER_MAX"
  using rt_order_run_capped [of "[]" "\<lparr>ring = replicate RT_ORDER_MAX 0, head = 0\<rparr>" t0 es t] assms
  by (simp add: ring_holds_def in_window_def)

theorem rt_order_cap_holds_witness:
  "in_window 9 RT_ORDER_WINDOW
    (rt_order_run \<lparr>ring = replicate RT_ORDER_MAX 0, head = 0\<rparr> [(5, 6), (7, 7)]) \<le> RT_ORDER_MAX"
  using rt_order_cap_holds [of 5 "[(5, 6), (7, 7)]" 9] by simp


text \<open>
  The hold of a host that meets the cap.  The oldest order in the window is in the window,
  so that the host is held for a positive time, and when the hold ends the cap is no
  longer reached.
\<close>

lemma window_oldest_loop_prop:
  "(window_oldest_loop r now w old = old \<or>
      window_oldest_loop r now w old \<in> set r \<and> now - w < window_oldest_loop r now w old) \<and>
   (old \<noteq> 0 \<longrightarrow> window_oldest_loop r now w old \<noteq> 0 \<and> window_oldest_loop r now w old \<le> old) \<and>
   (\<forall>t \<in> set r. t \<noteq> 0 \<and> now - w < t \<longrightarrow>
      window_oldest_loop r now w old \<noteq> 0 \<and> window_oldest_loop r now w old \<le> t)"
proof (induction r arbitrary: old)
  case (Cons t r)
  define old' where "old' = (if t \<noteq> 0 \<and> t > now - w then (if old = 0 \<or> t < old then t else old) else old)"
  have step: "window_oldest_loop (t # r) now w old = window_oldest_loop r now w old'"
    by (simp add: old'_def)
  have "old' = old \<or> old' = t \<and> now - w < t" "old \<noteq> 0 \<longrightarrow> old' \<noteq> 0 \<and> old' \<le> old"
    "t \<noteq> 0 \<and> now - w < t \<longrightarrow> old' \<noteq> 0 \<and> old' \<le> t"
    by (auto simp: old'_def)
  with Cons [of old'] show ?case unfolding step by fastforce
qed simp

lemma rt_window_oldest_in:
  assumes "rt_window_count r now w \<noteq> 0"
  shows "rt_window_oldest r now w \<in> set r" "rt_window_oldest r now w \<noteq> 0" "now - w < rt_window_oldest r now w"
proof -
  obtain t where "t \<in> set r" "t \<noteq> 0" "now - w < t"
    using assms by (auto simp: rt_window_count_filter filter_empty_conv)
  with window_oldest_loop_prop [of r now w 0]
  show "rt_window_oldest r now w \<in> set r" "rt_window_oldest r now w \<noteq> 0" "now - w < rt_window_oldest r now w"
    by (auto simp: rt_window_oldest_def)
qed

lemma count_drops:
  assumes "x \<in> set r" "x \<noteq> 0" "now - w < x" "x \<le> later - w" "now \<le> later"
  shows "rt_window_count r later w < rt_window_count r now w"
  using assms
proof (induction r)
  case (Cons t r)
  have mono: "rt_window_count r later w \<le> rt_window_count r now w"
    using assms(5) by (induction r) auto
  from Cons mono show ?case by (cases "x = t") auto
qed simp

text \<open>
  A host that is deferred because a window is full is held exactly until the
  window frees: the hold lies in the future, and from its end on the window, if nothing
  is counted in between, is below the number it had.
\<close>

theorem rt_hold_frees_window:
  assumes "rt_window_count r now w \<noteq> 0" "0 < w"
  defines "hold \<equiv> rt_window_oldest r now w + w + 1"
  shows "now < hold \<and> (\<forall>later \<ge> hold. rt_window_count r later w < rt_window_count r now w)"
proof -
  note o = rt_window_oldest_in [OF assms(1)]
  have "now < hold" using o(3) by (simp add: hold_def)
  moreover have "rt_window_count r later w < rt_window_count r now w" if "hold \<le> later" for later
    by (rule count_drops [OF o(1,2,3)]) (use that \<open>now < hold\<close> in \<open>simp_all add: hold_def\<close>)
  ultimately show ?thesis by blast
qed

theorem rt_hold_frees_window_witness:
  "rt_window_count [10, 0, 14, 12, 11] 20 11 = 4 \<and> rt_window_oldest [10, 0, 14, 12, 11] 20 11 = 10 \<and>
   rt_window_count [10, 0, 14, 12, 11] 22 11 < 4"
  using rt_hold_frees_window [of "[10, 0, 14, 12, 11]" 20 11] by (simp add: rt_window_oldest_def)

subsection \<open>The failure table\<close>

text \<open>
  A well-formed table: no host twice, every ring of the right size.
\<close>

definition fail_table_ok :: "rt_fail list \<Rightarrow> bool" where
  "fail_table_ok tab \<longleftrightarrow>
     (\<forall>i < length tab. \<forall>j < length tab. rf_host (tab ! i) \<noteq> [] \<and> rf_host (tab ! i) = rf_host (tab ! j) \<longrightarrow> i = j) \<and>
     (\<forall>e \<in> set tab. length (ring (rf_ring e)) = RT_FAIL_MAX \<and> head (rf_ring e) < RT_FAIL_MAX)"

definition fail_active :: "rt_fail list \<Rightarrow> bytes \<Rightarrow> int \<Rightarrow> bool" where
  "fail_active tab host now \<longleftrightarrow>
     (case rt_fail_find tab host of
        None \<Rightarrow> False | Some e \<Rightarrow> rt_window_count (ring (rf_ring e)) now RT_FAIL_WINDOW \<noteq> 0)"

lemma same_host: "length a = length b \<and> memcmp a b = 0 \<longleftrightarrow> a = b"
  using memcmp_zero by auto

lemma rt_fail_find_eq:
  "rt_fail_find tab host = (if host = [] \<or> length host \<ge> 256 then None else find (\<lambda>e. rf_host e = host) tab)"
  by (simp add: rt_fail_find_def same_host)

lemma rt_fail_index_None: "rt_fail_index tab host i = None \<longleftrightarrow> (\<forall>e \<in> set tab. rf_host e \<noteq> host)"
  by (induction tab arbitrary: i) (auto simp: same_host)

lemma rt_fail_index_Some:
  "rt_fail_index tab host i = Some j \<Longrightarrow>
   \<exists>k < length tab. j = i + k \<and> rf_host (tab ! k) = host \<and> find (\<lambda>e. rf_host e = host) tab = Some (tab ! k)"
proof (induction tab arbitrary: i)
  case (Cons e tab)
  show ?case
  proof (cases "rf_host e = host")
    case True
    with Cons.prems show ?thesis by (intro exI [of _ 0]) (simp add: same_host)
  next
    case False
    with Cons obtain k where "k < length tab" "j = Suc i + k" "rf_host (tab ! k) = host"
      "find (\<lambda>e. rf_host e = host) tab = Some (tab ! k)" by (fastforce simp: same_host)
    with False show ?thesis by (intro exI [of _ "Suc k"]) simp
  qed
qed simp

lemma rt_fail_slot_Some:
  "rt_fail_slot tab i now slot = Some j \<Longrightarrow>
   slot = Some j \<or> (\<exists>k < length tab. j = i + k \<and>
     (rf_host (tab ! k) = [] \<or> rt_window_count (ring (rf_ring (tab ! k))) now RT_FAIL_WINDOW = 0))"
proof (induction tab arbitrary: i slot)
  case (Cons e tab)
  show ?case
  proof (cases "rf_host e = []")
    case True
    with Cons.prems show ?thesis by auto
  next
    case False
    with Cons.prems have "rt_fail_slot tab (i + 1) now (if slot = None \<and>
        rt_window_count (ring (rf_ring e)) now RT_FAIL_WINDOW = 0 then Some i else slot) = Some j" by simp
    from Cons.IH [OF this] show ?thesis
    proof
      assume "(if slot = None \<and> rt_window_count (ring (rf_ring e)) now RT_FAIL_WINDOW = 0
        then Some i else slot) = Some j"
      then show ?thesis by (auto split: if_splits intro!: exI [of _ 0])
    next
      assume "\<exists>k < length tab. j = i + 1 + k \<and>
        (rf_host (tab ! k) = [] \<or> rt_window_count (ring (rf_ring (tab ! k))) now RT_FAIL_WINDOW = 0)"
      then obtain k where "k < length tab" "j = i + 1 + k"
        "rf_host (tab ! k) = [] \<or> rt_window_count (ring (rf_ring (tab ! k))) now RT_FAIL_WINDOW = 0" by blast
      then show ?thesis by (intro disjI2 exI [of _ "Suc k"]) simp
    qed
  qed
qed simp

lemma rt_fail_slot_keeps [simp]: "rt_fail_slot tab k now (Some m) \<noteq> None"
  by (induction tab arbitrary: k m) auto

lemma rt_fail_slot_None:
  "rt_fail_slot tab i now slot = None \<Longrightarrow>
   \<forall>e \<in> set tab. rf_host e \<noteq> [] \<and> rt_window_count (ring (rf_ring e)) now RT_FAIL_WINDOW \<noteq> 0"
proof (induction tab arbitrary: i slot)
  case (Cons e tab)
  have e: "rf_host e \<noteq> []" using Cons.prems by (auto split: if_splits)
  have "slot = None"
    using Cons.prems e rt_fail_slot_keeps [of tab "i + 1" now] by (cases slot) (simp_all split: if_splits)
  moreover from this have "rt_window_count (ring (rf_ring e)) now RT_FAIL_WINDOW \<noteq> 0"
    using Cons.prems e rt_fail_slot_keeps [of tab "i + 1" now i] by (auto split: if_splits)
  ultimately show ?case using Cons e by auto
qed simp

lemma find_update_other:
  "k < length xs \<Longrightarrow> \<not> P (xs ! k) \<Longrightarrow> \<not> P y \<Longrightarrow> find P (xs[k := y]) = find P xs"
proof (induction xs arbitrary: k)
  case (Cons x xs)
  then show ?case by (cases k) simp_all
qed simp

lemma find_unique:
  "x \<in> set xs \<Longrightarrow> P x \<Longrightarrow> \<forall>z \<in> set xs. P z \<longrightarrow> z = x \<Longrightarrow> find P xs = Some x"
proof (induction xs)
  case (Cons y ys)
  show ?case
  proof (cases "P y")
    case True
    with Cons.prems(3) have "y = x" by (meson list.set_intros(1))
    with True show ?thesis by simp
  next
    case False
    with Cons.prems have "x \<in> set ys" by auto
    moreover have "\<forall>z \<in> set ys. P z \<longrightarrow> z = x" using Cons.prems(3) by (meson list.set_intros(2))
    ultimately have "find P ys = Some x" using Cons.IH Cons.prems(2) by blast
    with False show ?thesis by simp
  qed
qed simp

lemma fail_table_unique:
  "fail_table_ok tab \<Longrightarrow> i < length tab \<Longrightarrow> j < length tab \<Longrightarrow> rf_host (tab ! i) \<noteq> [] \<Longrightarrow>
   rf_host (tab ! i) = rf_host (tab ! j) \<Longrightarrow> i = j"
  unfolding fail_table_ok_def by blast

text \<open>
  What recording does to the table: nothing, or one entry is replaced by an entry of the
  host whose ring has just received the time; the entry replaced was the host's own, or
  free, or out of date.
\<close>

lemma rt_fail_record_cases:
  assumes "fail_table_ok tab" "host \<noteq> []" "length host < 256"
  obtains (full) "rt_fail_record tab host now = tab" "\<forall>e \<in> set tab. rf_host e \<noteq> host"
      "\<forall>e \<in> set tab. rf_host e \<noteq> [] \<and> rt_window_count (ring (rf_ring e)) now RT_FAIL_WINDOW \<noteq> 0"
  | (put) k r where "k < length tab" "length (ring r) = RT_FAIL_MAX" "head r < RT_FAIL_MAX"
      "rt_fail_record tab host now = tab[k := \<lparr>rf_host = host, rf_ring = rt_ring_push RT_FAIL_MAX r now\<rparr>]"
      "rf_host (tab ! k) = host \<and> r = rf_ring (tab ! k) \<or> (\<forall>e \<in> set tab. rf_host e \<noteq> host) \<and>
       (rf_host (tab ! k) = [] \<or> rt_window_count (ring (rf_ring (tab ! k))) now RT_FAIL_WINDOW = 0)"
proof (cases "rt_fail_index tab host 0")
  case (Some j)
  then obtain k where k: "k < length tab" "j = k" "rf_host (tab ! k) = host"
    using rt_fail_index_Some [of tab host 0 j] by auto
  have "length (ring (rf_ring (tab ! k))) = RT_FAIL_MAX" "head (rf_ring (tab ! k)) < RT_FAIL_MAX"
    using assms(1) nth_mem [OF k(1)] by (auto simp: fail_table_ok_def)
  moreover have "(tab ! k)\<lparr>rf_ring := x\<rparr> = \<lparr>rf_host = host, rf_ring = x\<rparr>" for x
    using k(3) by (cases "tab ! k") simp
  then have "rt_fail_record tab host now =
      tab[k := \<lparr>rf_host = host, rf_ring = rt_ring_push RT_FAIL_MAX (rf_ring (tab ! k)) now\<rparr>]"
    using k(2) Some assms by (simp add: rt_fail_record_def)
  ultimately show thesis using k by (intro put [of k "rf_ring (tab ! k)"]) simp_all
next
  case None
  then have new: "\<forall>e \<in> set tab. rf_host e \<noteq> host" by (simp add: rt_fail_index_None)
  show thesis
  proof (cases "rt_fail_slot tab 0 now None")
    case N: None
    with full None new rt_fail_slot_None [OF N] assms show thesis by (simp add: rt_fail_record_def)
  next
    case (Some k)
    with rt_fail_slot_Some [OF Some] have "k < length tab"
      "rf_host (tab ! k) = [] \<or> rt_window_count (ring (rf_ring (tab ! k))) now RT_FAIL_WINDOW = 0" by auto
    with put [of k "\<lparr>ring = replicate RT_FAIL_MAX 0, head = 0\<rparr>"] None Some new assms show thesis
      by (simp add: rt_fail_record_def)
  qed
qed




section \<open>Facts about the load budget\<close>

lemma loadcap_reserve_less: "limit \<noteq> 0 \<Longrightarrow> loadcap_reserve limit < limit"
  by (auto simp: loadcap_reserve_def word_less_nat_alt unat_div word_neq_0_conv)

lemma unat_general: "limit \<noteq> 0 \<Longrightarrow> unat (limit - loadcap_reserve limit) = unat limit - unat (loadcap_reserve limit)"
  using loadcap_reserve_less [of limit] by (simp add: unat_sub)

text \<open>A request: the units it needs, and whether it is a retry.\<close>

record load_request =
  lr_n :: u64
  lr_retry :: bool

text \<open>The requests of one second in the order they come: those that are admitted, and the counters after them.\<close>

fun loadcap_run :: "loadcap \<Rightarrow> int \<Rightarrow> u64 \<Rightarrow> load_request list \<Rightarrow> load_request list \<times> loadcap" where
  "loadcap_run cap now limit [] = ([], cap)"
| "loadcap_run cap now limit (q # qs) =
     (case loadcap_admit_retry_n cap now limit (lr_n q) (lr_retry q) of
        (ok, cap') \<Rightarrow> (case loadcap_run cap' now limit qs of
          (adm, cap'') \<Rightarrow> (if ok then q # adm else adm, cap'')))"

definition units :: "load_request list \<Rightarrow> nat" where
  "units qs = sum_list (map (\<lambda>q. unat (lr_n q)) qs)"

lemma units_simps [simp]: "units [] = 0" "units (q # qs) = unat (lr_n q) + units qs"
  by (simp_all add: units_def)

text \<open>
  The counters of a window that is under way stay within the two pools.
\<close>

definition loadcap_inv :: "int \<Rightarrow> u64 \<Rightarrow> loadcap \<Rightarrow> bool" where
  "loadcap_inv now limit cap \<longleftrightarrow> lc_second cap = now \<and>
     lc_spent cap \<le> limit - loadcap_reserve limit \<and> lc_spent_res cap \<le> loadcap_reserve limit"

lemma loadcap_step:
  assumes "limit \<noteq> 0" "loadcap_inv now limit cap" "lr_n q \<noteq> 0"
    and "loadcap_admit_retry_n cap now limit (lr_n q) (lr_retry q) = (ok, cap')"
  shows "loadcap_inv now limit cap' \<and>
    (\<not> ok \<longrightarrow> cap' = cap) \<and>
    (ok \<longrightarrow> lr_n q > limit - loadcap_reserve limit \<and> lc_spent cap = 0 \<and> lc_spent_res cap = 0 \<and>
         unat (lc_spent cap') + unat (lc_spent_res cap') = unat limit \<or>
       unat (lc_spent cap') + unat (lc_spent_res cap') =
         unat (lc_spent cap) + unat (lc_spent_res cap) + unat (lr_n q))"
proof -
  let ?r = "loadcap_reserve limit" and ?g = "limit - loadcap_reserve limit"
  have inv: "lc_second cap = now" "lc_spent cap \<le> ?g" "lc_spent_res cap \<le> ?r"
    using assms(2) by (simp_all add: loadcap_inv_def)
  have g: "unat ?g + unat ?r = unat limit"
    using unat_general [OF assms(1)] loadcap_reserve_less [OF assms(1)] by (simp add: word_less_nat_alt)
  consider (wedge) "lr_n q > ?g" | (general) "lr_n q \<le> ?g" "lc_spent cap \<le> ?g - lr_n q"
    | (denied) "lr_n q \<le> ?g" "\<not> lc_spent cap \<le> ?g - lr_n q" "\<not> lr_retry q \<or> lr_n q > ?r - lc_spent_res cap"
    | (reserve) "lr_n q \<le> ?g" "\<not> lc_spent cap \<le> ?g - lr_n q" "lr_retry q" "lr_n q \<le> ?r - lc_spent_res cap"
    by fastforce
  then show ?thesis
  proof cases
    case wedge
    with assms(1,3,4) inv g show ?thesis
      by (auto simp: loadcap_admit_retry_n_def Let_def loadcap_inv_def split: if_splits)
  next
    case general
    then have "unat (lc_spent cap) + unat (lr_n q) \<le> unat ?g"
      by (simp add: word_le_nat_alt unat_sub)
    then have "unat (lc_spent cap + lr_n q) = unat (lc_spent cap) + unat (lr_n q)"
      by (metis le_less_trans unat_add_lem unsigned_less)
    moreover have "loadcap_admit_retry_n cap now limit (lr_n q) (lr_retry q) =
        (True, cap\<lparr>lc_spent := lc_spent cap + lr_n q\<rparr>)"
      using general assms(1,3) inv(1) by (simp add: loadcap_admit_retry_n_def Let_def not_less)
    ultimately show ?thesis
      using assms(4) inv \<open>unat (lc_spent cap) + unat (lr_n q) \<le> unat ?g\<close>
      by (auto simp: loadcap_inv_def word_le_nat_alt)
  next
    case denied
    with assms(1,3,4) inv assms(2) show ?thesis
      by (auto simp: loadcap_admit_retry_n_def Let_def split: if_splits)
  next
    case reserve
    then have le: "unat (lc_spent_res cap) + unat (lr_n q) \<le> unat ?r"
      using inv(3) by (simp add: word_le_nat_alt unat_sub)
    then have "unat (lc_spent_res cap + lr_n q) = unat (lc_spent_res cap) + unat (lr_n q)"
      by (metis le_less_trans unat_add_lem unsigned_less)
    moreover have "loadcap_admit_retry_n cap now limit (lr_n q) (lr_retry q) =
        (True, cap\<lparr>lc_spent_res := lc_spent_res cap + lr_n q\<rparr>)"
      using reserve assms(1,3) inv(1) by (simp add: loadcap_admit_retry_n_def Let_def not_less)
    ultimately show ?thesis
      using assms(4) inv le by (auto simp: loadcap_inv_def word_le_nat_alt)
  qed
qed

definition fresh_window :: "int \<Rightarrow> loadcap \<Rightarrow> loadcap" where
  "fresh_window now cap = (if lc_second cap = now then cap else \<lparr>lc_second = now, lc_spent = 0, lc_spent_res = 0\<rparr>)"

lemma loadcap_admit_fresh:
  "limit \<noteq> 0 \<Longrightarrow> n \<noteq> 0 \<Longrightarrow>
   loadcap_admit_retry_n cap now limit n retry = loadcap_admit_retry_n (fresh_window now cap) now limit n retry"
  by (simp add: loadcap_admit_retry_n_def fresh_window_def Let_def)

lemma fresh_window_inv: "lc_second cap \<noteq> now \<Longrightarrow> loadcap_inv now limit (fresh_window now cap)"
  by (simp add: fresh_window_def loadcap_inv_def)

lemma loadcap_run_fresh:
  assumes "limit \<noteq> 0" "\<forall>q \<in> set qs. lr_n q \<noteq> 0" "qs \<noteq> []"
  shows "loadcap_run cap now limit qs = loadcap_run (fresh_window now cap) now limit qs"
  using assms loadcap_admit_fresh [of limit "lr_n (hd qs)" cap now] by (cases qs) simp_all

lemma loadcap_run_bound:
  assumes "limit \<noteq> 0" "\<forall>q \<in> set qs. lr_n q \<noteq> 0" "loadcap_inv now limit cap"
    and "loadcap_run cap now limit qs = (adm, cap')"
  shows "set adm \<subseteq> set qs \<and>
    (unat (lc_spent cap) + unat (lc_spent_res cap) + units adm \<le> unat limit \<or>
     unat (lc_spent cap) + unat (lc_spent_res cap) = 0 \<and> length adm = 1)"
  using assms(2-4)
proof (induction qs arbitrary: cap adm)
  case Nil
  with unat_general [OF assms(1)] loadcap_reserve_less [OF assms(1)] show ?case
    by (auto simp: loadcap_inv_def word_le_nat_alt word_less_nat_alt)
next
  case (Cons q qs)
  obtain ok c1 where s: "loadcap_admit_retry_n cap now limit (lr_n q) (lr_retry q) = (ok, c1)" by fastforce
  obtain a1 c2 where r: "loadcap_run c1 now limit qs = (a1, c2)" by fastforce
  have n: "lr_n q \<noteq> 0" "0 < unat (lr_n q)" using Cons.prems(1) by (simp_all add: unat_gt_0)
  have lim: "0 < unat limit" using assms(1) by (simp add: unat_gt_0)
  note step = loadcap_step [OF assms(1) Cons.prems(2) n(1) s]
  have r': "loadcap_run c1 now limit qs = (a1, cap')" and adm: "adm = (if ok then q # a1 else a1)"
    using Cons.prems(3) s r by simp_all
  have ih: "set a1 \<subseteq> set qs"
    "unat (lc_spent c1) + unat (lc_spent_res c1) + units a1 \<le> unat limit \<or>
     unat (lc_spent c1) + unat (lc_spent_res c1) = 0 \<and> length a1 = 1"
    using Cons.IH [OF _ _ r'] step Cons.prems(1) by simp_all
  have none: "a1 = []" if "units a1 = 0"
    using that ih(1) Cons.prems(1) by (cases a1) (auto simp: unat_eq_zero)
  show ?case
  proof (cases ok)
    case False
    with ih step adm show ?thesis by auto
  next
    case True
    with step consider
        "unat (lc_spent cap) + unat (lc_spent_res cap) = 0" "unat (lc_spent c1) + unat (lc_spent_res c1) = unat limit"
      | "unat (lc_spent c1) + unat (lc_spent_res c1) =
           unat (lc_spent cap) + unat (lc_spent_res cap) + unat (lr_n q)" by auto
    then show ?thesis using ih adm True none n(2) lim by cases auto
  qed
qed

lemma loadcap_run_first_attempts:
  assumes "limit \<noteq> 0" "loadcap_inv now limit cap"
    and "\<forall>q \<in> set qs. lr_n q \<noteq> 0 \<and> lr_n q \<le> limit - loadcap_reserve limit \<and> \<not> lr_retry q"
    and "loadcap_run cap now limit qs = (adm, cap')"
  shows "loadcap_inv now limit cap' \<and> lc_spent_res cap' = lc_spent_res cap"
  using assms(2-4)
proof (induction qs arbitrary: cap adm)
  case (Cons q qs)
  obtain ok c1 where s: "loadcap_admit_retry_n cap now limit (lr_n q) (lr_retry q) = (ok, c1)" by fastforce
  obtain a1 c2 where r: "loadcap_run c1 now limit qs = (a1, c2)" by fastforce
  have r': "loadcap_run c1 now limit qs = (a1, cap')" using Cons.prems(3) s r by simp
  have q: "lr_n q \<noteq> 0" "\<not> limit - loadcap_reserve limit < lr_n q" "\<not> lr_retry q"
    using Cons.prems(2) by (simp_all add: not_less)
  have "lc_spent_res c1 = lc_spent_res cap"
    using s q Cons.prems(1) assms(1)
    by (auto simp: loadcap_admit_retry_n_def Let_def loadcap_inv_def split: if_splits)
  with Cons.IH [OF _ _ r'] Cons.prems(2) loadcap_step [OF assms(1) Cons.prems(1) q(1) s] show ?case by simp
qed simp

text \<open>
  Claim C24.  The per-second load budget.  Among the requests that come within one second,
  in any order and with any mix of first attempts and retries, the loads that are admitted
  together stay within the limit; the only exception is a single request too large for the
  general pool, which is then the only one admitted in that second.
\<close>

theorem loadcap_window_bound:
  assumes "limit \<noteq> 0" "lc_second cap \<noteq> now" "\<forall>q \<in> set qs. lr_n q \<noteq> 0"
  shows "units (fst (loadcap_run cap now limit qs)) \<le> unat limit \<or>
    length (fst (loadcap_run cap now limit qs)) = 1"
proof (cases "qs = []")
  case False
  have "loadcap_run cap now limit qs = loadcap_run (fresh_window now cap) now limit qs"
    by (rule loadcap_run_fresh [OF assms(1,3) False])
  with loadcap_run_bound [OF assms(1,3) fresh_window_inv [OF assms(2)], of "fst (loadcap_run cap now limit qs)"
      "snd (loadcap_run cap now limit qs)"]
  show ?thesis by auto
qed simp

theorem loadcap_window_bound_witness:
  "units (fst (loadcap_run \<lparr>lc_second = 0, lc_spent = 0, lc_spent_res = 0\<rparr> 7 4
     (replicate 100 \<lparr>lr_n = 1, lr_retry = True\<rparr>))) \<le> 4 \<or>
   length (fst (loadcap_run \<lparr>lc_second = 0, lc_spent = 0, lc_spent_res = 0\<rparr> 7 4
     (replicate 100 \<lparr>lr_n = 1, lr_retry = True\<rparr>))) = 1"
  using loadcap_window_bound [of 4 "\<lparr>lc_second = 0, lc_spent = 0, lc_spent_res = 0\<rparr>" 7
     "replicate 100 \<lparr>lr_n = 1, lr_retry = True\<rparr>"]
  by simp



text \<open>
  A delay in seconds becomes a timer value in milliseconds without wrapping:
  the result is the delay itself, or the nearest end of the range of zero to one hour.
\<close>

theorem sec_to_msec_clamped_exact:
  "uint (sec_to_msec_clamped sec) = 1000 * max 0 (min 3600 sec)"
proof -
  have "uint (word_of_int sec * 1000 :: u64) = sec * 1000" if "0 \<le> sec" "sec \<le> 3600"
    using that by (simp add: uint_word_ariths uint_word_of_int)
  then show ?thesis by (auto simp: sec_to_msec_clamped_def)
qed

end
