(* ===== verification/Driver.thy ===== *)
theory Driver
  imports Ident Caps
begin

text \<open>
  The renewal driver of \<^verbatim>\<open>src/ngx_autocert_driver.c\<close>, first part: its data,
  the configuration it reads (\<^verbatim>\<open>src/ngx_autocert_conf.c\<close>), the freshness
  decision for one name, the failure backoff of configured names, the runtime markers on
  disk, and the launch of an order.

  Parameters of the model are collected in two records: \<open>env\<close> (the clock, the exit
  flags, the address parsers, the tree and hash of nginx, the certificate reader, the
  start of the order flow) and \<open>marker_io\<close> (what the system calls on a marker
  answer).
\<close>

section \<open>Configuration\<close>

datatype key_type = KEY_P256 | KEY_P384 | KEY_RSA2048 | KEY_RSA3072 | KEY_RSA4096
datatype store_layout = STORE_SECURE | STORE_CERTBOT
datatype challenge_type = CHALLENGE_HTTP_01 | CHALLENGE_TLS_ALPN_01 | CHALLENGE_DNS_01

text \<open>
  The main configuration of the HTTP module as far as the driver reads it.  A pointer that
  is only tested against NULL is a \<^typ>\<open>bool\<close>; an array pointer is an option.
  The resolver is identified by a number.
\<close>

record main_conf =
  mc_resolver :: "nat option"
  mc_resolver_timeout :: int
  mc_dns_hook_add :: bytes
  mc_dns_hook_remove :: bytes
  mc_dns_propagation_delay :: int
  mc_dns_hook_timeout :: int
  mc_key_types :: "key_type list option"
  mc_store :: store_layout
  mc_path :: bytes
  mc_renew_before :: int
  mc_challenge :: challenge_type
  mc_profile :: bytes
  mc_challenge_zone :: bool
  mc_alpn_zone :: bool
  mc_requests_zone :: bool
  mc_runtime_ttl :: int

record conf =
  configured :: bool
  resolver :: "nat option"
  resolver_timeout :: int
  dns_hook_add :: bytes
  dns_hook_remove :: bytes
  dns_propagation_delay :: int
  dns_hook_timeout :: int
  cert_key_types :: "key_type list option"
  store :: store_layout
  path :: bytes
  renew_before :: int
  challenge :: challenge_type
  profile :: bytes
  challenge_zone :: bool
  alpn_zone :: bool
  requests_zone :: bool
  runtime_ttl :: int

text \<open>\<^verbatim>\<open>ngx_memzero\<close> of a configuration.\<close>

definition zero_conf :: conf where
  "zero_conf = \<lparr>configured = False, resolver = None, resolver_timeout = 0, dns_hook_add = [],
     dns_hook_remove = [], dns_propagation_delay = 0, dns_hook_timeout = 0, cert_key_types = None,
     store = STORE_SECURE, path = [], renew_before = 0, challenge = CHALLENGE_HTTP_01, profile = [],
     challenge_zone = False, alpn_zone = False, requests_zone = False, runtime_ttl = 0\<rparr>"

text \<open>
  What the accessor finds in the cycle: whether there is an \<^verbatim>\<open>http\<close> block,
  the modules with their type and name, the main configurations by context index, and the
  resolver of the core location with whether it has a name server.
\<close>

record cycle =
  cy_http :: bool
  cy_modules :: "(bool \<times> bytes option \<times> nat) list"
  cy_main_conf :: "nat \<Rightarrow> main_conf option"
  cy_core_resolver :: "(nat \<times> bool) option"

fun find_module :: "(bool \<times> bytes option \<times> nat) list \<Rightarrow> nat option" where
  "find_module [] = None"
| "find_module ((is_http, name, ctx_index) # ms) =
     (if is_http \<and> name = Some (str ''ngx_http_autocert_module'') then Some ctx_index
      else find_module ms)"

definition get_conf :: "cycle \<Rightarrow> conf" where
  "get_conf cy =
     (if \<not> cy_http cy then zero_conf
      else case find_module (cy_modules cy) of
        None \<Rightarrow> zero_conf
      | Some ctx_index \<Rightarrow>
        (case cy_main_conf cy ctx_index of
           None \<Rightarrow> zero_conf
         | Some amcf \<Rightarrow>
             let out = \<lparr>configured = True, resolver = mc_resolver amcf,
                   resolver_timeout = mc_resolver_timeout amcf, dns_hook_add = mc_dns_hook_add amcf,
                   dns_hook_remove = mc_dns_hook_remove amcf,
                   dns_propagation_delay = mc_dns_propagation_delay amcf,
                   dns_hook_timeout = mc_dns_hook_timeout amcf, cert_key_types = mc_key_types amcf,
                   store = mc_store amcf, path = mc_path amcf, renew_before = mc_renew_before amcf,
                   challenge = mc_challenge amcf, profile = mc_profile amcf,
                   challenge_zone = mc_challenge_zone amcf, alpn_zone = mc_alpn_zone amcf,
                   requests_zone = mc_requests_zone amcf, runtime_ttl = mc_runtime_ttl amcf\<rparr>
             in
             if resolver out = None then
               (case cy_core_resolver cy of
                  Some (r, has_server) \<Rightarrow> if has_server then out\<lparr>resolver := Some r\<rparr> else out
                | None \<Rightarrow> out)
             else out))"

section \<open>Environment\<close>

text \<open>
  What \<^verbatim>\<open>ngx_http_autocert_cert_not_after\<close> reports of a stored pair: the
  expiry and the key family of the leaf; no file; a pair that is malformed, does not match
  or does not cover the name; any other failure to read.
\<close>

datatype family_id = EVP_PKEY_EC | EVP_PKEY_RSA | EVP_PKEY_OTHER
datatype cert_read = Cert_Ok int family_id | Cert_Declined | Cert_Abort | Cert_Error

record order =
  o_domain :: bytes
  o_directory_url :: bytes
  o_challenge :: challenge_type
  o_key_type :: key_type
  o_store :: store_layout
  o_store_path :: bytes
  o_profile :: bytes
  o_dns_hook_add :: bytes
  o_dns_hook_remove :: bytes
  o_dns_propagation_delay :: int
  o_dns_hook_timeout :: int
  o_challenge_zone :: bool
  o_alpn_zone :: bool
  o_counted :: bool
  o_retry_after :: int

record env =
  now :: int
  exiting :: bool
  inet_of :: inet
  rb_of :: "request rbtree_ops"
  crc_of :: "bytes \<Rightarrow> u32"
  cert_not_after :: "bytes \<Rightarrow> bytes option \<Rightarrow> bytes \<Rightarrow> cert_read"
  order_start :: "order \<Rightarrow> bool"

section \<open>Freshness of a stored certificate\<close>

abbreviation (input) NGX_MAX_PATH :: nat where "NGX_MAX_PATH \<equiv> 4096"
abbreviation (input) DOMAIN_SEG_MAX :: nat where "DOMAIN_SEG_MAX \<equiv> 288"

definition cert_read_due :: "cert_read \<Rightarrow> bool" where
  "cert_read_due rc \<longleftrightarrow> rc = Cert_Declined \<or> rc = Cert_Abort"

definition is_rsa :: "key_type \<Rightarrow> bool" where
  "is_rsa kt \<longleftrightarrow> kt = KEY_RSA2048 \<or> kt = KEY_RSA3072 \<or> kt = KEY_RSA4096"

definition live_part :: "conf \<Rightarrow> bytes" where
  "live_part acf = (if store acf = STORE_CERTBOT then str ''/live'' else [])"

text \<open>
  The file of one certificate: store root, \<^verbatim>\<open>/live\<close> in the certbot layout,
  the segment of the name, and the leaf.
\<close>

definition store_file :: "conf \<Rightarrow> bytes \<Rightarrow> bytes \<Rightarrow> bytes" where
  "store_file acf seg leaf = path acf @ live_part acf @ [c_slash] @ seg @ leaf"

definition chain_leaf :: "key_type \<Rightarrow> bytes" where
  "chain_leaf kt = (if is_rsa kt then str ''/fullchain.rsa.pem'' else str ''/fullchain.pem'')"

definition key_leaf :: "key_type \<Rightarrow> bytes" where
  "key_leaf kt = (if is_rsa kt then str ''/privkey.rsa.pem'' else str ''/privkey.pem'')"

text \<open>
  The name a leaf is checked against: a wildcard is probed with a concrete label in the
  place of the asterisk; a name of 256 bytes or more is not checked.
\<close>

definition verify_name :: "bytes \<Rightarrow> bytes option" where
  "verify_name name =
     (if length name < 256 then
        Some (if length name > 2 \<and> name ! 0 = c_star \<and> name ! 1 = c_dot then 0x78 # drop 1 name else name)
      else None)"

definition name_due :: "env \<Rightarrow> conf \<Rightarrow> bytes \<Rightarrow> key_type \<Rightarrow> bool" where
  "name_due E acf name kt =
     (if length (path acf) = 0 then True
      else if length name = 0 \<or> name ! 0 = c_dot then False
      else if list_ex (\<lambda>c. c = c_slash \<or> c = 0) name then False
      else case fs_segment (inet_of E) DOMAIN_SEG_MAX name of
        None \<Rightarrow> False
      | Some seg \<Rightarrow>
        if seg = [] then False
        else if length (store_file acf seg (chain_leaf kt)) + 1 > NGX_MAX_PATH then False
        else if length (store_file acf seg (key_leaf kt)) + 1 > NGX_MAX_PATH then False
        else
          (let want_id = (if is_rsa kt then EVP_PKEY_RSA else EVP_PKEY_EC);
               rc = cert_not_after E (store_file acf seg (chain_leaf kt)) (verify_name name)
                      (store_file acf seg (key_leaf kt))
           in case rc of
                Cert_Ok not_after stored_id \<Rightarrow>
                  if stored_id \<noteq> want_id then True
                  else if now E \<ge> not_after - renew_before acf then True
                  else False
              | _ \<Rightarrow> cert_read_due rc))"

section \<open>Per-CA engines and the backoff of configured names\<close>

abbreviation (input) BACKOFF_BASE :: int where "BACKOFF_BASE \<equiv> 60"
abbreviation (input) BACKOFF_MAXSHIFT :: u64 where "BACKOFF_MAXSHIFT \<equiv> 6"
abbreviation (input) BACKOFF_CAP :: int where "BACKOFF_CAP \<equiv> 3600"
abbreviation (input) MAX_SIZE_T :: nat where "MAX_SIZE_T \<equiv> 2 ^ 63 - 1"
abbreviation (input) BACKOFF_SIZE :: nat where "BACKOFF_SIZE \<equiv> 16"

record backoff =
  next_eligible :: int
  fails :: u64

text \<open>
  \<open>ca_account\<close> is whether the account pointer is set; \<open>ca_backoff\<close> is the
  allocated array, whose size the code keeps in \<open>ca_backoff_n\<close>.
\<close>

record ca_state =
  ca_url :: bytes
  ca_names :: "bytes list option"
  ca_account :: bool
  ca_account_live :: bool
  ca_backoff :: "backoff list option"
  ca_backoff_n :: nat
  ca_backoff_nkt :: nat

definition elts :: "'a list option \<Rightarrow> 'a list" where
  "elts a = (case a of None \<Rightarrow> [] | Some xs \<Rightarrow> xs)"

text \<open>The Boolean argument is the answer of the pool.\<close>

definition ca_backoff_ensure :: "bool \<Rightarrow> conf \<Rightarrow> ca_state \<Rightarrow> ngx_rc \<times> ca_state" where
  "ca_backoff_ensure ok acf st =
     (let names = length (elts (ca_names st));
          nkt = (case cert_key_types acf of Some kts \<Rightarrow> length kts | None \<Rightarrow> 1)
      in
      if names = 0 \<or> nkt = 0 then (NGX_ERROR, st)
      else if nkt > MAX_SIZE_T div names then (NGX_ERROR, st\<lparr>ca_backoff_n := 0\<rparr>)
      else
        let n = names * nkt in
        if ca_backoff st \<noteq> None \<and> ca_backoff_n st = n \<and> ca_backoff_nkt st = nkt then (NGX_OK, st)
        else if n > MAX_SIZE_T div BACKOFF_SIZE then (NGX_ERROR, st\<lparr>ca_backoff_n := 0\<rparr>)
        else if \<not> ok then (NGX_ERROR, st\<lparr>ca_backoff := None, ca_backoff_n := 0\<rparr>)
        else (NGX_OK, st\<lparr>ca_backoff := Some (replicate n \<lparr>next_eligible = 0, fails = 0\<rparr>),
                       ca_backoff_n := n, ca_backoff_nkt := nkt\<rparr>))"

definition backoff_record :: "int \<Rightarrow> ca_state \<Rightarrow> nat \<Rightarrow> bool \<Rightarrow> ca_state" where
  "backoff_record t st index success =
     (case ca_backoff st of
        None \<Rightarrow> st
      | Some bs \<Rightarrow>
          if index \<ge> ca_backoff_n st then st
          else if success then st\<lparr>ca_backoff := Some (bs[index := \<lparr>next_eligible = 0, fails = 0\<rparr>])\<rparr>
          else
            let n = fails (bs ! index) + 1;
                shift = (if n - 1 > BACKOFF_MAXSHIFT then BACKOFF_MAXSHIFT else n - 1);
                delay = push_bit (unat shift) BACKOFF_BASE;
                delay' = (if delay > BACKOFF_CAP then BACKOFF_CAP else delay)
            in st\<lparr>ca_backoff := Some (bs[index := \<lparr>next_eligible = t + delay', fails = n\<rparr>])\<rparr>)"

definition backoff_hold :: "ca_state \<Rightarrow> nat \<Rightarrow> int \<Rightarrow> ca_state" where
  "backoff_hold st index when =
     (case ca_backoff st of
        None \<Rightarrow> st
      | Some bs \<Rightarrow>
          if index \<ge> ca_backoff_n st then st
          else if when > next_eligible (bs ! index)
          then st\<lparr>ca_backoff := Some (bs[index := (bs ! index)\<lparr>next_eligible := when\<rparr>])\<rparr>
          else st)"

section \<open>Runtime markers\<close>

text \<open>
  What is found under the name of the marker in the directory of a host: a regular file
  with its contents and link count, or something else.  The store maps the path of each
  existing directory to the marker in it.
\<close>

datatype leaf = Regular bytes nat | Not_Regular

type_synonym store_fs = "bytes \<Rightarrow> leaf option option"

text \<open>
  The answers of the system calls: whether the directory can be pinned, the marker opened,
  inspected and truncated, and how many bytes a write or read transfers.
\<close>

record marker_io =
  io_pin :: bool
  io_open :: bool
  io_stat :: bool
  io_truncate :: bool
  io_transfer :: nat

definition runtime_dir :: "env \<Rightarrow> conf \<Rightarrow> bytes \<Rightarrow> nat \<Rightarrow> bytes option" where
  "runtime_dir E acf host cap =
     (case fs_segment (inet_of E) DOMAIN_SEG_MAX host of
        None \<Rightarrow> None
      | Some seg \<Rightarrow>
          if seg = [] \<or> length (path acf) = 0 then None
          else
            let need = length (path acf) + length (live_part acf) + 1 + length seg in
            if need \<ge> cap then None
            else Some (path acf @ live_part acf @ [c_slash] @ seg))"

text \<open>
  Opening creates an empty regular file when there is none, and fails on a symbolic link,
  a pipe without a reader or a directory; only a regular file with one link is truncated
  and written.
\<close>

definition runtime_marker_write :: "env \<Rightarrow> marker_io \<Rightarrow> conf \<Rightarrow> bytes \<Rightarrow> store_fs \<Rightarrow> store_fs" where
  "runtime_marker_write E io acf host fs =
     (case runtime_dir E acf host NGX_MAX_PATH of
        None \<Rightarrow> fs
      | Some dir \<Rightarrow>
          (case fs dir of
             None \<Rightarrow> fs
           | Some old \<Rightarrow>
               if \<not> io_pin io \<or> \<not> io_open io then fs
               else
                 (case (case old of None \<Rightarrow> Regular [] 1 | Some f \<Rightarrow> f) of
                    Not_Regular \<Rightarrow> fs
                  | Regular content nlink \<Rightarrow>
                      let opened = fs(dir \<mapsto> Some (Regular content nlink)) in
                      if \<not> io_stat io \<or> nlink \<noteq> 1 then opened
                      else if \<not> io_truncate io then opened
                      else fs(dir \<mapsto> Some (Regular (take (io_transfer io) host) nlink)))))"

definition runtime_marker_remove :: "env \<Rightarrow> marker_io \<Rightarrow> conf \<Rightarrow> bytes \<Rightarrow> store_fs \<Rightarrow> store_fs" where
  "runtime_marker_remove E io acf host fs =
     (case runtime_dir E acf host NGX_MAX_PATH of
        None \<Rightarrow> fs
      | Some dir \<Rightarrow>
          (case fs dir of
             None \<Rightarrow> fs
           | Some old \<Rightarrow> if \<not> io_pin io \<or> \<not> io_open io then fs else fs(dir \<mapsto> None)))"

text \<open>
  One entry of the store container, read back: the entry name, and its directory.
  \<open>NGX_DECLINED\<close> is \<^const>\<open>None\<close>.
\<close>

definition seed_read_marker :: "marker_io \<Rightarrow> bytes \<Rightarrow> leaf option option \<Rightarrow> bytes option" where
  "seed_read_marker io name dir =
     (if name \<noteq> [] \<and> name ! 0 = c_dot then None
      else case dir of
        None \<Rightarrow> None
      | Some marker \<Rightarrow>
          if \<not> io_pin io then None
          else (case marker of
             None \<Rightarrow> None
           | Some Not_Regular \<Rightarrow> None
           | Some (Regular content nlink) \<Rightarrow>
               if \<not> io_open io \<or> \<not> io_stat io then None
               else if length content = 0 \<or> length content > REQUEST_NAME_MAX then None
               else
                 let n = min (io_transfer io) (length content) in
                 if n = 0 \<or> n \<noteq> length content then None
                 else Some (take n content)))"

section \<open>The state of the driver\<close>

text \<open>
  The file-static variables of the driver: the engines, the order in flight, the cursors of
  the sweep and of the order in flight, which ledger its outcome goes to, whether the
  renewal timer was ever set up and the delay it is armed with, the two rolling windows, the shared registry, and the
  markers on disk.  \<open>d_pools\<close> are the answers of the memory pools, one list for each
  call that allocates; \<open>d_io\<close> the answers of the system calls, one record for each
  marker that is written or removed.
\<close>

record driver =
  d_cas :: "ca_state list"
  d_order :: "order option"
  d_sched_ca :: nat
  d_sched_index :: nat
  d_sched_kt :: nat
  d_cur_ca :: nat
  d_cur :: nat
  d_runtime :: bool
  d_armed :: bool
  d_timer :: "u64 option"
  d_order_ring :: rt_ring
  d_fails :: "rt_fail list"
  d_zone :: requests_zone
  d_fs :: store_fs
  d_pools :: "alloc list"
  d_io :: "marker_io list"

definition pool_next :: "driver \<Rightarrow> alloc \<times> driver" where
  "pool_next d = (case d_pools d of [] \<Rightarrow> ([], d) | p # ps \<Rightarrow> (p, d\<lparr>d_pools := ps\<rparr>))"

definition io_ok :: marker_io where
  "io_ok = \<lparr>io_pin = True, io_open = True, io_stat = True, io_truncate = True, io_transfer = 253\<rparr>"

definition io_next :: "driver \<Rightarrow> marker_io \<times> driver" where
  "io_next d = (case d_io d of [] \<Rightarrow> (io_ok, d) | i # is \<Rightarrow> (i, d\<lparr>d_io := is\<rparr>))"

definition set_ca :: "nat \<Rightarrow> ca_state \<Rightarrow> driver \<Rightarrow> driver" where
  "set_ca c st d = d\<lparr>d_cas := (d_cas d)[c := st]\<rparr>"

section \<open>Launching an order\<close>

text \<open>
  The allocations are the pool, the order and the copy of the name.  A runtime order never
  uses dns-01.
\<close>

definition make_order :: "conf \<Rightarrow> ca_state \<Rightarrow> bytes \<Rightarrow> key_type \<Rightarrow> bool \<Rightarrow> order" where
  "make_order acf st name kt runtime =
     \<lparr>o_domain = name, o_directory_url = ca_url st,
      o_challenge = (if runtime \<and> challenge acf = CHALLENGE_DNS_01 then CHALLENGE_HTTP_01 else challenge acf),
      o_key_type = kt, o_store = store acf, o_store_path = path acf, o_profile = profile acf,
      o_dns_hook_add = dns_hook_add acf, o_dns_hook_remove = dns_hook_remove acf,
      o_dns_propagation_delay = dns_propagation_delay acf, o_dns_hook_timeout = dns_hook_timeout acf,
      o_challenge_zone = challenge_zone acf, o_alpn_zone = alpn_zone acf, o_counted = runtime,
      o_retry_after = 0\<rparr>"

definition start_order_for ::
  "env \<Rightarrow> conf \<Rightarrow> ca_state \<Rightarrow> bytes \<Rightarrow> key_type \<Rightarrow> bool \<Rightarrow> driver \<Rightarrow> ngx_rc \<times> driver" where
  "start_order_for E acf st name kt runtime d0 =
     (if d_order d0 \<noteq> None then (NGX_ERROR, d0)
      else
        let (pool, d) = pool_next d0;
            (created, a1) = alloc_next pool;
            (got_order, a2) = alloc_next a1;
            (got_name, _) = alloc_next a2
        in
        if \<not> created then (NGX_ERROR, d)
        else if \<not> got_order then (NGX_ERROR, d)
        else if \<not> got_name then (NGX_ERROR, d)
        else
          let ord = make_order acf st name kt runtime in
          if \<not> order_start E ord then (NGX_ERROR, d\<lparr>d_order := None, d_runtime := runtime\<rparr>)
          else (NGX_OK, d\<lparr>d_order := Some ord, d_runtime := runtime\<rparr>))"

end
