(* ===== verification/Scheduler.thy ===== *)
theory Scheduler
  imports Driver
begin

text \<open>
  The renewal scheduler of \<^verbatim>\<open>src/ngx_autocert_driver.c\<close>: the timer tick, the
  sweep over certificate authorities, names and key types, the service of runtime requests,
  and the completion of an order.  One order is in flight at a time; its completion resumes
  the sweep, and when nothing is left to do the timer is armed again.
\<close>

section \<open>Runtime requests\<close>

text \<open>
  The first configured name, over the authorities in turn, that covers the host; the test
  of the code is whether there is one.
\<close>

definition name_is_config :: "ca_state list \<Rightarrow> bytes \<Rightarrow> bytes option" where
  "name_is_config cas host =
     find (\<lambda>name. name_covers name host) (concat (map (\<lambda>st. elts (ca_names st)) cas))"

definition zone_set_state :: "env \<Rightarrow> bytes \<Rightarrow> nat \<Rightarrow> int \<Rightarrow> driver \<Rightarrow> ngx_rc \<times> driver" where
  "zone_set_state E h state ne d =
     (case requests_set_state (crc_of E) (now E) (d_zone d) h state ne of
        (rc, z) \<Rightarrow> (rc, d\<lparr>d_zone := z\<rparr>))"

definition rt_order_hold :: "env \<Rightarrow> driver \<Rightarrow> int" where
  "rt_order_hold E d =
     (let oldest = rt_window_oldest (ring (d_order_ring d)) (now E) RT_ORDER_WINDOW in
      if oldest \<noteq> 0 then oldest + RT_ORDER_WINDOW + 1 else now E + RT_ORDER_WINDOW)"

definition rt_fail_hold :: "env \<Rightarrow> bytes \<Rightarrow> driver \<Rightarrow> int" where
  "rt_fail_hold E h d =
     (let oldest = (case rt_fail_find (d_fails d) h of
                      Some fe \<Rightarrow> rt_window_oldest (ring (rf_ring fe)) (now E) RT_FAIL_WINDOW
                    | None \<Rightarrow> 0) in
      if oldest \<noteq> 0 then oldest + RT_FAIL_WINDOW + 1 else now E + RT_FAIL_WINDOW)"

text \<open>
  One host that was drained: what becomes of it, and whether the loop is left.
\<close>

definition dispose_host :: "env \<Rightarrow> conf \<Rightarrow> ca_state \<Rightarrow> key_type \<Rightarrow> bytes \<Rightarrow> driver \<Rightarrow> bool \<times> driver" where
  "dispose_host E acf st kt h d =
     (case name_is_config (d_cas d) h of
        Some cover \<Rightarrow>
          if \<not> name_due E acf cover kt
          then (False, snd (zone_set_state E h REQ_ISSUED 0 d))
          else (False, snd (zone_set_state E h REQ_REQUESTED (now E + 300) d))
      | None \<Rightarrow>
          if rt_order_at_cap (d_order_ring d) (now E)
          then (False, snd (zone_set_state E h REQ_REQUESTED (rt_order_hold E d) d))
          else if rt_fail_at_cap (d_fails d) h (now E)
          then (False, snd (zone_set_state E h REQ_REQUESTED (rt_fail_hold E h d) d))
          else
            (case start_order_for E acf st h kt True d of
               (NGX_OK, d') \<Rightarrow> (True, d')
             | (_, d') \<Rightarrow> (False, snd (zone_set_state E h REQ_FAILED 0 d'))))"

text \<open>
  The drain loop, one host at a time; \<^const>\<open>None\<close> is the fuel running out.
\<close>

fun pump_drain :: "nat \<Rightarrow> env \<Rightarrow> conf \<Rightarrow> ca_state \<Rightarrow> key_type \<Rightarrow> driver \<Rightarrow> driver option" where
  "pump_drain 0 E acf st kt d = None"
| "pump_drain (Suc fuel) E acf st kt d =
     (if exiting E then Some d
      else
        let (pool, d1) = pool_next d;
            (ok, pool') = alloc_next pool
        in
        if \<not> ok then Some d1
        else
          (case requests_drain (rb_of E) (now E) (d_zone d1) pool' 1 of
             (n, hosts, z) \<Rightarrow>
               let d2 = d1\<lparr>d_zone := z\<rparr> in
               if n \<le> 0 then Some d2
               else
                 (case dispose_host E acf st kt (hosts ! 0) d2 of
                    (True, d3) \<Rightarrow> Some d3
                  | (False, d3) \<Rightarrow> pump_drain fuel E acf st kt d3)))"

text \<open>The renewal scan over the issued names.\<close>

fun requeue_due :: "env \<Rightarrow> conf \<Rightarrow> key_type \<Rightarrow> bytes list \<Rightarrow> driver \<Rightarrow> driver" where
  "requeue_due E acf kt [] d = d"
| "requeue_due E acf kt (h # hs) d =
     requeue_due E acf kt hs
       (if name_is_config (d_cas d) h \<noteq> None then d
        else if name_due E acf h kt then snd (zone_set_state E h REQ_REQUESTED 0 d)
        else d)"

definition renewal_scan :: "env \<Rightarrow> conf \<Rightarrow> key_type \<Rightarrow> driver \<Rightarrow> driver" where
  "renewal_scan E acf kt d0 =
     (let (pool, d) = pool_next d0; (ok, pool') = alloc_next pool in
      if \<not> ok then d
      else case requests_list_issued (rb_of E) (d_zone d) pool' 0 of
        (m, issued) \<Rightarrow> if m > 0 then requeue_due E acf kt issued d else d)"

fun remove_markers :: "env \<Rightarrow> conf \<Rightarrow> bytes list \<Rightarrow> driver \<Rightarrow> driver" where
  "remove_markers E acf [] d = d"
| "remove_markers E acf (h # hs) d =
     (case io_next d of (io, d1) \<Rightarrow>
        remove_markers E acf hs (d1\<lparr>d_fs := runtime_marker_remove E io acf h (d_fs d1)\<rparr>))"

definition idle_gc :: "env \<Rightarrow> conf \<Rightarrow> driver \<Rightarrow> driver" where
  "idle_gc E acf d0 =
     (if \<not> runtime_ttl acf > 0 then d0
      else
        let (pool, d) = pool_next d0; (ok, pool') = alloc_next pool in
        if \<not> ok then d
        else case requests_gc (rb_of E) (now E) (d_zone d) (runtime_ttl acf) pool' of
          (n_ev, evicted, z) \<Rightarrow>
            let d' = d\<lparr>d_zone := z\<rparr> in
            if n_ev > 0 then remove_markers E acf evicted d' else d')"

definition runtime_key_type :: "conf \<Rightarrow> key_type" where
  "runtime_key_type acf = (case elts (cert_key_types acf) of kt # _ \<Rightarrow> kt | [] \<Rightarrow> KEY_P256)"

text \<open>
  The fuel is one more than the capacity of the registry, plus one for the drain that
  finds nothing.
\<close>

definition pump_runtime :: "env \<Rightarrow> conf \<Rightarrow> driver \<Rightarrow> driver option" where
  "pump_runtime E acf d =
     (if \<not> requests_zone acf \<or> d_cas d = [] then Some d
      else
        let st = hd (d_cas d) in
        if \<not> ca_account_live st \<or> \<not> ca_account st then Some d
        else
          let kt = runtime_key_type acf;
              (pool, d1) = pool_next d
          in
          if \<not> fst (alloc_next pool) then Some d1
          else map_option (\<lambda>d2. idle_gc E acf (renewal_scan E acf kt d2))
                 (pump_drain (REQUESTS_MAX + 2) E acf st kt d1))"

section \<open>The sweep\<close>

abbreviation (input) SCHED_INTERVAL :: u64 where "SCHED_INTERVAL \<equiv> 43200000"
abbreviation (input) SCHED_FLOOR :: u64 where "SCHED_FLOOR \<equiv> 60000"
abbreviation (input) SCHED_INITIAL :: u64 where "SCHED_INITIAL \<equiv> 1000"

text \<open>
  The three nested loops, over key types, names and authorities.  The list is what is left
  of the range of the loop variable; the cursors are advanced in the state as the code
  does.  The Boolean result is whether an order was launched, in which case the pump
  returns.
\<close>

fun kt_loop :: "env \<Rightarrow> conf \<Rightarrow> nat \<Rightarrow> nat \<Rightarrow> bytes \<Rightarrow> nat list \<Rightarrow> driver \<Rightarrow> bool \<times> driver" where
  "kt_loop E acf c i name [] d = (False, d)"
| "kt_loop E acf c i name (k # ks) d0 =
     (let d = d0\<lparr>d_sched_kt := k + 1\<rparr>;
          st = d_cas d ! c;
          kt = elts (cert_key_types acf) ! k;
          slot = i * ca_backoff_nkt st + k
      in
      if next_eligible (elts (ca_backoff st) ! slot) > now E then kt_loop E acf c i name ks d
      else if \<not> name_due E acf name kt then kt_loop E acf c i name ks d
      else
        (case start_order_for E acf st name kt False (d\<lparr>d_cur_ca := c, d_cur := slot\<rparr>) of
           (NGX_OK, d') \<Rightarrow> (True, d')
         | (_, d') \<Rightarrow>
             kt_loop E acf c i name ks (set_ca c (backoff_record (now E) (d_cas d' ! c) slot False) d')))"

fun name_loop :: "env \<Rightarrow> conf \<Rightarrow> nat \<Rightarrow> nat list \<Rightarrow> driver \<Rightarrow> bool \<times> driver" where
  "name_loop E acf c [] d = (False, d)"
| "name_loop E acf c (i # is) d =
     (let st = d_cas d ! c in
      case kt_loop E acf c i (elts (ca_names st) ! i) [d_sched_kt d..<ca_backoff_nkt st] d of
        (True, d') \<Rightarrow> (True, d')
      | (False, d') \<Rightarrow> name_loop E acf c is (d'\<lparr>d_sched_index := i + 1, d_sched_kt := 0\<rparr>))"

text \<open>One authority: whether it is skipped, and its names otherwise.\<close>

definition ca_visit :: "env \<Rightarrow> conf \<Rightarrow> nat \<Rightarrow> driver \<Rightarrow> bool \<times> driver" where
  "ca_visit E acf c d0 =
     (let st = d_cas d0 ! c in
      if \<not> ca_account_live st \<or> \<not> ca_account st then (False, d0)
      else if elts (ca_names st) = [] then (False, d0)
      else
        let (pool, d) = pool_next d0 in
        case ca_backoff_ensure (fst (alloc_next pool)) acf st of
          (NGX_OK, st') \<Rightarrow>
            name_loop E acf c [d_sched_index d..<length (elts (ca_names st'))] (set_ca c st' d)
        | (_, st') \<Rightarrow> (False, set_ca c st' d))"

fun ca_loop :: "env \<Rightarrow> conf \<Rightarrow> nat list \<Rightarrow> driver \<Rightarrow> bool \<times> driver" where
  "ca_loop E acf [] d = (False, d)"
| "ca_loop E acf (c # cs) d =
     (case ca_visit E acf c d of
        (True, d') \<Rightarrow> (True, d')
      | (False, d') \<Rightarrow> ca_loop E acf cs (d'\<lparr>d_sched_ca := c + 1, d_sched_index := 0, d_sched_kt := 0\<rparr>))"

section \<open>Arming the timer\<close>

text \<open>
  The soonest end of a hold that lies in the future, 0 for none, over the slots of all
  authorities.
\<close>

fun soonest_loop :: "int \<Rightarrow> int list \<Rightarrow> int \<Rightarrow> int" where
  "soonest_loop t [] soonest = soonest"
| "soonest_loop t (e # es) soonest =
     soonest_loop t es (if e > t \<and> (soonest = 0 \<or> e < soonest) then e else soonest)"

definition held_until :: "driver \<Rightarrow> int list" where
  "held_until d =
     map next_eligible (concat (map (\<lambda>st. take (ca_backoff_n st) (elts (ca_backoff st))) (d_cas d)))"

text \<open>The arithmetic is the code's, on 64-bit unsigned integers.\<close>

definition sched_interval :: "env \<Rightarrow> conf \<Rightarrow> driver \<Rightarrow> u64" where
  "sched_interval E acf d =
     (let interval0 = SCHED_INTERVAL;
          half = (word_of_int (renew_before acf) * 1000) div 2 :: u64;
          interval1 = (if configured acf \<and> renew_before acf > 0 \<and> half < interval0 then half else interval0);
          ttl_ms = word_of_int (runtime_ttl acf) * 1000 :: u64;
          interval2 = (if configured acf \<and> runtime_ttl acf > 0 \<and> requests_zone acf \<and> ttl_ms < interval1
                       then ttl_ms else interval1);
          soonest = soonest_loop (now E) (held_until d) 0;
          until = word_of_int (soonest - now E) * 1000 :: u64;
          interval3 = (if soonest \<noteq> 0 \<and> until < interval2 then until else interval2)
      in if interval3 < SCHED_FLOOR then SCHED_FLOOR else interval3)"

definition rearm :: "env \<Rightarrow> conf \<Rightarrow> driver \<Rightarrow> driver" where
  "rearm E acf d = d\<lparr>d_timer := Some (sched_interval E acf d)\<rparr>"

section \<open>The pump and its callers\<close>

definition sched_pump :: "env \<Rightarrow> cycle \<Rightarrow> driver \<Rightarrow> driver option" where
  "sched_pump E cy d =
     (if exiting E then Some d
      else if d_order d \<noteq> None then Some d
      else
        let acf = get_conf cy in
        if \<not> configured acf then Some (rearm E acf d)
        else if \<not> challenge_zone acf then Some (rearm E acf d)
        else
          (case ca_loop E acf [d_sched_ca d..<length (d_cas d)] d of
             (True, d') \<Rightarrow> Some d'
           | (False, d') \<Rightarrow>
               (case pump_runtime E acf d' of
                  None \<Rightarrow> None
                | Some d'' \<Rightarrow>
                    if d_order d'' \<noteq> None then Some d'' else Some (rearm E acf d''))))"

text \<open>\<^verbatim>\<open>ngx_autocert_start_order\<close>: the first scan is armed once, when the account is live.\<close>

definition start_order :: "driver \<Rightarrow> driver" where
  "start_order d = (if d_armed d then d else d\<lparr>d_armed := True, d_timer := Some SCHED_INITIAL\<rparr>)"

definition sched_handler :: "env \<Rightarrow> cycle \<Rightarrow> driver \<Rightarrow> driver option" where
  "sched_handler E cy d =
     (if exiting E then Some d
      else if d_order d \<noteq> None then Some (d\<lparr>d_timer := Some SCHED_INTERVAL\<rparr>)
      else sched_pump E cy (d\<lparr>d_sched_ca := 0, d_sched_index := 0, d_sched_kt := 0\<rparr>))"

definition rt_order_accounted :: "env \<Rightarrow> driver \<Rightarrow> driver" where
  "rt_order_accounted E d = d\<lparr>d_order_ring := rt_order_record (d_order_ring d) (now E)\<rparr>"

text \<open>
  The record of an outcome.  A runtime order writes to the registry, a configured name to
  the backoff of its slot.
\<close>

definition record_outcome :: "env \<Rightarrow> cycle \<Rightarrow> order \<Rightarrow> bool \<Rightarrow> driver \<Rightarrow> driver" where
  "record_outcome E cy ord success d =
     (if d_runtime d then
        let acf = get_conf cy in
        if \<not> requests_zone acf then d
        else
          let hold = (if \<not> success \<and> o_retry_after ord > 0 then o_retry_after ord else 0);
              d1 = (if \<not> success then d\<lparr>d_fails := rt_fail_record (d_fails d) (o_domain ord) (now E)\<rparr> else d);
              (io, d2) = (if success then io_next d1 else (io_ok, d1));
              d3 = (if success
                    then d2\<lparr>d_fs := runtime_marker_write E io acf (o_domain ord) (d_fs d2)\<rparr> else d2);
              (rc, d4) = zone_set_state E (o_domain ord) (if success then REQ_ISSUED else REQ_FAILED) hold d3
          in if rc \<noteq> NGX_OK then snd (zone_set_state E (o_domain ord) REQ_REQUESTED hold d4) else d4
      else
        let st = backoff_record (now E) (d_cas d ! d_cur_ca d) (d_cur d) success;
            st' = (if \<not> success \<and> o_retry_after ord > 0
                   then backoff_hold st (d_cur d) (o_retry_after ord) else st)
        in set_ca (d_cur_ca d) st' d)"

definition order_complete :: "env \<Rightarrow> cycle \<Rightarrow> order \<Rightarrow> bool \<Rightarrow> driver \<Rightarrow> driver option" where
  "order_complete E cy ord success d =
     sched_pump E cy ((record_outcome E cy ord success d)\<lparr>d_order := None\<rparr>)"

end
