(* ===== verification/Scheduler_Correct.thy ===== *)
theory Scheduler_Correct
  imports Scheduler
begin

text \<open>
  Properties of the scheduler: the service of runtime requests converges and strands no
  request, a launched order is for a name that is due, and a worker that is not exiting
  always has an order in flight or a timer armed.
\<close>

section \<open>Hosts of the registry by state\<close>

definition eligible_hosts :: "int \<Rightarrow> requests_zone \<Rightarrow> bytes set" where
  "eligible_hosts t z = {h. \<exists>rn. requests_view z h = Some rn \<and> drain_eligible t rn}"

definition pending_hosts :: "requests_zone \<Rightarrow> bytes set" where
  "pending_hosts z = {h. \<exists>rn. requests_view z h = Some rn \<and> rn_state rn = REQ_PENDING}"

lemma hosts_by_view:
  "requests_view z' = requests_view z \<Longrightarrow> eligible_hosts t z' = eligible_hosts t z"
  "requests_view z' = requests_view z \<Longrightarrow> pending_hosts z' = pending_hosts z"
  by (simp_all add: eligible_hosts_def pending_hosts_def)

lemma hosts_update:
  assumes "requests_view z' = (requests_view z)(h \<mapsto> rn)"
  shows "eligible_hosts t z' = (if drain_eligible t rn then insert h (eligible_hosts t z) else eligible_hosts t z - {h})"
    and "pending_hosts z' = (if rn_state rn = REQ_PENDING then insert h (pending_hosts z) else pending_hosts z - {h})"
  using assms by (auto simp: eligible_hosts_def pending_hosts_def)

lemma view_dom_finite: "finite (dom (requests_view z))"
proof (cases "rz_sh z")
  case (Some sh)
  have "dom (requests_view z) \<subseteq> rn_host ` set (inorder (rq_rbtree sh))"
    using Some by (auto simp: requests_view_def dest!: find_name_SomeD)
  then show ?thesis by (rule finite_subset) simp
qed (simp add: requests_view_def dom_def)

lemma eligible_hosts_finite: "finite (eligible_hosts t z)"
  by (rule finite_subset [OF _ view_dom_finite [of z]]) (auto simp: eligible_hosts_def)

lemma eligible_hosts_card:
  assumes "requests_inv crc z"
  shows "card (eligible_hosts t z) \<le> REQUESTS_MAX"
proof (cases "rz_sh z")
  case None
  then show ?thesis by (simp add: eligible_hosts_def requests_view_def)
next
  case (Some sh)
  let ?ns = "inorder (rq_rbtree sh)"
  have "eligible_hosts t z \<subseteq> rn_host ` set ?ns"
    using Some by (auto simp: eligible_hosts_def requests_view_def dest!: find_name_SomeD)
  then have "card (eligible_hosts t z) \<le> card (rn_host ` set ?ns)" by (intro card_mono) simp_all
  also have "\<dots> \<le> length ?ns" using card_image_le [of "set ?ns" rn_host] card_length [of ?ns] by simp
  also have "\<dots> \<le> REQUESTS_MAX" using assms Some by (simp add: requests_inv_def sh_inv_def)
  finally show ?thesis .
qed

section \<open>Operations of the registry as the driver uses them\<close>

definition is_active :: "requests_zone \<Rightarrow> bool" where
  "is_active z \<longleftrightarrow> active_sh z \<noteq> None"

lemma requests_drain_active [simp]: "is_active (snd (snd (requests_drain rb t z pool cap))) = is_active z"
  by (auto simp: is_active_def requests_drain_def Let_def active_sh_def split: option.splits if_splits)

lemma requests_set_state_active [simp]: "is_active (snd (requests_set_state crc t z h st ne)) = is_active z"
  by (auto simp: is_active_def requests_set_state_def active_sh_def put_node_def Let_def split: option.splits if_splits)

lemma requests_gc_active [simp]:
  assumes "rbtree_ok rb" "requests_inv crc z"
  shows "is_active (snd (snd (requests_gc rb t z ttl pool))) = is_active z"
proof (cases "is_active z \<and> 0 < ttl")
  case True
  then obtain sh where "active_sh z = Some sh" "0 < ttl" by (auto simp: is_active_def)
  moreover obtain rc out z' where gc: "requests_gc rb t z ttl pool = (rc, out, z')" by (metis surj_pair)
  ultimately show ?thesis using requests_gc_effect [OF assms _ _ gc] True by (auto simp: is_active_def)
next
  case False
  then show ?thesis by (auto simp: requests_gc_def is_active_def)
qed

text \<open>A claim of one host.\<close>

lemma requests_drain_one:
  assumes "rbtree_ok rb" "requests_inv crc z" "requests_drain rb t z pool 1 = (n, hosts, z')"
  obtains (none) "n \<le> 0" "requests_view z' = requests_view z"
      "pool = [] \<Longrightarrow> is_active z \<Longrightarrow> eligible_hosts t z = {}"
  | (one) h rn where "n = 1" "hosts = [h]" "is_active z" "requests_view z h = Some rn" "drain_eligible t rn"
      "rn_host rn = h"
      "requests_view z' = (requests_view z)(h \<mapsto> rn\<lparr>rn_state := REQ_PENDING, rn_last_attempt := t\<rparr>)"
proof (cases "active_sh z")
  case None
  with assms(3) show thesis by (intro none) (auto simp: requests_drain_def is_active_def)
next
  case (Some sh)
  from requests_drain_effect [OF assms(1,2) Some assms(3)] obtain took rest where t:
    "hosts = map rn_host took" "filter (drain_eligible t) (inorder (rq_rbtree sh)) = took @ rest"
    "n = int (length hosts) \<or> n = - 1 \<and> hosts = [] \<and> pool \<noteq> []" "length took \<le> 1"
    "pool = [] \<longrightarrow> rest = [] \<or> length took = 1"
    "requests_view z' = (\<lambda>h. map_option (\<lambda>rn. if rn \<in> set took
       then rn\<lparr>rn_state := REQ_PENDING, rn_last_attempt := t\<rparr> else rn) (requests_view z h))" by auto
  have wf: "index_wf rn_key crc (inorder (rq_rbtree sh))"
    using requests_inv_active [OF assms(2) Some] by (simp add: sh_inv_def)
  have view: "requests_view z h = Some rn \<longleftrightarrow> rn \<in> set (inorder (rq_rbtree sh)) \<and> rn_host rn = h" for h rn
    using find_name_Some_iff [OF wf] by (simp add: requests_view_active [OF Some])
  have mem: "set (took @ rest) = {rn \<in> set (inorder (rq_rbtree sh)). drain_eligible t rn}"
    unfolding t(2) [symmetric] by auto
  show thesis
  proof (cases took)
    case Nil
    then have "requests_view z' = requests_view z" using t(6) by (simp add: option.map_ident)
    moreover have "eligible_hosts t z = {}" if "pool = []"
      using that t(5) Nil mem by (auto simp: eligible_hosts_def view)
    ultimately show thesis using t(1,3) Nil by (intro none) auto
  next
    case (Cons rn tl)
    then have took: "took = [rn]" using t(4) by simp
    with mem have rn: "rn \<in> set (inorder (rq_rbtree sh))" "drain_eligible t rn" by auto
    have "requests_view z' = (requests_view z)(rn_host rn \<mapsto> rn\<lparr>rn_state := REQ_PENDING, rn_last_attempt := t\<rparr>)"
    proof
      fix h
      have self: "requests_view z (rn_host rn) = Some rn" using rn(1) by (simp add: view)
      moreover have "rn' \<noteq> rn" if "requests_view z h = Some rn'" "h \<noteq> rn_host rn" for rn'
        using that by (auto simp: view)
      ultimately show "requests_view z' h = ((requests_view z)(rn_host rn \<mapsto> rn\<lparr>rn_state := REQ_PENDING, rn_last_attempt := t\<rparr>)) h"
        unfolding t(6) took by (cases "requests_view z h") auto
    qed
    with rn took t(1,3) Some show thesis by (intro one [of "rn_host rn" rn]) (auto simp: view is_active_def)
  qed
qed

lemma requests_set_state_known:
  assumes "requests_inv crc z" "is_active z" "requests_view z h = Some rn" "REQ_UNKNOWN < st" "st \<le> REQ_DENIED"
  shows "requests_view (snd (requests_set_state crc t z h st ne)) = (requests_view z)(h \<mapsto> set_state_node t st ne rn)"
proof -
  obtain sh where sh: "active_sh z = Some sh" using assms(2) by (auto simp: is_active_def)
  have "list_all request_wf (inorder (rq_rbtree sh))"
    using requests_inv_active [OF assms(1) sh] by (simp add: sh_inv_def)
  moreover have "rn \<in> set (inorder (rq_rbtree sh))" "rn_host rn = h"
    using find_name_SomeD [of rn_key h "inorder (rq_rbtree sh)" rn] assms(3)
    by (simp_all add: requests_view_active [OF sh])
  ultimately have "requests_normalize h = Some h" by (auto simp: list_all_iff request_wf_def)
  from requests_set_state_view [OF assms(1) sh this assms(4,5), of t ne] assms(3) show ?thesis by simp
qed

section \<open>Launching\<close>

lemma pool_next_fields [simp]:
  "d_zone (snd (pool_next d)) = d_zone d" "d_order (snd (pool_next d)) = d_order d"
  "d_cas (snd (pool_next d)) = d_cas d" "d_timer (snd (pool_next d)) = d_timer d"
  "d_runtime (snd (pool_next d)) = d_runtime d" "d_order_ring (snd (pool_next d)) = d_order_ring d"
  "d_fails (snd (pool_next d)) = d_fails d" "d_sched_kt (snd (pool_next d)) = d_sched_kt d"
  "d_sched_index (snd (pool_next d)) = d_sched_index d" "d_sched_ca (snd (pool_next d)) = d_sched_ca d"
  by (simp_all add: pool_next_def split: list.splits)

lemma pool_next_never_fails:
  "d_pools d = [] \<Longrightarrow> pool_next d = ([], d)"
  by (simp add: pool_next_def)

lemma pool_next_update: "\<exists>ps. snd (pool_next d) = d\<lparr>d_pools := ps\<rparr> \<and> (d_pools d = [] \<longrightarrow> ps = [])"
  by (cases "d_pools d") (auto simp: pool_next_def intro: exI [of _ "[]"])

lemma start_order_for_cases:
  assumes "start_order_for E acf st name kt runtime d = (rc, d')"
  obtains (launched) ps where "rc = NGX_OK" "d_order d = None" "order_start E (make_order acf st name kt runtime)"
      "d' = d\<lparr>d_pools := ps, d_order := Some (make_order acf st name kt runtime), d_runtime := runtime\<rparr>"
  | (refused) ps rt where "rc = NGX_ERROR" "d' = d\<lparr>d_pools := ps, d_runtime := rt\<rparr>" "d_pools d = [] \<Longrightarrow> ps = []"
      "d_pools d = [] \<Longrightarrow> d_order d = None \<Longrightarrow> \<not> order_start E (make_order acf st name kt runtime)"
proof (cases "d_order d")
  case (Some x)
  with assms show thesis by (intro refused [where ps = "d_pools d" and rt = "d_runtime d"]) (simp_all add: start_order_for_def)
next
  case None
  obtain ps where ps: "snd (pool_next d) = d\<lparr>d_pools := ps\<rparr>" "d_pools d = [] \<longrightarrow> ps = []"
    using pool_next_update by blast
  obtain pool c a1 g a2 n a3 where p: "pool_next d = (pool, d\<lparr>d_pools := ps\<rparr>)" "alloc_next pool = (c, a1)"
    "alloc_next a1 = (g, a2)" "alloc_next a2 = (n, a3)" using ps by (metis surj_pair snd_conv)
  have all: "d_pools d = [] \<Longrightarrow> c \<and> g \<and> n" using p by (auto simp: pool_next_never_fails)
  let ?o = "make_order acf st name kt runtime"
  have same: "d\<lparr>d_pools := ps, d_order := None, d_runtime := runtime\<rparr> = d\<lparr>d_pools := ps, d_runtime := runtime\<rparr>"
    using None by (cases d) simp
  have eq: "(rc, d') =
      (if \<not> (c \<and> g \<and> n) then (NGX_ERROR, d\<lparr>d_pools := ps, d_runtime := d_runtime d\<rparr>)
       else if \<not> order_start E ?o then (NGX_ERROR, d\<lparr>d_pools := ps, d_runtime := runtime\<rparr>)
       else (NGX_OK, d\<lparr>d_pools := ps, d_order := Some ?o, d_runtime := runtime\<rparr>))"
    unfolding assms [symmetric] using None p by (simp add: start_order_for_def Let_def same)
  show thesis
  proof (cases "c \<and> g \<and> n")
    case False
    with eq ps(2) all show thesis
      by (intro refused [where ps = ps and rt = "d_runtime d"]) simp_all
  next
    case True
    show thesis
    proof (cases "order_start E ?o")
      case True
      with \<open>c \<and> g \<and> n\<close> eq None show thesis by (intro launched [of ps]) simp_all
    next
      case False
      with \<open>c \<and> g \<and> n\<close> eq ps(2) show thesis
        by (intro refused [where ps = ps and rt = runtime]) simp_all
    qed
  qed
qed

section \<open>The drain loop\<close>

lemma window_oldest_in:
  "window_oldest_loop rs t w m \<noteq> 0 \<Longrightarrow> m = 0 \<or> m > t - w \<Longrightarrow> window_oldest_loop rs t w m > t - w"
proof (induction rs arbitrary: m)
  case (Cons r rs)
  then show ?case by (auto split: if_splits)
qed simp

lemma rt_holds_future:
  assumes "0 \<le> now E"
  shows "rt_order_hold E d > now E" "rt_fail_hold E h d > now E"
  using assms window_oldest_in [of _ "now E" _ 0]
  by (auto simp: rt_order_hold_def rt_fail_hold_def rt_window_oldest_def Let_def split: option.splits)
    (smt (verit))+

lemma backoff_loop_pos: "0 < backoff_loop n REQ_BACKOFF_BASE"
  by (simp add: backoff_loop_eq)

lemma disposed_states:
  assumes "0 \<le> t"
  shows "\<not> drain_eligible t (set_state_node t REQ_ISSUED 0 rn)"
    "ne > t \<Longrightarrow> \<not> drain_eligible t (set_state_node t REQ_REQUESTED ne rn)"
    "\<not> drain_eligible t (set_state_node t REQ_FAILED 0 rn)"
  using assms backoff_loop_pos [of "Suc (rn_fail_count rn)"]
  by (auto simp: drain_eligible_def set_state_node_def Let_def)

lemma set_state_node_state [simp]: "rn_state (set_state_node t st ne rn) = st"
  by (simp add: set_state_node_def Let_def)

text \<open>
  What may become of a host: it stays in the registry and is not handed out again at this
  time, or the order in flight is for it, and it was allowed.
\<close>

definition runtime_launch :: "env \<Rightarrow> conf \<Rightarrow> ca_state \<Rightarrow> key_type \<Rightarrow> driver \<Rightarrow> bytes \<Rightarrow> bool" where
  "runtime_launch E acf st kt d h \<longleftrightarrow>
     name_is_config (d_cas d) h = None \<and> \<not> rt_order_at_cap (d_order_ring d) (now E) \<and>
     \<not> rt_fail_at_cap (d_fails d) h (now E) \<and> order_start E (make_order acf st h kt True)"

lemma zone_set_state_eq:
  "zone_set_state E h st ne d =
    (fst (requests_set_state (crc_of E) (now E) (d_zone d) h st ne),
     d\<lparr>d_zone := snd (requests_set_state (crc_of E) (now E) (d_zone d) h st ne)\<rparr>)"
  by (simp add: zone_set_state_def split: prod.splits)

lemma dispose_host_cases:
  assumes "0 \<le> now E" "dispose_host E acf st kt h d = (stop, d')" "d_order d = None"
  obtains (launched) ps where "stop"
      "d' = d\<lparr>d_pools := ps, d_order := Some (make_order acf st h kt True), d_runtime := True\<rparr>"
      "runtime_launch E acf st kt d h"
  | (settled) state ne ps rt where "\<not> stop" "REQ_UNKNOWN < state" "state \<le> REQ_DENIED" "state \<noteq> REQ_PENDING"
      "\<And>rn. \<not> drain_eligible (now E) (set_state_node (now E) state ne rn)"
      "d' = d\<lparr>d_pools := ps, d_runtime := rt,
              d_zone := snd (requests_set_state (crc_of E) (now E) (d_zone d) h state ne)\<rparr>"
      "d_pools d = [] \<Longrightarrow> ps = []"
proof -
  note settle = settled [where ps = "d_pools d" and rt = "d_runtime d"]
  note D = disposed_states [OF assms(1)]
  consider (cover) c where "name_is_config (d_cas d) h = Some c"
    | (order_cap) "name_is_config (d_cas d) h = None" "rt_order_at_cap (d_order_ring d) (now E)"
    | (fail_cap) "name_is_config (d_cas d) h = None" "\<not> rt_order_at_cap (d_order_ring d) (now E)"
        "rt_fail_at_cap (d_fails d) h (now E)"
    | (attempt) "name_is_config (d_cas d) h = None" "\<not> rt_order_at_cap (d_order_ring d) (now E)"
        "\<not> rt_fail_at_cap (d_fails d) h (now E)" by fastforce
  then show thesis
  proof cases
    case (cover c)
    show thesis
    proof (cases "name_due E acf c kt")
      case True
      with cover assms D show thesis
        by (intro settle [of REQ_REQUESTED "now E + 300"]) (auto simp: dispose_host_def zone_set_state_eq)
    next
      case False
      with cover assms D show thesis
        by (intro settle [of REQ_ISSUED 0]) (auto simp: dispose_host_def zone_set_state_eq)
    qed
  next
    case order_cap
    with assms D rt_holds_future [OF assms(1)] show thesis
      by (intro settle [of REQ_REQUESTED "rt_order_hold E d"]) (auto simp: dispose_host_def zone_set_state_eq)
  next
    case fail_cap
    with assms D rt_holds_future [OF assms(1)] show thesis
      by (intro settle [of REQ_REQUESTED "rt_fail_hold E h d"]) (auto simp: dispose_host_def zone_set_state_eq)
  next
    case attempt
    obtain rc d1 where s: "start_order_for E acf st h kt True d = (rc, d1)" by fastforce
    from s show thesis
    proof (cases rule: start_order_for_cases)
      case (launched ps)
      with attempt assms s show thesis
        by (intro that(1) [of ps]) (auto simp: dispose_host_def runtime_launch_def)
    next
      case (refused ps rt)
      with attempt assms s D show thesis
        by (intro settled [where state = REQ_FAILED and ne = 0 and ps = ps and rt = rt]) (auto simp: dispose_host_def zone_set_state_eq)
    qed
  qed
qed

text \<open>
  The parts of the state that the service of runtime requests leaves alone.
\<close>

definition same_engines :: "driver \<Rightarrow> driver \<Rightarrow> bool" where
  "same_engines d d' \<longleftrightarrow> d_cas d' = d_cas d \<and> d_timer d' = d_timer d \<and> d_order_ring d' = d_order_ring d \<and>
     d_fails d' = d_fails d \<and> d_sched_ca d' = d_sched_ca d"

lemma same_engines_simps [simp]:
  "same_engines d d"
  "same_engines d (d'\<lparr>d_zone := z\<rparr>) = same_engines d d'"
  "same_engines d (d'\<lparr>d_pools := ps\<rparr>) = same_engines d d'"
  "same_engines d (d'\<lparr>d_runtime := rt\<rparr>) = same_engines d d'"
  "same_engines d (d'\<lparr>d_order := ord\<rparr>) = same_engines d d'"
  "same_engines d (d'\<lparr>d_fs := fs\<rparr>) = same_engines d d'"
  "same_engines d (d'\<lparr>d_io := io\<rparr>) = same_engines d d'"
  "same_engines d (snd (pool_next d')) = same_engines d d'"
  by (simp_all add: same_engines_def)

lemma same_engines_trans: "same_engines d d' \<Longrightarrow> same_engines d' d'' \<Longrightarrow> same_engines d d''"
  by (simp add: same_engines_def)

lemma runtime_launch_cong:
  "same_engines d d' \<Longrightarrow> runtime_launch E acf st kt d' h = runtime_launch E acf st kt d h"
  by (simp add: same_engines_def runtime_launch_def)

text \<open>
  At the end of the loop no request is claimed, except the one whose order was launched.
\<close>

definition claims_match :: "env \<Rightarrow> conf \<Rightarrow> ca_state \<Rightarrow> key_type \<Rightarrow> driver \<Rightarrow> driver \<Rightarrow> bool" where
  "claims_match E acf st kt d d' \<longleftrightarrow>
     d_order d' = None \<and> pending_hosts (d_zone d') = {} \<or>
     (\<exists>h. d_order d' = Some (make_order acf st h kt True) \<and> d_runtime d' \<and> pending_hosts (d_zone d') = {h} \<and>
        is_active (d_zone d') \<and> runtime_launch E acf st kt d h)"

definition zone_ok :: "env \<Rightarrow> driver \<Rightarrow> bool" where
  "zone_ok E d \<longleftrightarrow> rbtree_ok (rb_of E) \<and> 0 \<le> now E \<and> requests_inv (crc_of E) (d_zone d)"

lemma pump_drain_correct:
  assumes "zone_ok E d" "pending_hosts (d_zone d) = {}" "d_order d = None"
    and "card (eligible_hosts (now E) (d_zone d)) < fuel"
  shows "\<exists>d'. pump_drain fuel E acf st kt d = Some d' \<and> zone_ok E d' \<and> same_engines d d' \<and>
    is_active (d_zone d') = is_active (d_zone d) \<and> claims_match E acf st kt d d' \<and>
    (d_pools d = [] \<and> \<not> exiting E \<and> is_active (d_zone d) \<and> d_order d' = None \<longrightarrow>
       eligible_hosts (now E) (d_zone d') = {})"
  using assms
proof (induction fuel arbitrary: d)
  case (Suc fuel)
  let ?P = "\<lambda>d d'. zone_ok E d' \<and> same_engines d d' \<and> is_active (d_zone d') = is_active (d_zone d) \<and>
    claims_match E acf st kt d d' \<and> (d_pools d = [] \<and> \<not> exiting E \<and> is_active (d_zone d) \<and> d_order d' = None \<longrightarrow>
       eligible_hosts (now E) (d_zone d') = {})"
  have idle: "claims_match E acf st kt d (d\<lparr>d_pools := ps, d_zone := z\<rparr>)" if "requests_view z = requests_view (d_zone d)" for z ps
    using Suc.prems(2,3) hosts_by_view(2) [OF that] by (simp add: claims_match_def)
  obtain ps where ps: "snd (pool_next d) = d\<lparr>d_pools := ps\<rparr>" "d_pools d = [] \<longrightarrow> ps = []"
    using pool_next_update by blast
  obtain pool ok pool' where p: "pool_next d = (pool, d\<lparr>d_pools := ps\<rparr>)" "alloc_next pool = (ok, pool')"
    using ps by (metis surj_pair snd_conv)
  have never: "d_pools d = [] \<Longrightarrow> ok \<and> pool' = []" using p by (auto simp: pool_next_never_fails)
  obtain n hosts z where dr: "requests_drain (rb_of E) (now E) (d_zone d) pool' 1 = (n, hosts, z)"
    by (metis surj_pair)
  have rb: "rbtree_ok (rb_of E)" and inv: "requests_inv (crc_of E) (d_zone d)" and t: "0 \<le> now E"
    using Suc.prems(1) by (simp_all add: zone_ok_def)
  have z: "requests_inv (crc_of E) z" "is_active z = is_active (d_zone d)"
    using requests_drain_inv [OF inv, of "rb_of E" "now E" pool' 1]
      requests_drain_active [of "rb_of E" "now E" "d_zone d" pool' 1] unfolding dr by simp_all
  show ?case
  proof (cases "exiting E \<or> \<not> ok")
    case True
    then have "pump_drain (Suc fuel) E acf st kt d = Some (if exiting E then d else d\<lparr>d_pools := ps\<rparr>)"
      using p by (cases "exiting E") simp_all
    moreover have "?P d (if exiting E then d else d\<lparr>d_pools := ps\<rparr>)"
      using True never Suc.prems(1-3) by (auto simp: zone_ok_def claims_match_def)
    ultimately show ?thesis by blast
  next
    case run: False
    from rb inv dr show ?thesis
    proof (cases rule: requests_drain_one)
      case none
      have "pump_drain (Suc fuel) E acf st kt d = Some (d\<lparr>d_pools := ps, d_zone := z\<rparr>)"
        using run p dr none(1) by simp
      moreover have "?P d (d\<lparr>d_pools := ps, d_zone := z\<rparr>)"
        using none z rb t idle [OF none(2)] never hosts_by_view(1) [OF none(2), of "now E"] by (simp add: zone_ok_def)
      ultimately show ?thesis by blast
    next
      case (one h rn)
      let ?d2 = "d\<lparr>d_pools := ps, d_zone := z\<rparr>"
      have view2: "requests_view z = (requests_view (d_zone d))
          (h \<mapsto> rn\<lparr>rn_state := REQ_PENDING, rn_last_attempt := now E\<rparr>)"
        using one(7) by simp
      have pend: "pending_hosts z = {h}" using hosts_update(2) [OF view2] Suc.prems(2) by simp
      have elig: "h \<in> eligible_hosts (now E) (d_zone d)" using one(4,5) by (auto simp: eligible_hosts_def)
      obtain stop d3 where di: "dispose_host E acf st kt h ?d2 = (stop, d3)" by fastforce
      have unfold: "pump_drain (Suc fuel) E acf st kt d = (if stop then Some d3 else pump_drain fuel E acf st kt d3)"
        using run p dr one(1,2) di by simp
      have ord2: "d_order ?d2 = None" using Suc.prems(3) by simp
      from t di ord2 show ?thesis
      proof (cases rule: dispose_host_cases)
        case (launched ps')
        have "runtime_launch E acf st kt d h"
          using launched(3) runtime_launch_cong [of d ?d2] by simp
        then have "?P d d3" using launched(1,2) pend z one(3) rb t by (simp add: zone_ok_def claims_match_def)
        with unfold launched(1) show ?thesis by auto
      next
        case (settled state ne ps' rt)
        let ?z3 = "snd (requests_set_state (crc_of E) (now E) z h state ne)"
        have view3: "requests_view ?z3 = (requests_view (d_zone d))(h \<mapsto> set_state_node (now E) state ne
            (rn\<lparr>rn_state := REQ_PENDING, rn_last_attempt := now E\<rparr>))"
          using requests_set_state_known [OF z(1) _ _ settled(2,3), of h _ "now E" ne] z(2) one(3) view2 by simp
        have d3: "zone_ok E d3" "pending_hosts (d_zone d3) = {}" "d_order d3 = None" "same_engines d d3"
            "is_active (d_zone d3) = is_active (d_zone d)"
          using settled(4,6) Suc.prems(2,3) hosts_update(2) [OF view3] z rb t
            requests_set_state_inv [OF z(1)] by (auto simp: zone_ok_def)
        have "eligible_hosts (now E) (d_zone d3) = eligible_hosts (now E) (d_zone d) - {h}"
          using settled(5,6) hosts_update(1) [OF view3, of "now E"] by simp
        then have "card (eligible_hosts (now E) (d_zone d3)) < fuel"
          using Suc.prems(4) elig card_Diff1_less [OF eligible_hosts_finite elig] by simp
        from Suc.IH [OF d3(1-3) this] obtain d' where d': "pump_drain fuel E acf st kt d3 = Some d'" "?P d3 d'"
          by blast
        have "d_pools d = [] \<longrightarrow> d_pools d3 = []" using settled(6,7) ps(2) by simp
        moreover have "claims_match E acf st kt d d'"
          using d'(2) runtime_launch_cong [OF d3(4)] by (auto simp: claims_match_def)
        ultimately have "?P d d'" using d'(2) d3(4,5) same_engines_trans by blast
        with d'(1) unfold settled(1) show ?thesis by auto
      qed
    qed
  qed
qed simp

section \<open>Renewal scan and eviction\<close>

lemma requests_set_state_pending:
  assumes "requests_inv crc z" "st \<noteq> REQ_PENDING"
  shows "pending_hosts (snd (requests_set_state crc t z h st ne)) \<subseteq> pending_hosts z"
proof -
  consider (noop) "snd (requests_set_state crc t z h st ne) = z"
    | (set) sh norm where "active_sh z = Some sh" "requests_normalize h = Some norm" "REQ_UNKNOWN < st" "st \<le> REQ_DENIED"
  proof (cases "requests_normalize h = None \<or> active_sh z = None \<or> \<not> (REQ_UNKNOWN < st \<and> st \<le> REQ_DENIED)")
    case True
    then have "snd (requests_set_state crc t z h st ne) = z"
      by (auto simp: requests_set_state_def split: option.splits)
    with that(1) show thesis .
  qed (use that(2) in auto)
  then show ?thesis
  proof cases
    case noop
    then show ?thesis by simp
  next
    case (set sh norm)
    show ?thesis
    proof (cases "requests_view z norm")
      case None
      then have "requests_view (snd (requests_set_state crc t z h st ne)) = requests_view z"
        using requests_set_state_view [OF assms(1) set] by simp
      from hosts_by_view(2) [OF this] show ?thesis by simp
    next
      case (Some rn)
      then have "requests_view (snd (requests_set_state crc t z h st ne)) =
          (requests_view z)(norm \<mapsto> set_state_node t st ne rn)"
        using requests_set_state_view [OF assms(1) set] by simp
      from hosts_update(2) [OF this] assms(2) show ?thesis by auto
    qed
  qed
qed

lemma requests_gc_pending:
  assumes "rbtree_ok rb" "requests_inv crc z"
  shows "pending_hosts (snd (snd (requests_gc rb t z ttl pool))) \<subseteq> pending_hosts z"
proof (cases "is_active z \<and> 0 < ttl")
  case False
  then have "snd (snd (requests_gc rb t z ttl pool)) = z" by (auto simp: requests_gc_def is_active_def)
  then show ?thesis by simp
next
  case True
  then obtain sh where sh: "active_sh z = Some sh" "0 < ttl" by (auto simp: is_active_def)
  obtain rc out z' where gc: "requests_gc rb t z ttl pool = (rc, out, z')" by (metis surj_pair)
  from requests_gc_effect [OF assms sh gc] obtain gone sh' where g: "active_sh z' = Some sh'" "requests_inv crc z'"
    "inorder (rq_rbtree sh') = filter (\<lambda>n. n \<notin> set gone) (inorder (rq_rbtree sh))" by blast
  have wf: "index_wf rn_key crc (inorder (rq_rbtree sh))" "index_wf rn_key crc (inorder (rq_rbtree sh'))"
    using requests_inv_active [OF assms(2) sh(1)] requests_inv_active [OF g(2,1)] by (simp_all add: sh_inv_def)
  have "requests_view z' h = Some rn \<Longrightarrow> requests_view z h = Some rn" for h rn
    using find_name_Some_iff [OF wf(1)] find_name_Some_iff [OF wf(2)] g(3)
    by (simp add: requests_view_active [OF sh(1)] requests_view_active [OF g(1)])
  then show ?thesis by (auto simp: pending_hosts_def gc)
qed

text \<open>Steps that claim nothing and launch nothing.\<close>

definition quiet :: "env \<Rightarrow> driver \<Rightarrow> driver \<Rightarrow> bool" where
  "quiet E d d' \<longleftrightarrow> (zone_ok E d \<longrightarrow> zone_ok E d' \<and> pending_hosts (d_zone d') \<subseteq> pending_hosts (d_zone d) \<and>
       is_active (d_zone d') = is_active (d_zone d)) \<and>
     same_engines d d' \<and> d_order d' = d_order d \<and> d_runtime d' = d_runtime d"

lemma quiet_refl: "quiet E d d"
  by (simp add: quiet_def)

lemma quiet_trans: "quiet E d d' \<Longrightarrow> quiet E d' d'' \<Longrightarrow> quiet E d d''"
  by (auto simp: quiet_def intro: same_engines_trans)

lemma quiet_pool_next: "quiet E d (snd (pool_next d))"
  by (simp add: quiet_def zone_ok_def)

lemma quiet_set_state: "st \<noteq> REQ_PENDING \<Longrightarrow> quiet E d (snd (zone_set_state E h st ne d))"
  by (auto simp: quiet_def zone_set_state_eq zone_ok_def requests_set_state_inv
      dest: requests_set_state_pending [THEN subsetD, rotated 2])

lemma quiet_requeue: "quiet E d (requeue_due E acf kt hs d)"
proof (induction hs arbitrary: d)
  case (Cons h hs)
  have "quiet E d (if name_is_config (d_cas d) h \<noteq> None then d
      else if name_due E acf h kt then snd (zone_set_state E h REQ_REQUESTED 0 d) else d)"
    by (simp add: quiet_refl quiet_set_state)
  from quiet_trans [OF this Cons.IH] show ?case by simp
qed (simp add: quiet_refl)

lemma quiet_renewal_scan: "quiet E d (renewal_scan E acf kt d)"
proof -
  obtain pool d1 ok pool' where p: "pool_next d = (pool, d1)" "alloc_next pool = (ok, pool')" by fastforce
  have "quiet E d d1" using quiet_pool_next [of E d] p by simp
  moreover have "quiet E d (requeue_due E acf kt hs d1)" for hs using calculation quiet_trans quiet_requeue by blast
  ultimately show ?thesis using p by (simp add: renewal_scan_def split: prod.splits)
qed

lemma quiet_remove_markers: "quiet E d (remove_markers E acf hs d)"
proof (induction hs arbitrary: d)
  case (Cons h hs)
  obtain io d1 where io: "io_next d = (io, d1)" by fastforce
  then have "quiet E d (d1\<lparr>d_fs := fs\<rparr>)" for fs
    by (auto simp: io_next_def quiet_def zone_ok_def split: list.splits)
  from quiet_trans [OF this Cons.IH] show ?case by (simp add: io)
qed (simp add: quiet_refl)

lemma quiet_gc:
  "quiet E d (d\<lparr>d_zone := snd (snd (requests_gc (rb_of E) (now E) (d_zone d) ttl pool))\<rparr>)"
  by (auto simp: quiet_def zone_ok_def requests_gc_inv dest: requests_gc_pending [THEN subsetD, rotated 2])

lemma quiet_idle_gc: "quiet E d (idle_gc E acf d)"
proof (cases "0 < runtime_ttl acf")
  case True
  obtain pool d1 ok pool' where p: "pool_next d = (pool, d1)" "alloc_next pool = (ok, pool')" by fastforce
  have d1: "quiet E d d1" using quiet_pool_next [of E d] p by simp
  obtain n ev z where gc: "requests_gc (rb_of E) (now E) (d_zone d1) (runtime_ttl acf) pool' = (n, ev, z)"
    by (metis surj_pair)
  have "quiet E d1 (d1\<lparr>d_zone := z\<rparr>)" using quiet_gc [of E d1 "runtime_ttl acf" pool'] gc by simp
  then have "quiet E d (d1\<lparr>d_zone := z\<rparr>)" "quiet E d (remove_markers E acf ev (d1\<lparr>d_zone := z\<rparr>))"
    using d1 quiet_trans quiet_remove_markers by blast+
  then show ?thesis using True p gc d1 by (simp add: idle_gc_def Let_def)
qed (simp add: idle_gc_def quiet_refl)

text \<open>The whole service of runtime requests.\<close>

lemma pump_runtime_correct:
  assumes "zone_ok E d" "pending_hosts (d_zone d) = {}" "d_order d = None"
  shows "\<exists>d'. pump_runtime E acf d = Some d' \<and> zone_ok E d' \<and> same_engines d d' \<and>
    (d_order d' = None \<and> pending_hosts (d_zone d') = {} \<or>
     (\<exists>h. d_order d' = Some (make_order acf (hd (d_cas d)) h (runtime_key_type acf) True) \<and> d_runtime d' \<and>
        pending_hosts (d_zone d') \<subseteq> {h} \<and> is_active (d_zone d') \<and> requests_zone acf \<and> d_cas d \<noteq> [] \<and> ca_account_live (hd (d_cas d)) \<and>
        runtime_launch E acf (hd (d_cas d)) (runtime_key_type acf) d h))"
proof (cases "requests_zone acf \<and> d_cas d \<noteq> [] \<and> ca_account_live (hd (d_cas d)) \<and> ca_account (hd (d_cas d))")
  case False
  then have "pump_runtime E acf d = Some d" by (auto simp: pump_runtime_def Let_def)
  with assms show ?thesis by simp
next
  case True
  let ?st = "hd (d_cas d)" and ?kt = "runtime_key_type acf"
  obtain pool d1 where p: "pool_next d = (pool, d1)" by fastforce
  have q1: "quiet E d d1" using quiet_pool_next [of E d] p by simp
  show ?thesis
  proof (cases "fst (alloc_next pool)")
    case no: False
    then have "pump_runtime E acf d = Some d1" using True p by (simp add: pump_runtime_def)
    with q1 assms show ?thesis by (auto simp: quiet_def)
  next
    case yes: True
    have d1: "zone_ok E d1" "pending_hosts (d_zone d1) = {}" "d_order d1 = None"
      using q1 assms by (auto simp: quiet_def)
    have "card (eligible_hosts (now E) (d_zone d1)) < REQUESTS_MAX + 2"
      using eligible_hosts_card [of "crc_of E" "d_zone d1" "now E"] d1(1) by (simp add: zone_ok_def)
    from pump_drain_correct [OF d1 this, of acf ?st ?kt] obtain d2 where
      d2: "pump_drain (REQUESTS_MAX + 2) E acf ?st ?kt d1 = Some d2" "zone_ok E d2" "same_engines d1 d2"
        "claims_match E acf ?st ?kt d1 d2" by blast
    let ?d' = "idle_gc E acf (renewal_scan E acf ?kt d2)"
    have q: "quiet E d2 ?d'" using quiet_trans [OF quiet_renewal_scan quiet_idle_gc] .
    have "pump_runtime E acf d = Some ?d'" using True yes p d2(1) by (simp add: pump_runtime_def)
    moreover have d': "zone_ok E ?d'" "pending_hosts (d_zone ?d') \<subseteq> pending_hosts (d_zone d2)"
        "d_order ?d' = d_order d2" "d_runtime ?d' = d_runtime d2" "same_engines d2 ?d'" "same_engines d d1"
        "is_active (d_zone ?d') = is_active (d_zone d2)"
      using q d2(2) q1 by (simp_all add: quiet_def)
    moreover have "same_engines d ?d'"
      using same_engines_trans [OF d'(6) same_engines_trans [OF d2(3) d'(5)]] .
    moreover have "runtime_launch E acf ?st ?kt d1 h = runtime_launch E acf ?st ?kt d h" for h
      by (rule runtime_launch_cong [OF d'(6)])
    ultimately show ?thesis
      using d2(4) True unfolding claims_match_def by (metis subset_empty)
  qed
qed

section \<open>The sweep\<close>

text \<open>
  The sweep changes only the backoff of an engine, never its names or its account, and
  leaves the registry and the timer alone.
\<close>

definition same_names :: "ca_state \<Rightarrow> ca_state \<Rightarrow> bool" where
  "same_names st st' \<longleftrightarrow> ca_url st' = ca_url st \<and> ca_names st' = ca_names st \<and> ca_account st' = ca_account st \<and>
     ca_account_live st' = ca_account_live st"

definition slots_ok :: "ca_state \<Rightarrow> bool" where
  "slots_ok st \<longleftrightarrow> ca_backoff_n st \<le> length (elts (ca_backoff st))"

definition sweep_frame :: "driver \<Rightarrow> driver \<Rightarrow> bool" where
  "sweep_frame d d' \<longleftrightarrow> d_zone d' = d_zone d \<and> d_timer d' = d_timer d \<and> d_order_ring d' = d_order_ring d \<and>
     d_fails d' = d_fails d \<and> d_fs d' = d_fs d \<and> list_all2 same_names (d_cas d) (d_cas d') \<and>
     (list_all slots_ok (d_cas d) \<longrightarrow> list_all slots_ok (d_cas d'))"

lemma same_names_refl [simp]: "same_names st st"
  by (simp add: same_names_def)

lemma sweep_frame_refl [simp]: "sweep_frame d d"
  by (simp add: sweep_frame_def list_all2_refl)

lemma sweep_frame_trans: "sweep_frame d d' \<Longrightarrow> sweep_frame d' d'' \<Longrightarrow> sweep_frame d d''"
  unfolding sweep_frame_def
  using list_all2_trans [of same_names same_names same_names] by (auto simp: same_names_def)

lemma sweep_frame_simps [simp]:
  "sweep_frame d (d'\<lparr>d_pools := ps\<rparr>) = sweep_frame d d'"
  "sweep_frame d (d'\<lparr>d_runtime := rt\<rparr>) = sweep_frame d d'"
  "sweep_frame d (d'\<lparr>d_order := ord\<rparr>) = sweep_frame d d'"
  "sweep_frame d (d'\<lparr>d_cur := n\<rparr>) = sweep_frame d d'"
  "sweep_frame d (d'\<lparr>d_cur_ca := n\<rparr>) = sweep_frame d d'"
  "sweep_frame d (d'\<lparr>d_sched_kt := n\<rparr>) = sweep_frame d d'"
  "sweep_frame d (d'\<lparr>d_sched_index := n\<rparr>) = sweep_frame d d'"
  "sweep_frame d (d'\<lparr>d_sched_ca := n\<rparr>) = sweep_frame d d'"
  by (simp_all add: sweep_frame_def)

lemma sweep_frame_set_ca:
  assumes "same_names (d_cas d ! c) st" "slots_ok (d_cas d ! c) \<Longrightarrow> slots_ok st"
  shows "sweep_frame d (set_ca c st d)"
proof (cases "c < length (d_cas d)")
  case True
  have "list_all2 same_names (d_cas d) ((d_cas d)[c := st])"
    using assms(1) True by (auto simp: list_all2_conv_all_nth nth_list_update)
  moreover have "list_all slots_ok ((d_cas d)[c := st])" if "list_all slots_ok (d_cas d)"
    using that assms(2) True by (auto simp: list_all_length nth_list_update)
  ultimately show ?thesis by (simp add: sweep_frame_def set_ca_def)
next
  case False
  then have "set_ca c st d = d" by (cases d) (simp add: set_ca_def list_update_beyond)
  then show ?thesis by simp
qed

lemma elts_simps [simp]: "elts None = []" "elts (Some xs) = xs"
  by (simp_all add: elts_def)

lemma backoff_record_fields [simp]:
  "same_names st (backoff_record t st k ok)"
  "ca_backoff_n (backoff_record t st k ok) = ca_backoff_n st"
  "ca_backoff_nkt (backoff_record t st k ok) = ca_backoff_nkt st"
  "length (elts (ca_backoff (backoff_record t st k ok))) = length (elts (ca_backoff st))"
  "ca_backoff (backoff_record t st k ok) = None \<longleftrightarrow> ca_backoff st = None"
  by (auto simp: backoff_record_def same_names_def Let_def split: option.splits)

lemma backoff_hold_fields [simp]:
  "same_names st (backoff_hold st k w) "
  "ca_backoff_n (backoff_hold st k w) = ca_backoff_n st"
  "length (elts (ca_backoff (backoff_hold st k w))) = length (elts (ca_backoff st))"
  by (auto simp: backoff_hold_def same_names_def Let_def split: option.splits)

lemma slots_ok_record [simp]:
  "slots_ok (backoff_record t st k ok) = slots_ok st" "slots_ok (backoff_hold st k w) = slots_ok st"
  by (simp_all add: slots_ok_def)

text \<open>
  An engine that the sweep works on: its slots are allocated, one for each name and key type.
\<close>

definition engine_ready :: "conf \<Rightarrow> ca_state \<Rightarrow> bool" where
  "engine_ready acf st \<longleftrightarrow> ca_account_live st \<and> ca_account st \<and>
     (\<exists>kts. cert_key_types acf = Some kts \<and> ca_backoff_nkt st = length kts) \<and>
     ca_backoff_n st = length (elts (ca_names st)) * ca_backoff_nkt st \<and>
     ca_backoff_n st \<le> length (elts (ca_backoff st))"

text \<open>
  What holds of the order that the sweep launched: its slot is in range and not held, and
  the certificate of that name and key type is due.
\<close>

definition config_launch :: "env \<Rightarrow> conf \<Rightarrow> driver \<Rightarrow> bool" where
  "config_launch E acf d \<longleftrightarrow>
     (let st = d_cas d ! d_cur_ca d in
      \<exists>i k. d_cur_ca d < length (d_cas d) \<and> engine_ready acf st \<and> i < length (elts (ca_names st)) \<and>
        k < length (elts (cert_key_types acf)) \<and>
        d_cur d = i * ca_backoff_nkt st + k \<and> d_cur d < length (elts (ca_backoff st)) \<and>
        next_eligible (elts (ca_backoff st) ! d_cur d) \<le> now E \<and>
        name_due E acf (elts (ca_names st) ! i) (elts (cert_key_types acf) ! k) \<and>
        d_order d = Some (make_order acf st (elts (ca_names st) ! i) (elts (cert_key_types acf) ! k) False) \<and>
        \<not> d_runtime d)"

lemma slot_in_range:
  assumes "engine_ready acf st" "i < length (elts (ca_names st))" "k < ca_backoff_nkt st"
  shows "i * ca_backoff_nkt st + k < ca_backoff_n st"
proof -
  have "i * ca_backoff_nkt st + k < (i + 1) * ca_backoff_nkt st" using assms(3) by simp
  also have "\<dots> \<le> length (elts (ca_names st)) * ca_backoff_nkt st" using assms(2) by (intro mult_le_mono1) simp
  also have "\<dots> = ca_backoff_n st" using assms(1) by (simp add: engine_ready_def)
  finally show ?thesis .
qed

lemma engine_ready_record [simp]: "engine_ready acf (backoff_record t st k ok) = engine_ready acf st"
  using backoff_record_fields(1) [of st t k ok] by (simp add: engine_ready_def same_names_def)

lemma kt_loop_effect:
  assumes "kt_loop E acf c i name ks d = (b, d')"
    and "c < length (d_cas d)" "engine_ready acf (d_cas d ! c)" "i < length (elts (ca_names (d_cas d ! c)))"
    and "name = elts (ca_names (d_cas d ! c)) ! i" "\<forall>k \<in> set ks. k < ca_backoff_nkt (d_cas d ! c)" "d_order d = None"
  shows "sweep_frame d d' \<and> (b \<longrightarrow> config_launch E acf d') \<and>
    (\<not> b \<longrightarrow> d_order d' = None \<and> engine_ready acf (d_cas d' ! c))"
  using assms
proof (induction ks arbitrary: d)
  case Nil
  then show ?case by simp
next
  case (Cons k ks)
  let ?st = "d_cas d ! c" and ?d1 = "d\<lparr>d_sched_kt := k + 1\<rparr>"
  let ?slot = "i * ca_backoff_nkt ?st + k" and ?kt = "elts (cert_key_types acf) ! k"
  have go: "sweep_frame d d' \<and> (b \<longrightarrow> config_launch E acf d') \<and>
      (\<not> b \<longrightarrow> d_order d' = None \<and> engine_ready acf (d_cas d' ! c))"
    if "kt_loop E acf c i name ks d2 = (b, d')" "sweep_frame d d2" "c < length (d_cas d2)"
      "engine_ready acf (d_cas d2 ! c)" "ca_names (d_cas d2 ! c) = ca_names ?st"
      "ca_backoff_nkt (d_cas d2 ! c) = ca_backoff_nkt ?st" "d_order d2 = None" for d2
    using Cons.IH [OF that(1)] that Cons.prems(4-6) sweep_frame_trans [OF that(2)] by auto
  consider (skip) "next_eligible (elts (ca_backoff ?st) ! ?slot) > now E \<or> \<not> name_due E acf name ?kt"
    | (attempt) "\<not> next_eligible (elts (ca_backoff ?st) ! ?slot) > now E" "name_due E acf name ?kt" by blast
  then show ?case
  proof cases
    case skip
    then have "kt_loop E acf c i name ks ?d1 = (b, d')" using Cons.prems(1) by (auto simp: Let_def split: if_splits)
    then show ?thesis by (rule go) (use Cons.prems in simp_all)
  next
    case attempt
    let ?d2 = "?d1\<lparr>d_cur_ca := c, d_cur := ?slot\<rparr>"
    obtain rc d3 where s: "start_order_for E acf ?st name ?kt False ?d2 = (rc, d3)" by fastforce
    have k: "k < ca_backoff_nkt ?st" using Cons.prems(6) by simp
    note slot = slot_in_range [OF Cons.prems(3,4) k]
    from s show ?thesis
    proof (cases rule: start_order_for_cases)
      case (launched ps)
      then have "b" "d' = d3" using Cons.prems(1) attempt s by (auto simp: Let_def)
      moreover have "config_launch E acf d3"
        unfolding config_launch_def Let_def
        by (rule exI [of _ i], rule exI [of _ k])
          (use launched(4) Cons.prems(2-5) attempt slot k in \<open>auto simp: engine_ready_def\<close>)
      ultimately show ?thesis using launched(4) by simp
    next
      case (refused ps rt)
      let ?d4 = "set_ca c (backoff_record (now E) (d_cas d3 ! c) ?slot False) d3"
      have same: "d_cas d3 = d_cas d" "sweep_frame d d3" "d_order d3 = None"
        using refused(2) Cons.prems(7) by simp_all
      have "kt_loop E acf c i name ks ?d4 = (b, d')"
        using Cons.prems(1) attempt s refused(1) by (auto simp: Let_def)
      moreover have "sweep_frame d ?d4"
        using sweep_frame_trans [OF same(2) sweep_frame_set_ca] by simp
      moreover have "ca_names (backoff_record t st x ok) = ca_names st" for t st x ok
        using backoff_record_fields(1) [of st t x ok] by (simp add: same_names_def)
      ultimately show ?thesis
        using Cons.prems(2,3) same by (intro go [of ?d4]) (simp_all add: set_ca_def)
    qed
  qed
qed

lemma sweep_frame_nth:
  assumes "sweep_frame d d'" "c < length (d_cas d)"
  shows "c < length (d_cas d')" "same_names (d_cas d ! c) (d_cas d' ! c)"
  using assms by (auto simp: sweep_frame_def list_all2_conv_all_nth)

lemma name_loop_effect:
  assumes "name_loop E acf c is d = (b, d')"
    and "c < length (d_cas d)" "engine_ready acf (d_cas d ! c)"
    and "\<forall>i \<in> set is. i < length (elts (ca_names (d_cas d ! c)))" "d_order d = None"
  shows "sweep_frame d d' \<and> (b \<longrightarrow> config_launch E acf d') \<and> (\<not> b \<longrightarrow> d_order d' = None)"
  using assms
proof (induction "is" arbitrary: d)
  case Nil
  then show ?case by simp
next
  case (Cons i "is")
  let ?st = "d_cas d ! c"
  obtain b1 d1 where k: "kt_loop E acf c i (elts (ca_names ?st) ! i) [d_sched_kt d..<ca_backoff_nkt ?st] d = (b1, d1)"
    by fastforce
  have eff: "sweep_frame d d1 \<and> (b1 \<longrightarrow> config_launch E acf d1) \<and>
      (\<not> b1 \<longrightarrow> d_order d1 = None \<and> engine_ready acf (d_cas d1 ! c))"
    by (rule kt_loop_effect [OF k Cons.prems(2,3)]) (use Cons.prems in auto)
  show ?case
  proof (cases b1)
    case True
    then show ?thesis using Cons.prems(1) k eff by (simp add: Let_def)
  next
    case False
    let ?d2 = "d1\<lparr>d_sched_index := i + 1, d_sched_kt := 0\<rparr>"
    have "name_loop E acf c is ?d2 = (b, d')" using False Cons.prems(1) k by (simp add: Let_def)
    moreover have "c < length (d_cas ?d2)" "same_names ?st (d_cas ?d2 ! c)"
      using sweep_frame_nth [OF _ Cons.prems(2)] eff by simp_all
    ultimately have "sweep_frame ?d2 d' \<and> (b \<longrightarrow> config_launch E acf d') \<and> (\<not> b \<longrightarrow> d_order d' = None)"
      using False eff Cons.prems(4) by (intro Cons.IH) (auto simp: same_names_def)
    moreover have "sweep_frame d ?d2" using eff by simp
    ultimately show ?thesis using sweep_frame_trans by blast
  qed
qed

definition conf_ok :: "conf \<Rightarrow> bool" where
  "conf_ok acf \<longleftrightarrow> elts (cert_key_types acf) \<noteq> []"

lemma ca_backoff_ensure_effect:
  assumes "ca_backoff_ensure ok acf st = (rc, st')" "conf_ok acf" "slots_ok st"
  shows "same_names st st'" "slots_ok st'"
    "rc = NGX_OK \<Longrightarrow> ca_account_live st \<Longrightarrow> ca_account st \<Longrightarrow> engine_ready acf st'"
proof -
  obtain kts where kts: "cert_key_types acf = Some kts" using assms(2) by (cases "cert_key_types acf") (auto simp: conf_ok_def)
  let ?n = "length (elts (ca_names st)) * length kts"
  have "same_names st st' \<and> slots_ok st' \<and>
    (rc = NGX_OK \<longrightarrow> ca_backoff_n st' = ?n \<and> ca_backoff_nkt st' = length kts)"
    using assms(1,3) kts
    by (auto simp: ca_backoff_ensure_def Let_def same_names_def slots_ok_def split: if_splits)
  then show "same_names st st'" "slots_ok st'"
    "rc = NGX_OK \<Longrightarrow> ca_account_live st \<Longrightarrow> ca_account st \<Longrightarrow> engine_ready acf st'"
    using kts by (auto simp: engine_ready_def slots_ok_def same_names_def)
qed

lemma ca_visit_effect:
  assumes "ca_visit E acf c d = (b, d')" "conf_ok acf" "c < length (d_cas d)" "list_all slots_ok (d_cas d)" "d_order d = None"
  shows "sweep_frame d d' \<and> (b \<longrightarrow> config_launch E acf d') \<and> (\<not> b \<longrightarrow> d_order d' = None)"
proof (cases "\<not> ca_account_live (d_cas d ! c) \<or> \<not> ca_account (d_cas d ! c) \<or> elts (ca_names (d_cas d ! c)) = []")
  case True
  then have "b = False \<and> d' = d" using assms(1) by (auto simp: ca_visit_def Let_def split: if_splits)
  with assms(5) show ?thesis by simp
next
  case False
  let ?st = "d_cas d ! c"
  obtain pool d1 where p: "pool_next d = (pool, d1)" by fastforce
  have d1: "d_cas d1 = d_cas d" "d_order d1 = None" "sweep_frame d d1"
    using pool_next_update [of d] p assms(5) pool_next_fields(2) [of d] by auto
  obtain rc st' where e: "ca_backoff_ensure (fst (alloc_next pool)) acf ?st = (rc, st')" by fastforce
  have ok: "slots_ok ?st" using assms(3,4) by (simp add: list_all_length)
  note eff = ca_backoff_ensure_effect [OF e assms(2) ok]
  let ?d2 = "set_ca c st' d1"
  have frame: "sweep_frame d ?d2"
    using sweep_frame_trans [OF d1(3) sweep_frame_set_ca [of d1 c st']] eff d1(1) by simp
  have d2: "d_cas ?d2 ! c = st'" "c < length (d_cas ?d2)" "d_order ?d2 = None" "d_sched_index d1 = d_sched_index d"
    using d1 assms(3) p pool_next_fields(9) [of d] by (simp_all add: set_ca_def)
  show ?thesis
  proof (cases "rc = NGX_OK")
    case True
    then have loop: "name_loop E acf c [d_sched_index d1..<length (elts (ca_names st'))] ?d2 = (b, d')"
      using assms(1) False p e by (simp add: ca_visit_def Let_def)
    have "sweep_frame ?d2 d' \<and> (b \<longrightarrow> config_launch E acf d') \<and> (\<not> b \<longrightarrow> d_order d' = None)"
      by (rule name_loop_effect [OF loop d2(2)]) (use d2 eff True False in auto)
    with frame sweep_frame_trans show ?thesis by blast
  next
    case bad: False
    then have "b = False \<and> d' = ?d2"
      using assms(1) False p e by (cases rc) (auto simp: ca_visit_def Let_def)
    with frame d2(3) show ?thesis by simp
  qed
qed

lemma ca_loop_effect:
  assumes "ca_loop E acf cs d = (b, d')" "conf_ok acf" "\<forall>c \<in> set cs. c < length (d_cas d)"
    and "list_all slots_ok (d_cas d)" "d_order d = None"
  shows "sweep_frame d d' \<and> (b \<longrightarrow> config_launch E acf d') \<and> (\<not> b \<longrightarrow> d_order d' = None)"
  using assms
proof (induction cs arbitrary: d)
  case Nil
  then show ?case by simp
next
  case (Cons c cs)
  obtain b1 d1 where v: "ca_visit E acf c d = (b1, d1)" by fastforce
  have eff: "sweep_frame d d1 \<and> (b1 \<longrightarrow> config_launch E acf d1) \<and> (\<not> b1 \<longrightarrow> d_order d1 = None)"
    by (rule ca_visit_effect [OF v Cons.prems(2)]) (use Cons.prems in auto)
  show ?case
  proof (cases b1)
    case True
    with Cons.prems(1) v eff show ?thesis by simp
  next
    case False
    let ?d2 = "d1\<lparr>d_sched_ca := c + 1, d_sched_index := 0, d_sched_kt := 0\<rparr>"
    have "ca_loop E acf cs ?d2 = (b, d')" using False Cons.prems(1) v by simp
    moreover have "sweep_frame d ?d2" using eff by simp
    moreover have "\<forall>c \<in> set cs. c < length (d_cas ?d2)" "list_all slots_ok (d_cas ?d2)"
      using Cons.prems(3,4) eff by (auto simp: sweep_frame_def dest: list_all2_lengthD)
    ultimately have "sweep_frame ?d2 d' \<and> (b \<longrightarrow> config_launch E acf d') \<and> (\<not> b \<longrightarrow> d_order d' = None)"
      using False eff Cons.prems(2) by (intro Cons.IH) simp_all
    with \<open>sweep_frame d ?d2\<close> sweep_frame_trans show ?thesis by blast
  qed
qed

end
