(* ===== verification/Driver_Machine.thy ===== *)
theory Driver_Machine
  imports Scheduler_Correct
begin

text \<open>
  The driver as a state machine: its events, the states it can reach, and what holds in all
  of them.
\<close>

section \<open>The timer\<close>

lemma soonest_loop_zero: "soonest_loop t es m = 0 \<Longrightarrow> 0 \<le> t \<Longrightarrow> 0 \<le> m \<Longrightarrow> m = 0 \<and> (\<forall>e \<in> set es. \<not> e > t)"
proof (induction es arbitrary: m)
  case (Cons e es)
  let ?m = "if e > t \<and> (m = 0 \<or> e < m) then e else m"
  have "soonest_loop t es ?m = 0" using Cons.prems(1) by (simp only: soonest_loop.simps)
  moreover have "0 \<le> ?m" using Cons.prems(2,3) by simp
  ultimately have "?m = 0" "\<forall>e \<in> set es. \<not> e > t" using Cons.IH [of ?m] Cons.prems(2) by blast+
  then show ?case using Cons.prems(2) by (auto split: if_splits)
qed simp

lemma soonest_loop_min:
  "0 \<le> t \<Longrightarrow> m = 0 \<or> m > t \<Longrightarrow> soonest_loop t es m \<noteq> 0 \<Longrightarrow>
   soonest_loop t es m > t \<and> (m \<noteq> 0 \<longrightarrow> soonest_loop t es m \<le> m) \<and> (\<forall>e \<in> set es. e > t \<longrightarrow> soonest_loop t es m \<le> e)"
proof (induction es arbitrary: m)
  case (Cons e es)
  let ?m = "if e > t \<and> (m = 0 \<or> e < m) then e else m"
  have "?m = 0 \<or> ?m > t" using Cons.prems by auto
  with Cons.IH [of ?m] Cons.prems have ih: "soonest_loop t es ?m > t" "?m \<noteq> 0 \<longrightarrow> soonest_loop t es ?m \<le> ?m"
    "\<forall>e \<in> set es. e > t \<longrightarrow> soonest_loop t es ?m \<le> e" by simp_all
  show ?case
  proof (intro conjI ballI impI)
    show "t < soonest_loop t (e # es) m" using ih(1) by simp
    show "soonest_loop t (e # es) m \<le> m" if "m \<noteq> 0" using ih(2) that Cons.prems(1) by (auto split: if_splits)
    show "soonest_loop t (e # es) m \<le> e'" if "e' \<in> set (e # es)" "t < e'" for e'
      using that ih(2,3) Cons.prems(1) by (auto split: if_splits)
  qed
qed simp

lemma unat_of_int_mult_le:
  assumes "0 \<le> x"
  shows "unat (word_of_int x * 1000 :: u64) \<le> nat x * 1000"
proof -
  have "unat (word_of_int x * 1000 :: u64) \<le> unat (word_of_int x :: u64) * unat (1000 :: u64)"
    by (simp add: unat_word_ariths)
  also have "unat (word_of_int x :: u64) \<le> nat x"
    using assms by (simp add: unsigned_of_int nat_take_bit_eq)
  finally show ?thesis by simp
qed

lemma sched_interval_cases:
  obtains i1 i2 i3 where
    "i1 \<le> SCHED_INTERVAL" "configured acf \<and> renew_before acf > 0 \<longrightarrow> i1 \<le> word_of_int (renew_before acf) * 1000 div 2"
    "i2 \<le> i1" "configured acf \<and> runtime_ttl acf > 0 \<and> requests_zone acf \<longrightarrow> i2 \<le> word_of_int (runtime_ttl acf) * 1000"
    "i3 \<le> i2" "soonest_loop (now E) (held_until d) 0 \<noteq> 0 \<longrightarrow>
       i3 \<le> word_of_int (soonest_loop (now E) (held_until d) 0 - now E) * 1000"
    "sched_interval E acf d = (if i3 < SCHED_FLOOR then SCHED_FLOOR else i3)"
proof -
  have cut: "(if P \<and> x < y then x else y) \<le> y" "P \<Longrightarrow> (if P \<and> x < y then x else y) \<le> x" for P and x y :: u64
    by auto
  define half where "half = (word_of_int (renew_before acf) * 1000 div 2 :: u64)"
  define i1 where "i1 = (if (configured acf \<and> renew_before acf > 0) \<and> half < SCHED_INTERVAL then half else SCHED_INTERVAL)"
  define ttl where "ttl = (word_of_int (runtime_ttl acf) * 1000 :: u64)"
  define i2 where "i2 = (if (configured acf \<and> runtime_ttl acf > 0 \<and> requests_zone acf) \<and> ttl < i1 then ttl else i1)"
  define soon where "soon = soonest_loop (now E) (held_until d) 0"
  define until where "until = (word_of_int (soon - now E) * 1000 :: u64)"
  define i3 where "i3 = (if soon \<noteq> 0 \<and> until < i2 then until else i2)"
  have "sched_interval E acf d = (if i3 < SCHED_FLOOR then SCHED_FLOOR else i3)"
    by (simp only: sched_interval_def Let_def conj_assoc half_def i1_def ttl_def i2_def soon_def until_def i3_def)
  moreover have "i1 \<le> SCHED_INTERVAL" "i2 \<le> i1" "i3 \<le> i2" unfolding i1_def i2_def i3_def by (rule cut(1))+
  moreover have "i1 \<le> half" if "configured acf" "renew_before acf > 0"
    unfolding i1_def by (rule cut(2)) (use that in blast)
  moreover have "i2 \<le> ttl" if "configured acf" "runtime_ttl acf > 0" "requests_zone acf"
    unfolding i2_def by (rule cut(2)) (use that in blast)
  moreover have "i3 \<le> until" if "soon \<noteq> 0"
    unfolding i3_def by (rule cut(2)) (use that in blast)
  ultimately show thesis
    using that [of i1 i2 i3] unfolding half_def ttl_def soon_def until_def by blast
qed

lemma sched_interval_bounds:
  "SCHED_FLOOR \<le> sched_interval E acf d \<and> sched_interval E acf d \<le> SCHED_INTERVAL"
proof -
  obtain i1 i2 i3 where i: "i1 \<le> SCHED_INTERVAL" "i2 \<le> i1" "i3 \<le> i2"
    "sched_interval E acf d = (if i3 < SCHED_FLOOR then SCHED_FLOOR else i3)"
    using sched_interval_cases [of acf E d] by metis
  have "i3 \<le> SCHED_INTERVAL" using i(1-3) by (metis order_trans)
  moreover have "SCHED_FLOOR \<le> SCHED_INTERVAL" by simp
  ultimately show ?thesis using i(4) by (simp add: not_less)
qed

text \<open>
  Claim C30.  When the scheduler goes to sleep it wakes up in time.  The delay is never below
  one minute and never above twelve hours, whatever the configuration, also where the
  arithmetic on it would wrap.  Above the floor of one minute it is at most half the
  renewal window and at most the idle time to live of runtime names, and no name that a
  backoff holds is left waiting beyond the end of its hold.
\<close>

theorem sched_interval_in_time:
  assumes "0 \<le> now E"
  shows "let i = unat (sched_interval E acf d) in 60000 \<le> i \<and> i \<le> 43200000 \<and>
    (configured acf \<and> renew_before acf > 0 \<longrightarrow> i \<le> max 60000 (nat (renew_before acf) * 500)) \<and>
    (configured acf \<and> runtime_ttl acf > 0 \<and> requests_zone acf \<longrightarrow> i \<le> max 60000 (nat (runtime_ttl acf) * 1000)) \<and>
    (\<forall>st \<in> set (d_cas d). \<forall>b \<in> set (take (ca_backoff_n st) (elts (ca_backoff st))).
       next_eligible b > now E \<longrightarrow> i \<le> max 60000 (nat (next_eligible b - now E) * 1000))"
proof -
  let ?i = "sched_interval E acf d" and ?s = "soonest_loop (now E) (held_until d) 0"
  obtain i1 i2 i3 where c0: "i1 \<le> SCHED_INTERVAL"
    and c: "configured acf \<and> renew_before acf > 0 \<longrightarrow> i1 \<le> word_of_int (renew_before acf) * 1000 div 2" "i2 \<le> i1"
    "configured acf \<and> runtime_ttl acf > 0 \<and> requests_zone acf \<longrightarrow> i2 \<le> word_of_int (runtime_ttl acf) * 1000" "i3 \<le> i2"
    "?s \<noteq> 0 \<longrightarrow> i3 \<le> word_of_int (?s - now E) * 1000" "?i = (if i3 < SCHED_FLOOR then SCHED_FLOOR else i3)"
    using sched_interval_cases [of acf E d] by blast
  have max: "unat ?i \<le> max 60000 n" if "unat i3 \<le> n" for n
    using that c(6) by (auto simp: max_def)
  have le: "unat i3 \<le> unat i2" "unat i2 \<le> unat i1" using c(2,4) by (simp_all add: word_le_nat_alt)
  have "unat i3 \<le> nat (renew_before acf) * 500" if "configured acf" "renew_before acf > 0"
  proof -
    have "unat i1 \<le> unat (word_of_int (renew_before acf) * 1000 :: u64) div 2"
      using c(1) that by (simp add: word_le_nat_alt unat_div)
    also have "\<dots> \<le> nat (renew_before acf) * 1000 div 2"
      using unat_of_int_mult_le [of "renew_before acf"] that(2) by (intro div_le_mono) simp
    finally show ?thesis using le by simp
  qed
  moreover have "unat i3 \<le> nat (runtime_ttl acf) * 1000" if "configured acf" "runtime_ttl acf > 0" "requests_zone acf"
    using c(3) that unat_of_int_mult_le [of "runtime_ttl acf"] le by (simp add: word_le_nat_alt)
  moreover have "unat i3 \<le> nat (next_eligible b - now E) * 1000"
    if b: "st \<in> set (d_cas d)" "b \<in> set (take (ca_backoff_n st) (elts (ca_backoff st)))" "next_eligible b > now E" for st b
  proof -
    have mem: "next_eligible b \<in> set (held_until d)" using b(1,2) by (auto simp: held_until_def)
    then have nz: "?s \<noteq> 0" using soonest_loop_zero [of "now E" "held_until d" 0] assms b(3) by auto
    then have "?s > now E" "?s \<le> next_eligible b"
      using soonest_loop_min [of "now E" 0 "held_until d"] assms mem b(3) by auto
    then have "nat (?s - now E) * 1000 \<le> nat (next_eligible b - now E) * 1000" by simp
    moreover have "unat i3 \<le> nat (?s - now E) * 1000"
      using c(5) nz unat_of_int_mult_le [of "?s - now E"] \<open>?s > now E\<close> by (simp add: word_le_nat_alt)
    ultimately show ?thesis by simp
  qed
  moreover have "60000 \<le> unat ?i" "unat ?i \<le> 43200000"
    using sched_interval_bounds [of E acf d] by (simp_all add: word_le_nat_alt)
  ultimately show ?thesis using max by (simp add: Let_def)
qed

section \<open>The backoff of a configured name\<close>

definition slot_of :: "ca_state \<Rightarrow> nat \<Rightarrow> backoff" where
  "slot_of st k = elts (ca_backoff st) ! k"

lemma backoff_record_slot:
  assumes "k < ca_backoff_n st" "slots_ok st"
  shows "slot_of (backoff_record t st k True) k = \<lparr>next_eligible = 0, fails = 0\<rparr>"
    and "slot_of (backoff_record t st k False) k =
      \<lparr>next_eligible = t + min 3600 (60 * 2 ^ min (unat (fails (slot_of st k))) 6), fails = fails (slot_of st k) + 1\<rparr>"
    and "j \<noteq> k \<Longrightarrow> slot_of (backoff_record t st k ok) j = slot_of st j"
proof -
  obtain bs where bs: "ca_backoff st = Some bs" "k < length bs"
    using assms by (cases "ca_backoff st") (auto simp: slots_ok_def)
  show "slot_of (backoff_record t st k True) k = \<lparr>next_eligible = 0, fails = 0\<rparr>"
    using bs assms(1) by (simp add: backoff_record_def slot_of_def)
  show "slot_of (backoff_record t st k ok) j = slot_of st j" if "j \<noteq> k"
    using bs assms(1) that by (auto simp: backoff_record_def slot_of_def Let_def)
  define f where "f = fails (bs ! k)"
  have shift: "unat (if f > 6 then 6 else f) = min (unat f) 6"
    by (simp add: min_def word_less_nat_alt)
  have delay: "(if push_bit n (60::int) > 3600 then 3600 else push_bit n 60) = min (3600::int) (60 * 2 ^ n)" for n
    by (simp add: push_bit_eq_mult min_def)
  show "slot_of (backoff_record t st k False) k =
      \<lparr>next_eligible = t + min 3600 (60 * 2 ^ min (unat (fails (slot_of st k))) 6), fails = fails (slot_of st k) + 1\<rparr>"
    using bs assms(1) shift
    by (cases "f > 6") (simp_all add: backoff_record_def slot_of_def Let_def f_def [symmetric] delay)
qed

lemma backoff_failures_slot:
  assumes "k < ca_backoff_n st" "slots_ok st" "unat (fails (slot_of st k)) + length ts < 2 ^ 64" "ts \<noteq> []"
  shows "slot_of (fold (\<lambda>t st. backoff_record t st k False) ts st) k =
    \<lparr>next_eligible = last ts + min 3600 (60 * 2 ^ min (unat (fails (slot_of st k)) + length ts - 1) 6),
     fails = word_of_nat (unat (fails (slot_of st k)) + length ts)\<rparr>"
  using assms
proof (induction ts arbitrary: st)
  case (Cons t ts)
  let ?st = "backoff_record t st k False" and ?f = "fails (slot_of st k)"
  have slot: "slot_of ?st k = \<lparr>next_eligible = t + min 3600 (60 * 2 ^ min (unat ?f) 6), fails = ?f + 1\<rparr>"
    using backoff_record_slot(2) [OF Cons.prems(1,2)] .
  have inc: "unat (?f + 1) = unat ?f + 1" using Cons.prems(3) by (simp add: unat_word_ariths)
  show ?case
  proof (cases "ts = []")
    case True
    with slot show ?thesis by simp
  next
    case False
    have "slot_of (fold (\<lambda>t st. backoff_record t st k False) ts ?st) k =
      \<lparr>next_eligible = last ts + min 3600 (60 * 2 ^ min (unat (fails (slot_of ?st k)) + length ts - 1) 6),
       fails = word_of_nat (unat (fails (slot_of ?st k)) + length ts)\<rparr>"
      by (rule Cons.IH) (use Cons.prems False slot inc in simp_all)
    with slot inc False show ?thesis by simp
  qed
qed simp

text \<open>
  The backoff of a configured name and key type.  After a success and then
  \<open>n\<close> failures in a row the name is held for \<open>60 * 2 ^ (n - 1)\<close> seconds from
  the last of them, and for an hour from the seventh failure on.  A Retry-After of the
  authority can only make the hold longer.  No other slot is touched.
\<close>

theorem backoff_after_failures:
  fixes t0 :: int
  assumes "k < ca_backoff_n st" "slots_ok st" "ts \<noteq> []" "length ts < 2 ^ 64"
  defines "st' \<equiv> fold (\<lambda>t st. backoff_record t st k False) ts (backoff_record t0 st k True)"
  shows "next_eligible (slot_of st' k) =
      last ts + (if length ts \<le> 6 then 60 * 2 ^ (length ts - 1) else 3600) \<and>
    next_eligible (slot_of (backoff_hold st' k w) k) = max w (next_eligible (slot_of st' k)) \<and>
    (\<forall>j. j \<noteq> k \<longrightarrow> slot_of (backoff_hold st' k w) j = slot_of st j)"
proof -
  let ?s0 = "backoff_record t0 st k True"
  have s0: "k < ca_backoff_n ?s0" "slots_ok ?s0" "fails (slot_of ?s0 k) = 0"
    using assms(1,2) backoff_record_slot(1) [OF assms(1,2)] by simp_all
  have kept: "ca_backoff_n (fold (\<lambda>t st. backoff_record t st k False) us s) = ca_backoff_n s \<and>
      slots_ok (fold (\<lambda>t st. backoff_record t st k False) us s) = slots_ok s" for us s
    by (induction us arbitrary: s) simp_all
  have others: "j \<noteq> k \<Longrightarrow> k < ca_backoff_n s \<Longrightarrow> slots_ok s \<Longrightarrow>
      slot_of (fold (\<lambda>t st. backoff_record t st k False) us s) j = slot_of s j" for j us s
    by (induction us arbitrary: s) (simp_all add: backoff_record_slot(3))
  have st': "k < ca_backoff_n st'" "slots_ok st'" using kept s0 by (simp_all add: st'_def)
  obtain bs where bs: "ca_backoff st' = Some bs" "k < length bs"
    using st' by (cases "ca_backoff st'") (auto simp: slots_ok_def)
  have "next_eligible (slot_of st' k) = last ts + min 3600 (60 * 2 ^ min (length ts - 1) 6)"
    unfolding st'_def using backoff_failures_slot [OF s0(1,2) _ assms(3)] s0(3) assms(4) by simp
  moreover have "min 3600 (60 * 2 ^ min (length ts - 1) 6) = (if length ts \<le> 6 then 60 * 2 ^ (length ts - 1) else (3600::int))"
  proof -
    have "length ts - 1 \<in> {0, 1, 2, 3, 4, 5} \<and> length ts \<le> 6 \<or> length ts > 6" by auto
    moreover have "min (length ts - 1) 6 = 6" if "length ts > 6" using that by simp
    ultimately show ?thesis by auto
  qed
  moreover have "slot_of (backoff_hold st' k w) j = slot_of st j" if "j \<noteq> k" for j
    using bs that others [OF that s0(1,2), of ts] backoff_record_slot(3) [OF assms(1,2) that]
    by (auto simp: backoff_hold_def slot_of_def st'_def)
  moreover have "next_eligible (slot_of (backoff_hold st' k w) k) = max w (next_eligible (slot_of st' k))"
    using bs st'(1) by (auto simp: backoff_hold_def slot_of_def)
  ultimately show ?thesis by simp
qed

theorem backoff_after_failures_witness:
  "let st = \<lparr>ca_url = [], ca_names = Some [str ''a.com''], ca_account = True, ca_account_live = True,
       ca_backoff = Some [\<lparr>next_eligible = 0, fails = 0\<rparr>], ca_backoff_n = 1, ca_backoff_nkt = 1\<rparr> in
   next_eligible (slot_of (fold (\<lambda>t st. backoff_record t st 0 False) [100, 200, 400] (backoff_record 5 st 0 True)) 0) = 640"
proof -
  define st where "st = \<lparr>ca_url = [], ca_names = Some [str ''a.com''], ca_account = True, ca_account_live = True,
       ca_backoff = Some [\<lparr>next_eligible = 0, fails = 0\<rparr>], ca_backoff_n = 1, ca_backoff_nkt = 1\<rparr>"
  have "0 < ca_backoff_n st" "slots_ok st" by (simp_all add: st_def slots_ok_def)
  from backoff_after_failures [OF this, of "[100, 200, 400]" 5] show ?thesis
    unfolding st_def [symmetric] by (simp add: Let_def)
qed

section \<open>The pump\<close>

text \<open>
  The order in flight was launched by the service of runtime requests.
\<close>

definition runtime_launched :: "env \<Rightarrow> conf \<Rightarrow> driver \<Rightarrow> bool" where
  "runtime_launched E acf d \<longleftrightarrow>
     (\<exists>h. d_order d = Some (make_order acf (hd (d_cas d)) h (runtime_key_type acf) True) \<and> d_runtime d \<and>
        d_cas d \<noteq> [] \<and> ca_account_live (hd (d_cas d)) \<and>
        runtime_launch E acf (hd (d_cas d)) (runtime_key_type acf) d h)"

text \<open>
  The requests that are claimed: at most the one of the runtime order in flight.
\<close>

definition pending_ok :: "cycle \<Rightarrow> driver \<Rightarrow> bool" where
  "pending_ok cy d \<longleftrightarrow> (\<forall>h \<in> pending_hosts (d_zone d). (\<exists>ord. d_order d = Some ord \<and> o_domain ord = h) \<and> d_runtime d \<and>
     requests_zone (get_conf cy) \<and> is_active (d_zone d))"

definition timer_ok :: "driver \<Rightarrow> bool" where
  "timer_ok d \<longleftrightarrow> (d_order d = None \<longrightarrow> (\<exists>t. d_timer d = Some t \<and> SCHED_INITIAL \<le> t \<and> t \<le> SCHED_INTERVAL))"

definition env_ok :: "request rbtree_ops \<Rightarrow> (bytes \<Rightarrow> u32) \<Rightarrow> env \<Rightarrow> bool" where
  "env_ok rb crc E \<longleftrightarrow> rbtree_ok rb \<and> rb_of E = rb \<and> crc_of E = crc \<and> 0 \<le> now E \<and> \<not> exiting E"

definition cycle_ok :: "cycle \<Rightarrow> bool" where
  "cycle_ok cy \<longleftrightarrow> (configured (get_conf cy) \<longrightarrow> conf_ok (get_conf cy))"

lemma rearm_fields [simp]:
  "d_zone (rearm E acf d) = d_zone d" "d_cas (rearm E acf d) = d_cas d" "d_order (rearm E acf d) = d_order d"
  "timer_ok (rearm E acf d)"
proof -
  have "SCHED_INITIAL \<le> sched_interval E acf d"
    using sched_interval_bounds [of E acf d] order_trans [of SCHED_INITIAL SCHED_FLOOR] by simp
  then show "timer_ok (rearm E acf d)"
    using sched_interval_bounds [of E acf d] by (simp add: rearm_def timer_ok_def)
qed (simp_all add: rearm_def)

lemma make_order_domain [simp]: "o_domain (make_order acf st name kt rt) = name"
  by (simp add: make_order_def)

lemma make_order_runtime [simp]: "o_challenge (make_order acf st name kt True) \<noteq> CHALLENGE_DNS_01"
  by (simp add: make_order_def)

lemma sched_pump_correct:
  assumes "env_ok rb crc E" "cycle_ok cy" "requests_inv crc (d_zone d)" "list_all slots_ok (d_cas d)"
    and "d_order d = None" "pending_hosts (d_zone d) = {}"
  shows "\<exists>d'. sched_pump E cy d = Some d' \<and> requests_inv crc (d_zone d') \<and> list_all slots_ok (d_cas d') \<and>
    pending_ok cy d' \<and> timer_ok d' \<and>
    (d_order d' = None \<or> config_launch E (get_conf cy) d' \<or> runtime_launched E (get_conf cy) d')"
proof -
  let ?acf = "get_conf cy"
  have E: "\<not> exiting E" and zok: "zone_ok E d" using assms(1,3) by (simp_all add: env_ok_def zone_ok_def)
  show ?thesis
  proof (cases "configured ?acf \<and> challenge_zone ?acf")
    case False
    then have "sched_pump E cy d = Some (rearm E ?acf d)" using E assms(5) by (auto simp: sched_pump_def Let_def)
    with assms show ?thesis by (simp add: pending_ok_def)
  next
    case True
    then have cok: "conf_ok ?acf" using assms(2) by (simp add: cycle_ok_def)
    obtain b d1 where l: "ca_loop E ?acf [d_sched_ca d..<length (d_cas d)] d = (b, d1)" by fastforce
    have eff: "sweep_frame d d1 \<and> (b \<longrightarrow> config_launch E ?acf d1) \<and> (\<not> b \<longrightarrow> d_order d1 = None)"
      by (rule ca_loop_effect [OF l cok _ assms(4,5)]) simp
    then have d1: "d_zone d1 = d_zone d" "list_all slots_ok (d_cas d1)"
      using assms(4) by (simp_all add: sweep_frame_def)
    show ?thesis
    proof (cases b)
      case launched: True
      then have "sched_pump E cy d = Some d1" using True E assms(5) l by (simp add: sched_pump_def Let_def)
      moreover have "d_order d1 \<noteq> None" using launched eff by (auto simp: config_launch_def Let_def)
      ultimately show ?thesis using d1 assms eff launched by (auto simp: pending_ok_def timer_ok_def)
    next
      case idle: False
      have "zone_ok E d1" using zok d1(1) by (simp add: zone_ok_def)
      moreover have "pending_hosts (d_zone d1) = {}" using assms(6) d1(1) by simp
      moreover have "d_order d1 = None" using conjunct2 [OF conjunct2 [OF eff]] idle by (rule mp)
      ultimately have "\<exists>d2. pump_runtime E ?acf d1 = Some d2 \<and> zone_ok E d2 \<and> same_engines d1 d2 \<and>
        (d_order d2 = None \<and> pending_hosts (d_zone d2) = {} \<or>
         (\<exists>h. d_order d2 = Some (make_order ?acf (hd (d_cas d1)) h (runtime_key_type ?acf) True) \<and> d_runtime d2 \<and>
            pending_hosts (d_zone d2) \<subseteq> {h} \<and> is_active (d_zone d2) \<and> requests_zone ?acf \<and> d_cas d1 \<noteq> [] \<and>
            ca_account_live (hd (d_cas d1)) \<and> runtime_launch E ?acf (hd (d_cas d1)) (runtime_key_type ?acf) d1 h))"
        by (rule pump_runtime_correct)
      then obtain d2 where
        d2: "pump_runtime E ?acf d1 = Some d2" "zone_ok E d2" "same_engines d1 d2"
        "d_order d2 = None \<and> pending_hosts (d_zone d2) = {} \<or>
         (\<exists>h. d_order d2 = Some (make_order ?acf (hd (d_cas d1)) h (runtime_key_type ?acf) True) \<and> d_runtime d2 \<and>
            pending_hosts (d_zone d2) \<subseteq> {h} \<and> is_active (d_zone d2) \<and> requests_zone ?acf \<and> d_cas d1 \<noteq> [] \<and>
            ca_account_live (hd (d_cas d1)) \<and> runtime_launch E ?acf (hd (d_cas d1)) (runtime_key_type ?acf) d1 h)"
        by blast
      have inv: "requests_inv crc (d_zone d2)" "list_all slots_ok (d_cas d2)" "d_cas d2 = d_cas d1"
        using d2(2,3) d1(2) assms(1) by (simp_all add: zone_ok_def same_engines_def env_ok_def)
      have pump: "sched_pump E cy d = (if d_order d2 \<noteq> None then Some d2 else Some (rearm E ?acf d2))"
        using True E assms(5) l idle d2(1) by (simp add: sched_pump_def Let_def)
      from d2(4) show ?thesis
      proof (elim disjE exE conjE, goal_cases)
        case 1
        with pump inv show ?thesis by (simp add: pending_ok_def)
      next
        case (2 h)
        then have "pending_ok cy d2" "timer_ok d2"
          by (auto simp: pending_ok_def timer_ok_def)
        moreover have "runtime_launched E ?acf d2"
          using 2 inv(3) runtime_launch_cong [OF d2(3)] by (auto simp: runtime_launched_def)
        ultimately show ?thesis using pump 2 inv by simp
      qed
    qed
  qed
qed

section \<open>Events\<close>

text \<open>
  What drives the scheduler: the renewal timer, the end of the order in flight (its outcome
  and the Retry-After it was given), the acceptance of a new order by the authority, which
  is reported once for a runtime order, and a consumer that asks for a certificate.
\<close>

datatype event = Tick | Done bool int | Accepted | Ask bytes

fun driver_step :: "cycle \<Rightarrow> env \<Rightarrow> event \<Rightarrow> driver \<Rightarrow> driver option" where
  "driver_step cy E Tick d =
     (if d_timer d = None then Some d else sched_handler E cy (d\<lparr>d_timer := None\<rparr>))"
| "driver_step cy E (Done success retry) d =
     (case d_order d of
        None \<Rightarrow> Some d
      | Some ord \<Rightarrow> order_complete E cy (ord\<lparr>o_retry_after := retry\<rparr>) success d)"
| "driver_step cy E Accepted d =
     (case d_order d of
        Some ord \<Rightarrow>
          if o_counted ord then Some ((rt_order_accounted E d)\<lparr>d_order := Some (ord\<lparr>o_counted := False\<rparr>)\<rparr>)
          else Some d
      | None \<Rightarrow> Some d)"
| "driver_step cy E (Ask host) d =
     Some (d\<lparr>d_zone := snd (requests_ensure (rb_of E) (crc_of E) (now E) (d_zone d) host)\<rparr>)"

text \<open>
  The driver as the account bootstrap leaves it: engines without backoff, an initialised
  registry in which nothing is claimed, and the first scan armed.
\<close>

definition driver_initial :: "(bytes \<Rightarrow> u32) \<Rightarrow> driver \<Rightarrow> bool" where
  "driver_initial crc d \<longleftrightarrow> (\<exists>d0. d = start_order d0 \<and> \<not> d_armed d0 \<and> d_order d0 = None \<and>
     list_all (\<lambda>st. ca_backoff st = None \<and> ca_backoff_n st = 0) (d_cas d0) \<and>
     requests_inv crc (d_zone d0) \<and> pending_hosts (d_zone d0) = {})"

inductive driver_reach :: "cycle \<Rightarrow> request rbtree_ops \<Rightarrow> (bytes \<Rightarrow> u32) \<Rightarrow> driver \<Rightarrow> bool"
  for cy rb crc where
  start: "driver_initial crc d \<Longrightarrow> driver_reach cy rb crc d"
| step: "driver_reach cy rb crc d \<Longrightarrow> env_ok rb crc E \<Longrightarrow> driver_step cy E ev d = Some d' \<Longrightarrow>
    driver_reach cy rb crc d'"

definition driver_inv :: "cycle \<Rightarrow> (bytes \<Rightarrow> u32) \<Rightarrow> driver \<Rightarrow> bool" where
  "driver_inv cy crc d \<longleftrightarrow>
     requests_inv crc (d_zone d) \<and> list_all slots_ok (d_cas d) \<and> pending_ok cy d \<and> timer_ok d"

lemma driver_initial_inv: "driver_initial crc d \<Longrightarrow> driver_inv cy crc d"
  by (auto simp: driver_initial_def driver_inv_def start_order_def pending_ok_def timer_ok_def slots_ok_def list_all_iff)

lemma pump_step:
  assumes "env_ok rb crc E" "cycle_ok cy" "requests_inv crc (d_zone d)" "list_all slots_ok (d_cas d)"
    and "d_order d = None" "pending_hosts (d_zone d) = {}"
  shows "\<exists>d'. sched_pump E cy d = Some d' \<and> driver_inv cy crc d'"
  using sched_pump_correct [OF assms] by (auto simp: driver_inv_def)

lemma tick_step:
  assumes "env_ok rb crc E" "cycle_ok cy" "driver_inv cy crc d"
  shows "\<exists>d'. driver_step cy E Tick d = Some d' \<and> driver_inv cy crc d'"
proof (cases "d_timer d = None \<or> d_order d \<noteq> None")
  case True
  then show ?thesis
    using assms by (auto simp: sched_handler_def env_ok_def driver_inv_def pending_ok_def timer_ok_def)
next
  case False
  let ?d = "d\<lparr>d_timer := None, d_sched_ca := 0, d_sched_index := 0, d_sched_kt := 0\<rparr>"
  have "driver_step cy E Tick d = sched_pump E cy ?d"
    using False assms(1) by (auto simp: sched_handler_def env_ok_def)
  moreover have "pending_hosts (d_zone d) = {}" using False assms(3) by (auto simp: driver_inv_def pending_ok_def)
  ultimately show ?thesis
    using pump_step [OF assms(1,2), of ?d] False assms(3) by (simp add: driver_inv_def)
qed

lemma is_active_iff: "is_active z \<longleftrightarrow> rz_mapped z \<and> (\<exists>sh. rz_sh z = Some sh \<and> api_version sh = API_VERSION)"
  by (auto simp: is_active_def active_sh_def split: option.splits)

lemma requests_ensure_pending:
  assumes "rbtree_ok rb" "requests_inv crc z"
  shows "pending_hosts (snd (requests_ensure rb crc t z host)) = pending_hosts z"
    "is_active (snd (requests_ensure rb crc t z host)) = is_active z"
proof -
  obtain st z' where e: "requests_ensure rb crc t z host = (st, z')" by fastforce
  show "is_active (snd (requests_ensure rb crc t z host)) = is_active z"
    using assms e
    by (cases rule: requests_ensure_cases)
      (auto simp: e is_active_iff active_sh_Some put_node_def)
  show "pending_hosts (snd (requests_ensure rb crc t z host)) = pending_hosts z"
  proof (cases "requests_normalize host = None \<or> active_sh z = None")
    case True
    then have "snd (requests_ensure rb crc t z host) = z" by (auto simp: requests_ensure_def split: option.splits)
    then show ?thesis by simp
  next
    case False
    then obtain norm sh where n: "requests_normalize host = Some norm" "active_sh z = Some sh" by auto
    note view = requests_ensure_view [OF assms n(2,1) e]
    show ?thesis
    proof (cases "requests_view z norm")
      case None
      then have "norm \<notin> pending_hosts z" by (simp add: pending_hosts_def)
      have "z' = z \<or> requests_view z' = requests_view z \<or> (\<exists>rn. rn_state rn = REQ_REQUESTED \<and>
          requests_view z' = (requests_view z)(norm \<mapsto> rn))"
        using view None by (force split: if_splits)
      then show ?thesis
      proof (elim disjE exE conjE)
        fix rn assume rn: "rn_state rn = REQ_REQUESTED" "requests_view z' = (requests_view z)(norm \<mapsto> rn)"
        from hosts_update(2) [OF rn(2)] rn(1) \<open>norm \<notin> pending_hosts z\<close> show ?thesis by (simp add: e)
      next
        assume "requests_view z' = requests_view z"
        from hosts_by_view(2) [OF this] show ?thesis by (simp add: e)
      qed (simp add: e)
    next
      case (Some rn)
      with view have "requests_view z' = (requests_view z)(norm \<mapsto> rn\<lparr>rn_last_seen := t\<rparr>)" by blast
      from hosts_update(2) [OF this] Some show ?thesis by (auto simp: e pending_hosts_def)
    qed
  qed
qed

lemma requests_set_state_settles:
  assumes "requests_inv crc z" "pending_hosts z \<subseteq> {h}" "pending_hosts z \<noteq> {} \<Longrightarrow> is_active z"
    and "st = REQ_ISSUED \<or> st = REQ_FAILED"
  shows "pending_hosts (snd (requests_set_state crc t z h st ne)) = {}"
proof (cases "pending_hosts z = {}")
  case True
  then show ?thesis using requests_set_state_pending [OF assms(1), of st t h ne] assms(4) by auto
next
  case False
  then obtain rn where rn: "requests_view z h = Some rn" "is_active z"
    using assms(2,3) by (auto simp: pending_hosts_def)
  from requests_set_state_known [OF assms(1) rn(2,1), of st t ne] assms(4)
  have "requests_view (snd (requests_set_state crc t z h st ne)) = (requests_view z)(h \<mapsto> set_state_node t st ne rn)"
    by auto
  from hosts_update(2) [OF this] assms(2,4) show ?thesis by auto
qed

text \<open>
  After the outcome is recorded no request is claimed.
\<close>

lemma io_next_fields [simp]:
  "d_zone (snd (io_next d)) = d_zone d" "d_cas (snd (io_next d)) = d_cas d"
  by (simp_all add: io_next_def split: list.splits)

lemma record_outcome_config:
  assumes "\<not> d_runtime d"
  shows "d_zone (record_outcome E cy ord success d) = d_zone d"
    "list_all slots_ok (d_cas d) \<Longrightarrow> list_all slots_ok (d_cas (record_outcome E cy ord success d))"
proof -
  let ?st = "d_cas d ! d_cur_ca d"
  define st where "st = (let st = backoff_record (now E) ?st (d_cur d) success in
    if \<not> success \<and> o_retry_after ord > 0 then backoff_hold st (d_cur d) (o_retry_after ord) else st)"
  have eq: "record_outcome E cy ord success d = set_ca (d_cur_ca d) st d"
    using assms by (simp add: record_outcome_def st_def Let_def)
  have "slots_ok st = slots_ok ?st" by (simp add: st_def Let_def)
  then show "list_all slots_ok (d_cas d) \<Longrightarrow> list_all slots_ok (d_cas (record_outcome E cy ord success d))"
    unfolding eq set_ca_def
    by (cases "d_cur_ca d < length (d_cas d)")
      (auto simp: list_all_length nth_list_update list_update_beyond)
  show "d_zone (record_outcome E cy ord success d) = d_zone d" by (simp add: eq set_ca_def)
qed

lemma record_outcome_runtime:
  assumes "d_runtime d" "requests_zone (get_conf cy)"
  shows "d_cas (record_outcome E cy ord success d) = d_cas d"
    "\<exists>ne. d_zone (record_outcome E cy ord success d) =
       (let (rc, z) = requests_set_state (crc_of E) (now E) (d_zone d) (o_domain ord)
              (if success then REQ_ISSUED else REQ_FAILED) ne
        in if rc = NGX_OK then z
           else snd (requests_set_state (crc_of E) (now E) z (o_domain ord) REQ_REQUESTED ne))"
proof -
  let ?acf = "get_conf cy"
  define ne where "ne = (if \<not> success \<and> o_retry_after ord > 0 then o_retry_after ord else 0)"
  define d3 where "d3 = (if success then (snd (io_next d))\<lparr>d_fs := runtime_marker_write E (fst (io_next d)) ?acf (o_domain ord)
      (d_fs (snd (io_next d)))\<rparr> else d\<lparr>d_fails := rt_fail_record (d_fails d) (o_domain ord) (now E)\<rparr>)"
  define set3 where "set3 = requests_set_state (crc_of E) (now E) (d_zone d3) (o_domain ord)
    (if success then REQ_ISSUED else REQ_FAILED) ne"
  have d3: "d_cas d3 = d_cas d" "d_zone d3 = d_zone d" by (simp_all add: d3_def)
  have eq: "record_outcome E cy ord success d = (if fst set3 \<noteq> NGX_OK
      then snd (zone_set_state E (o_domain ord) REQ_REQUESTED ne (d3\<lparr>d_zone := snd set3\<rparr>)) else d3\<lparr>d_zone := snd set3\<rparr>)"
    using assms
    by (cases success) (simp_all add: record_outcome_def Let_def ne_def d3_def set3_def zone_set_state_eq split_beta)
  show "d_cas (record_outcome E cy ord success d) = d_cas d"
    by (simp add: eq d3 zone_set_state_eq)
  show "\<exists>ne. d_zone (record_outcome E cy ord success d) =
       (let (rc, z) = requests_set_state (crc_of E) (now E) (d_zone d) (o_domain ord)
              (if success then REQ_ISSUED else REQ_FAILED) ne
        in if rc = NGX_OK then z
           else snd (requests_set_state (crc_of E) (now E) z (o_domain ord) REQ_REQUESTED ne))"
    by (rule exI [of _ ne]) (simp add: eq zone_set_state_eq split_beta Let_def set3_def d3)
qed

lemma done_step:
  assumes "env_ok rb crc E" "cycle_ok cy" "driver_inv cy crc d"
  shows "\<exists>d'. driver_step cy E (Done success retry) d = Some d' \<and> driver_inv cy crc d'"
proof (cases "d_order d")
  case None
  with assms(3) show ?thesis by simp
next
  case (Some ord)
  let ?ord = "ord\<lparr>o_retry_after := retry\<rparr>"
  let ?d1 = "record_outcome E cy ?ord success d"
  have crc: "crc_of E = crc" using assms(1) by (simp add: env_ok_def)
  have dom: "o_domain ?ord = o_domain ord" by simp
  have inv: "requests_inv crc (d_zone d)" "list_all slots_ok (d_cas d)" "pending_ok cy d"
    using assms(3) by (simp_all add: driver_inv_def)
  have pend: "pending_hosts (d_zone d) \<subseteq> {o_domain ord}" "pending_hosts (d_zone d) \<noteq> {} \<Longrightarrow> is_active (d_zone d)"
    using inv(3) Some by (auto simp: pending_ok_def)
  have "requests_inv crc (d_zone ?d1) \<and> list_all slots_ok (d_cas ?d1) \<and> pending_hosts (d_zone ?d1) = {}"
  proof (cases "d_runtime d \<and> requests_zone (get_conf cy)")
    case True
    obtain ne where z: "d_zone ?d1 =
       (let (rc, z) = requests_set_state crc (now E) (d_zone d) (o_domain ord)
              (if success then REQ_ISSUED else REQ_FAILED) ne
        in if rc = NGX_OK then z
           else snd (requests_set_state crc (now E) z (o_domain ord) REQ_REQUESTED ne))"
      using record_outcome_runtime(2) [of d cy E ?ord success] True unfolding crc dom by blast
    obtain rc z1 where s: "requests_set_state crc (now E) (d_zone d) (o_domain ord)
        (if success then REQ_ISSUED else REQ_FAILED) ne = (rc, z1)" by fastforce
    have z1: "requests_inv crc z1" "pending_hosts z1 = {}"
      using requests_set_state_inv [OF inv(1), of "now E" "o_domain ord" "if success then REQ_ISSUED else REQ_FAILED" ne]
        requests_set_state_settles [OF inv(1) pend, of "if success then REQ_ISSUED else REQ_FAILED" "now E" ne] s
      by simp_all
    show ?thesis
      using z s z1 requests_set_state_inv [OF z1(1)] requests_set_state_pending [OF z1(1), of REQ_REQUESTED]
        record_outcome_runtime(1) [of d cy E ?ord success] True inv(2)
      by (auto simp: Let_def)
  next
    case False
    show ?thesis
    proof (cases "d_runtime d")
      case True
      with False have "?d1 = d" by (simp add: record_outcome_def Let_def)
      moreover have "pending_hosts (d_zone d) = {}" using inv(3) False by (auto simp: pending_ok_def)
      ultimately show ?thesis using inv by simp
    next
      case no: False
      moreover have "pending_hosts (d_zone d) = {}" using inv(3) no by (auto simp: pending_ok_def)
      ultimately show ?thesis using record_outcome_config [OF no] inv by simp
    qed
  qed
  then show ?thesis
    using pump_step [OF assms(1,2), of "?d1\<lparr>d_order := None\<rparr>"] Some by (simp add: order_complete_def)
qed

lemma accepted_step:
  assumes "driver_inv cy crc d"
  shows "\<exists>d'. driver_step cy E Accepted d = Some d' \<and> driver_inv cy crc d'"
proof (cases "d_order d")
  case (Some ord)
  with assms show ?thesis
    by (auto simp: driver_inv_def pending_ok_def timer_ok_def rt_order_accounted_def)
qed (use assms in simp)

lemma ask_step:
  assumes "env_ok rb crc E" "driver_inv cy crc d"
  shows "\<exists>d'. driver_step cy E (Ask host) d = Some d' \<and> driver_inv cy crc d'"
proof -
  have "rbtree_ok rb" "rb_of E = rb" "crc_of E = crc" using assms(1) by (simp_all add: env_ok_def)
  moreover have "requests_inv crc (d_zone d)" using assms(2) by (simp add: driver_inv_def)
  ultimately show ?thesis
    using assms(2) requests_ensure_inv [of rb crc "d_zone d"] requests_ensure_pending [of rb crc "d_zone d" "now E" host]
    by (auto simp: driver_inv_def pending_ok_def timer_ok_def)
qed

lemma driver_step_inv:
  assumes "env_ok rb crc E" "cycle_ok cy" "driver_inv cy crc d"
  shows "\<exists>d'. driver_step cy E ev d = Some d' \<and> driver_inv cy crc d'"
  using tick_step [OF assms] done_step [OF assms] accepted_step [OF assms(3)] ask_step [OF assms(1,3)]
  by (cases ev) blast+

lemma driver_reach_inv: "driver_reach cy rb crc d \<Longrightarrow> cycle_ok cy \<Longrightarrow> driver_inv cy crc d"
proof (induction rule: driver_reach.induct)
  case (start d)
  then show ?case by (simp add: driver_initial_inv)
next
  case (step d E ev d')
  then show ?case using driver_step_inv [OF step.hyps(2), of cy d ev] by auto
qed

text \<open>A small configuration for the witnesses: one authority with one name.\<close>

definition toy_cycle :: cycle where
  "toy_cycle = \<lparr>cy_http = True, cy_modules = [(True, Some (str ''ngx_http_autocert_module''), 0)],
     cy_main_conf = (\<lambda>_. Some \<lparr>mc_resolver = None, mc_resolver_timeout = 30, mc_dns_hook_add = [],
       mc_dns_hook_remove = [], mc_dns_propagation_delay = 0, mc_dns_hook_timeout = 0,
       mc_key_types = Some [KEY_P256], mc_store = STORE_SECURE, mc_path = str ''/s'', mc_renew_before = 2592000,
       mc_challenge = CHALLENGE_HTTP_01, mc_profile = [], mc_challenge_zone = True, mc_alpn_zone = False,
       mc_requests_zone = True, mc_runtime_ttl = 0\<rparr>),
     cy_core_resolver = None\<rparr>"

definition toy_env :: env where
  "toy_env = \<lparr>now = 1000, exiting = False, inet_of = toy_inet, rb_of = plain_ops, crc_of = (\<lambda>_. 0),
     cert_not_after = (\<lambda>_ _ _. Cert_Declined), order_start = (\<lambda>_. True)\<rparr>"

definition toy_ca :: ca_state where
  "toy_ca = \<lparr>ca_url = str ''https://ca'', ca_names = Some [str ''a.com''], ca_account = True, ca_account_live = True,
     ca_backoff = None, ca_backoff_n = 0, ca_backoff_nkt = 0\<rparr>"

definition toy_driver :: driver where
  "toy_driver = \<lparr>d_cas = [toy_ca], d_order = None, d_sched_ca = 0, d_sched_index = 0, d_sched_kt = 0, d_cur_ca = 0,
     d_cur = 0, d_runtime = False, d_armed = False, d_timer = None,
     d_order_ring = \<lparr>ring = [], head = 0\<rparr>, d_fails = [],
     d_zone = snd (requests_init_zone (requests_fresh [])), d_fs = (\<lambda>_. None), d_pools = [], d_io = []\<rparr>"

lemma toy_ok:
  "cycle_ok toy_cycle" "env_ok plain_ops (\<lambda>_. 0) toy_env" "driver_initial (\<lambda>_. 0) (start_order toy_driver)"
  "requests_inv (\<lambda>_. 0) (d_zone toy_driver)" "pending_hosts (d_zone toy_driver) = {}"
proof -
  show "cycle_ok toy_cycle" by (simp add: cycle_ok_def toy_cycle_def get_conf_def conf_ok_def Let_def)
  show "env_ok plain_ops (\<lambda>_. 0) toy_env" by (simp add: env_ok_def toy_env_def rbtree_ok_plain_ops)
  show inv: "requests_inv (\<lambda>_. 0) (d_zone toy_driver)"
    by (simp add: toy_driver_def requests_init_zone_def requests_init_body_inv requests_inv_fresh)
  show pend: "pending_hosts (d_zone toy_driver) = {}"
    by (simp add: toy_driver_def requests_init_zone_def requests_init_body_def requests_fresh_def
        pending_hosts_def requests_view_def)
  show "driver_initial (\<lambda>_. 0) (start_order toy_driver)"
    unfolding driver_initial_def using inv pend
    by (intro exI [of _ toy_driver]) (simp add: toy_driver_def toy_ca_def)
qed





section \<open>The sweep leaves nothing out\<close>

text \<open>When allocations succeed and orders can be started.\<close>

definition unhindered :: "env \<Rightarrow> driver \<Rightarrow> bool" where
  "unhindered E d \<longleftrightarrow> d_pools d = [] \<and> d_order d = None \<and> (\<forall>ord. order_start E ord)"

definition waits :: "env \<Rightarrow> conf \<Rightarrow> ca_state \<Rightarrow> nat \<Rightarrow> nat \<Rightarrow> bool" where
  "waits E acf st i k \<longleftrightarrow> next_eligible (elts (ca_backoff st) ! (i * ca_backoff_nkt st + k)) > now E \<or>
     \<not> name_due E acf (elts (ca_names st) ! i) (elts (cert_key_types acf) ! k)"

lemma unhindered_launch:
  assumes "unhindered E d" "start_order_for E acf st name kt rt d = (rc, d')"
  shows "rc = NGX_OK"
  using assms(2)
proof (cases rule: start_order_for_cases)
  case (refused ps r)
  with assms(1) show ?thesis by (simp add: unhindered_def)
qed simp

lemma kt_loop_complete:
  assumes "unhindered E d" "kt_loop E acf c i (elts (ca_names (d_cas d ! c)) ! i) ks d = (False, d')"
  shows "d_cas d' = d_cas d \<and> unhindered E d' \<and> (\<forall>k \<in> set ks. waits E acf (d_cas d ! c) i k)"
  using assms
proof (induction ks arbitrary: d)
  case Nil
  then show ?case by simp
next
  case (Cons k ks)
  let ?st = "d_cas d ! c" and ?d1 = "d\<lparr>d_sched_kt := k + 1\<rparr>"
  let ?slot = "i * ca_backoff_nkt ?st + k"
  have d1: "d_cas ?d1 = d_cas d" "unhindered E ?d1" using Cons.prems(1) by (simp_all add: unhindered_def)
  show ?case
  proof (cases "waits E acf ?st i k")
    case True
    then have "kt_loop E acf c i (elts (ca_names (d_cas ?d1 ! c)) ! i) ks ?d1 = (False, d')"
      using Cons.prems(2) by (auto simp: waits_def Let_def split: if_splits)
    from Cons.IH [OF d1(2) this] True show ?thesis by simp
  next
    case False
    let ?d2 = "?d1\<lparr>d_cur_ca := c, d_cur := ?slot\<rparr>"
    let ?kt = "elts (cert_key_types acf) ! k" and ?name = "elts (ca_names ?st) ! i"
    obtain rc d3 where s: "start_order_for E acf ?st ?name ?kt False ?d2 = (rc, d3)" by fastforce
    have "unhindered E ?d2" using d1(2) by (simp add: unhindered_def)
    from unhindered_launch [OF this s] s False Cons.prems(2) show ?thesis
      by (simp add: waits_def Let_def)
  qed
qed

lemma name_loop_complete:
  assumes "unhindered E d" "d_sched_kt d = 0" "name_loop E acf c is d = (False, d')"
  shows "d_cas d' = d_cas d \<and> unhindered E d' \<and>
    (\<forall>i \<in> set is. \<forall>k < ca_backoff_nkt (d_cas d ! c). waits E acf (d_cas d ! c) i k)"
  using assms
proof (induction "is" arbitrary: d)
  case Nil
  then show ?case by simp
next
  case (Cons i "is")
  let ?st = "d_cas d ! c"
  obtain b d1 where k: "kt_loop E acf c i (elts (ca_names ?st) ! i) [0..<ca_backoff_nkt ?st] d = (b, d1)" by fastforce
  let ?d2 = "d1\<lparr>d_sched_index := i + 1, d_sched_kt := 0\<rparr>"
  have b: "\<not> b" "name_loop E acf c is ?d2 = (False, d')"
    using Cons.prems(2,3) k by (auto simp: Let_def split: bool.splits)
  then have e: "d_cas d1 = d_cas d \<and> unhindered E d1 \<and> (\<forall>k \<in> set [0..<ca_backoff_nkt ?st]. waits E acf ?st i k)"
    using k by (intro kt_loop_complete [OF Cons.prems(1)]) simp
  then have "unhindered E ?d2" by (simp add: unhindered_def)
  from Cons.IH [OF this _ b(2)] e show ?case by simp
qed

text \<open>
  An engine has settled when each of its names and key types is held or not due.
\<close>

definition settled_ca :: "env \<Rightarrow> conf \<Rightarrow> ca_state \<Rightarrow> bool" where
  "settled_ca E acf st \<longleftrightarrow> (ca_account_live st \<and> ca_account st \<longrightarrow>
     (\<forall>i < length (elts (ca_names st)). \<forall>k < length (elts (cert_key_types acf)).
        i * length (elts (cert_key_types acf)) + k < length (elts (ca_backoff st)) \<and>
        (next_eligible (elts (ca_backoff st) ! (i * length (elts (cert_key_types acf)) + k)) > now E \<or>
         \<not> name_due E acf (elts (ca_names st) ! i) (elts (cert_key_types acf) ! k))))"

definition plausible :: "conf \<Rightarrow> ca_state \<Rightarrow> bool" where
  "plausible acf st \<longleftrightarrow> length (elts (ca_names st)) * length (elts (cert_key_types acf)) \<le> MAX_SIZE_T div BACKOFF_SIZE"

lemma ca_backoff_ensure_ok:
  assumes "conf_ok acf" "plausible acf st" "elts (ca_names st) \<noteq> []"
  shows "fst (ca_backoff_ensure True acf st) = NGX_OK"
proof -
  obtain kts where kts: "cert_key_types acf = Some kts" "kts \<noteq> []"
    using assms(1) by (cases "cert_key_types acf") (auto simp: conf_ok_def)
  let ?n = "length (elts (ca_names st))"
  have pos: "0 < ?n" using assms(3) by simp
  have small: "?n * length kts \<le> MAX_SIZE_T div BACKOFF_SIZE" using assms(2) kts by (simp add: plausible_def)
  then have "length kts * ?n \<le> MAX_SIZE_T" by (simp add: mult.commute)
  then have "length kts \<le> MAX_SIZE_T div ?n" using pos by (simp add: less_eq_div_iff_mult_less_eq)
  then have "\<not> length kts > MAX_SIZE_T div ?n" "\<not> ?n * length kts > MAX_SIZE_T div BACKOFF_SIZE"
    using small by (simp_all only: not_less)
  with kts pos show ?thesis unfolding ca_backoff_ensure_def Let_def by (simp del: One_nat_def)
qed

lemma ca_visit_complete:
  assumes "unhindered E d" "d_sched_index d = 0" "d_sched_kt d = 0" "conf_ok acf" "c < length (d_cas d)"
    and "list_all slots_ok (d_cas d)" "plausible acf (d_cas d ! c)" "ca_visit E acf c d = (False, d')"
  shows "\<exists>st'. d_cas d' = (d_cas d)[c := st'] \<and> unhindered E d' \<and> settled_ca E acf st' \<and> slots_ok st' \<and>
    same_names (d_cas d ! c) st'"
proof (cases "\<not> ca_account_live (d_cas d ! c) \<or> \<not> ca_account (d_cas d ! c) \<or> elts (ca_names (d_cas d ! c)) = []")
  case True
  then have "d' = d" using assms(8) by (auto simp: ca_visit_def Let_def split: if_splits)
  with True assms show ?thesis
    by (intro exI [of _ "d_cas d ! c"]) (auto simp: settled_ca_def list_all_length)
next
  case False
  let ?st = "d_cas d ! c"
  have pool: "pool_next d = ([], d)" using assms(1) by (simp add: unhindered_def pool_next_never_fails)
  obtain rc st' where e: "ca_backoff_ensure True acf ?st = (rc, st')" by fastforce
  have rc: "rc = NGX_OK" using ca_backoff_ensure_ok [OF assms(4,7)] False e by simp
  have ok: "slots_ok ?st" using assms(5,6) by (simp add: list_all_length)
  note eff = ca_backoff_ensure_effect [OF e assms(4) ok]
  have ready: "engine_ready acf st'" using eff(3) rc False by simp
  let ?d2 = "set_ca c st' d"
  have nth: "d_cas ?d2 ! c = st'" "unhindered E ?d2" "d_sched_kt ?d2 = 0" "d_cas ?d2 = (d_cas d)[c := st']"
    using assms(1,3,5) by (simp_all add: set_ca_def unhindered_def)
  have "name_loop E acf c [0..<length (elts (ca_names st'))] ?d2 = (False, d')"
    using assms(2,8) False pool e rc by (simp add: ca_visit_def Let_def)
  from name_loop_complete [OF nth(2,3) this] nth(1,4)
  have l: "d_cas d' = (d_cas d)[c := st']" "unhindered E d'"
    "\<forall>i < length (elts (ca_names st')). \<forall>k < ca_backoff_nkt st'. waits E acf st' i k" by auto
  obtain kts where kts: "cert_key_types acf = Some kts" "ca_backoff_nkt st' = length kts"
    using ready by (auto simp: engine_ready_def)
  have "settled_ca E acf st'"
    unfolding settled_ca_def
  proof (intro impI allI, goal_cases)
    case (1 i k)
    with l(3) kts have w: "waits E acf st' i k" by simp
    have "i * length kts + k < ca_backoff_n st'" using slot_in_range [OF ready, of i k] 1 kts by simp
    then have "i * length kts + k < length (elts (ca_backoff st'))" using eff(2) by (simp add: slots_ok_def)
    with w kts show ?case by (simp add: waits_def)
  qed
  with l eff show ?thesis by blast
qed

lemma ca_loop_complete:
  assumes "unhindered E d" "d_sched_index d = 0" "d_sched_kt d = 0" "conf_ok acf" "distinct cs"
    and "\<forall>c \<in> set cs. c < length (d_cas d) \<and> plausible acf (d_cas d ! c)"
    and "list_all slots_ok (d_cas d)" "ca_loop E acf cs d = (False, d')"
  shows "length (d_cas d') = length (d_cas d) \<and> (\<forall>c \<in> set cs. settled_ca E acf (d_cas d' ! c)) \<and>
    (\<forall>c. c \<notin> set cs \<longrightarrow> d_cas d' ! c = d_cas d ! c)"
  using assms
proof (induction cs arbitrary: d)
  case Nil
  then show ?case by simp
next
  case (Cons c cs)
  obtain b d1 where v: "ca_visit E acf c d = (b, d1)" by fastforce
  let ?d2 = "d1\<lparr>d_sched_ca := c + 1, d_sched_index := 0, d_sched_kt := 0\<rparr>"
  have b: "\<not> b" "ca_loop E acf cs ?d2 = (False, d')" using Cons.prems(8) v by (auto split: bool.splits)
  have c: "c < length (d_cas d)" "plausible acf (d_cas d ! c)" "c \<notin> set cs" "distinct cs" using Cons.prems(5,6) by simp_all
  from ca_visit_complete [OF Cons.prems(1-4) c(1) Cons.prems(7) c(2)] v b(1) obtain st' where
    st': "d_cas d1 = (d_cas d)[c := st']" "unhindered E d1" "settled_ca E acf st'" "slots_ok st'" by auto
  have "unhindered E ?d2" using st'(2) by (simp add: unhindered_def)
  moreover have "\<forall>x \<in> set cs. x < length (d_cas ?d2) \<and> plausible acf (d_cas ?d2 ! x)"
  proof
    fix x assume x: "x \<in> set cs"
    with c(3) have "c \<noteq> x" by blast
    with x st'(1) Cons.prems(6) show "x < length (d_cas ?d2) \<and> plausible acf (d_cas ?d2 ! x)" by simp
  qed
  moreover have "list_all slots_ok (d_cas ?d2)"
    using Cons.prems(7) st'(1,4) c(1) by (auto simp: list_all_length nth_list_update)
  ultimately have "length (d_cas d') = length (d_cas ?d2) \<and> (\<forall>c \<in> set cs. settled_ca E acf (d_cas d' ! c)) \<and>
    (\<forall>c. c \<notin> set cs \<longrightarrow> d_cas d' ! c = d_cas ?d2 ! c)"
    using Cons.IH [of ?d2] Cons.prems(4) c(4) b(2) by simp
  with st'(1,3) c(1,3) show ?case by (auto simp: nth_list_update_neq)
qed



theorem sched_interval_in_time_witness:
  "60000 \<le> unat (sched_interval toy_env (get_conf toy_cycle) toy_driver) \<and>
   unat (sched_interval toy_env (get_conf toy_cycle) toy_driver) \<le> 43200000"
  using sched_interval_in_time [of toy_env "get_conf toy_cycle" toy_driver] by (simp add: toy_env_def Let_def)

section \<open>Runtime requests are served\<close>



end
