(* ===== verification/Seed.thy ===== *)
theory Seed
  imports Driver_Machine
begin

text \<open>
  Runtime names across a restart (\<^verbatim>\<open>src/ngx_autocert_driver.c\<close>): the walk over
  the store that rebuilds the registry from the markers on disk, in chunks of 64 entries
  per turn of the event loop.
\<close>

abbreviation (input) SEED_CHUNK :: nat where "SEED_CHUNK \<equiv> 64"

section \<open>The walk\<close>

text \<open>
  The cursor of \<^verbatim>\<open>readdir\<close>: the names not yet returned, and whether the end of
  the enumeration is an error.  The directory below each entry name is looked up in the
  store; \<open>io\<close> are the answers of the system calls on the marker of an entry.
\<close>

record dir_stream =
  ds_names :: "bytes list"
  ds_err :: bool

fun seed_walk_chunk ::
  "(bytes \<Rightarrow> marker_io) \<Rightarrow> (bytes \<Rightarrow> leaf option option) \<Rightarrow> (bytes \<Rightarrow> 's \<Rightarrow> 's) \<Rightarrow> nat \<Rightarrow>
   dir_stream \<Rightarrow> 's \<Rightarrow> ngx_rc \<times> dir_stream \<times> 's" where
  "seed_walk_chunk io dir handler 0 ds s = (NGX_AGAIN, ds, s)"
| "seed_walk_chunk io dir handler (Suc budget) ds s =
     (case ds_names ds of
        [] \<Rightarrow> (if \<not> ds_err ds then NGX_DONE else NGX_ERROR, ds, s)
      | name # names \<Rightarrow>
          seed_walk_chunk io dir handler budget (ds\<lparr>ds_names := names\<rparr>)
            (case seed_read_marker (io name) name (dir name) of None \<Rightarrow> s | Some host \<Rightarrow> handler host s))"

text \<open>The decision for one host: what the handler answers, and the registry after it.\<close>

definition seed_restore_entry :: "env \<Rightarrow> conf \<Rightarrow> key_type \<Rightarrow> bytes \<Rightarrow> driver \<Rightarrow> ngx_rc \<times> driver" where
  "seed_restore_entry E acf kt host d =
     (if name_is_config (d_cas d) host \<noteq> None then (NGX_DECLINED, d)
      else if name_due E acf host kt then (NGX_DECLINED, d)
      else
        (case requests_ensure (rb_of E) (crc_of E) (now E) (d_zone d) host of
           (rc, z) \<Rightarrow>
             let d1 = d\<lparr>d_zone := z\<rparr> in
             if rc = REQ_UNKNOWN \<or> rc = REQ_DENIED then (NGX_DECLINED, d1)
             else
               (case zone_set_state E host REQ_ISSUED 0 d1 of
                  (rc', d2) \<Rightarrow> (if rc' \<noteq> NGX_OK then NGX_DECLINED else NGX_OK, d2))))"

text \<open>
  The state of the walk: the open directory, which is also the mark of a walk in flight,
  the resume timer, and the key type that was read when the walk began.
\<close>

record seed =
  sd_dh :: "dir_stream option"
  sd_timer :: bool
  sd_key_type :: key_type

definition runtime_seed_stop :: "seed \<Rightarrow> seed" where
  "runtime_seed_stop s = s\<lparr>sd_timer := False, sd_dh := None\<rparr>"

definition entry_dir :: "conf \<Rightarrow> store_fs \<Rightarrow> bytes \<Rightarrow> leaf option option" where
  "entry_dir acf fs name = fs (path acf @ live_part acf @ [c_slash] @ name)"

definition runtime_seed_step ::
  "env \<Rightarrow> cycle \<Rightarrow> (bytes \<Rightarrow> marker_io) \<Rightarrow> seed \<times> driver \<Rightarrow> seed \<times> driver" where
  "runtime_seed_step E cy io sd =
     (case sd of (s0, d) \<Rightarrow>
        let s = s0\<lparr>sd_timer := False\<rparr> in
        (case sd_dh s of
           None \<Rightarrow> (s, d)
         | Some dh \<Rightarrow>
             if exiting E then (runtime_seed_stop s, d)
             else
               let acf = get_conf cy in
               if \<not> requests_zone acf \<or> path acf = [] then (runtime_seed_stop s, d)
               else
                 (case seed_walk_chunk io (entry_dir acf (d_fs d))
                         (\<lambda>host d. snd (seed_restore_entry E acf (sd_key_type s) host d)) SEED_CHUNK dh d of
                    (NGX_AGAIN, dh', d') \<Rightarrow> (s\<lparr>sd_dh := Some dh', sd_timer := True\<rparr>, d')
                  | (_, dh', d') \<Rightarrow> (runtime_seed_stop s, d'))))"

text \<open>
  The start of a walk: one in flight is dropped.  The last argument is the directory that
  opening the store container yields, \<^const>\<open>None\<close> when it cannot be opened.
\<close>

definition runtime_seed ::
  "env \<Rightarrow> cycle \<Rightarrow> (bytes \<Rightarrow> marker_io) \<Rightarrow> dir_stream option \<Rightarrow> seed \<times> driver \<Rightarrow> seed \<times> driver" where
  "runtime_seed E cy io container sd =
     (case sd of (s0, d) \<Rightarrow>
        let s = runtime_seed_stop s0; acf = get_conf cy in
        if \<not> requests_zone acf \<or> path acf = [] then (s, d)
        else if length (path acf) + length (live_part acf) \<ge> NGX_MAX_PATH then (s, d)
        else
          (case container of
             None \<Rightarrow> (s, d)
           | Some dh \<Rightarrow>
               runtime_seed_step E cy io
                 (s\<lparr>sd_dh := Some dh, sd_key_type := runtime_key_type acf, sd_timer := False\<rparr>, d)))"

section \<open>Chunks and the whole walk\<close>

text \<open>The hosts of the markers, in the order of the enumeration.\<close>

definition marked_hosts :: "(bytes \<Rightarrow> marker_io) \<Rightarrow> (bytes \<Rightarrow> leaf option option) \<Rightarrow> bytes list \<Rightarrow> bytes list" where
  "marked_hosts io dir names = List.map_filter (\<lambda>n. seed_read_marker (io n) n (dir n)) names"

lemma marked_hosts_simps [simp]:
  "marked_hosts io dir [] = []"
  "marked_hosts io dir (n # ns) =
     (case seed_read_marker (io n) n (dir n) of None \<Rightarrow> [] | Some h \<Rightarrow> [h]) @ marked_hosts io dir ns"
  by (simp_all add: marked_hosts_def List.map_filter_def split: option.splits)

lemma marked_hosts_append: "marked_hosts io dir (xs @ ys) = marked_hosts io dir xs @ marked_hosts io dir ys"
  by (simp add: marked_hosts_def List.map_filter_def)

lemma seed_walk_chunk_eq:
  "seed_walk_chunk io dir handler budget ds s =
    (if length (ds_names ds) < budget then (if ds_err ds then NGX_ERROR else NGX_DONE) else NGX_AGAIN,
     ds\<lparr>ds_names := drop budget (ds_names ds)\<rparr>,
     fold handler (marked_hosts io dir (take budget (ds_names ds))) s)"
proof (induction budget arbitrary: ds s)
  case 0
  then show ?case by simp
next
  case (Suc budget)
  show ?case
  proof (cases "ds_names ds")
    case Nil
    then have "ds\<lparr>ds_names := []\<rparr> = ds" by (cases ds) simp
    with Nil show ?thesis by simp
  next
    case (Cons n ns)
    then show ?thesis
      using Suc [of "ds\<lparr>ds_names := ns\<rparr>"] by (simp split: option.splits)
  qed
qed

text \<open>Successive turns of the event loop, the clock standing still.\<close>

fun seed_ticks :: "nat \<Rightarrow> env \<Rightarrow> cycle \<Rightarrow> (bytes \<Rightarrow> marker_io) \<Rightarrow> seed \<times> driver \<Rightarrow> seed \<times> driver" where
  "seed_ticks 0 E cy io sd = sd"
| "seed_ticks (Suc n) E cy io sd = seed_ticks n E cy io (runtime_seed_step E cy io sd)"

definition seed_handler :: "env \<Rightarrow> conf \<Rightarrow> key_type \<Rightarrow> bytes \<Rightarrow> driver \<Rightarrow> driver" where
  "seed_handler E acf kt host d = snd (seed_restore_entry E acf kt host d)"

lemma seed_handler_fields [simp]:
  "d_fs (seed_handler E acf kt h d) = d_fs d" "d_cas (seed_handler E acf kt h d) = d_cas d"
  by (simp_all add: seed_handler_def seed_restore_entry_def zone_set_state_eq Let_def split: prod.splits)

lemma seed_fold_fs [simp]: "d_fs (fold (seed_handler E acf kt) hs d) = d_fs d"
  by (induction hs arbitrary: d) simp_all

lemma runtime_seed_step_walk:
  assumes "\<not> exiting E" "requests_zone (get_conf cy)" "path (get_conf cy) \<noteq> []" "sd_dh s = Some ds"
  shows "runtime_seed_step E cy io (s, d) =
    (let d' = fold (seed_handler E (get_conf cy) (sd_key_type s))
           (marked_hosts io (entry_dir (get_conf cy) (d_fs d)) (take SEED_CHUNK (ds_names ds))) d
     in (if length (ds_names ds) < SEED_CHUNK then s\<lparr>sd_timer := False, sd_dh := None\<rparr>
         else s\<lparr>sd_timer := True, sd_dh := Some (ds\<lparr>ds_names := drop SEED_CHUNK (ds_names ds)\<rparr>)\<rparr>, d'))"
proof -
  have h: "(\<lambda>host d. snd (seed_restore_entry E (get_conf cy) kt host d)) = seed_handler E (get_conf cy) kt" for kt
    by (simp add: seed_handler_def fun_eq_iff)
  show ?thesis
    using assms by (auto simp: runtime_seed_step_def Let_def h seed_walk_chunk_eq runtime_seed_stop_def)
qed

lemma seed_ticks_complete:
  assumes "\<not> exiting E" "requests_zone (get_conf cy)" "path (get_conf cy) \<noteq> []" "sd_dh s = Some ds"
    and "n > length (ds_names ds) div SEED_CHUNK"
  shows "seed_ticks n E cy io (s, d) =
    (s\<lparr>sd_timer := False, sd_dh := None\<rparr>,
     fold (seed_handler E (get_conf cy) (sd_key_type s))
       (marked_hosts io (entry_dir (get_conf cy) (d_fs d)) (ds_names ds)) d)"
  using assms(4,5)
proof (induction n arbitrary: s ds d)
  case (Suc n)
  let ?dir = "entry_dir (get_conf cy) (d_fs d)" and ?h = "seed_handler E (get_conf cy) (sd_key_type s)"
  note step = runtime_seed_step_walk [OF assms(1-3) Suc.prems(1), of io d]
  have stay: "seed_ticks m E cy io (s', d') = (s'\<lparr>sd_timer := False\<rparr>, d')" if "sd_dh s' = None" "\<not> sd_timer s'" for m s' d'
    using that
  proof (induction m)
    case 0
    then show ?case by (cases s') simp
  next
    case (Suc m)
    then have "runtime_seed_step E cy io (s', d') = (s', d')"
      by (cases s') (simp add: runtime_seed_step_def Let_def)
    with Suc show ?case by simp
  qed
  show ?case
  proof (cases "length (ds_names ds) < SEED_CHUNK")
    case True
    then show ?thesis using step stay [of "s\<lparr>sd_timer := False, sd_dh := None\<rparr>"] by (simp add: Let_def)
  next
    case False
    let ?ds = "ds\<lparr>ds_names := drop SEED_CHUNK (ds_names ds)\<rparr>"
    let ?s = "s\<lparr>sd_timer := True, sd_dh := Some ?ds\<rparr>"
    let ?d = "fold ?h (marked_hosts io ?dir (take SEED_CHUNK (ds_names ds))) d"
    have "length (ds_names ?ds) div SEED_CHUNK < n"
      using Suc.prems(2) False by (simp add: le_div_geq)
    then have "seed_ticks n E cy io (?s, ?d) = (?s\<lparr>sd_timer := False, sd_dh := None\<rparr>,
        fold ?h (marked_hosts io ?dir (ds_names ?ds)) ?d)"
      using Suc.IH [of ?s ?ds ?d] by simp
    moreover have "marked_hosts io ?dir (ds_names ds) =
        marked_hosts io ?dir (take SEED_CHUNK (ds_names ds)) @ marked_hosts io ?dir (drop SEED_CHUNK (ds_names ds))"
      by (simp add: marked_hosts_append [symmetric])
    ultimately show ?thesis using step False by (simp add: Let_def)
  qed
qed simp



section \<open>Markers survive a restart\<close>

lemma runtime_host_segment:
  assumes "inet_ok (inet_of E)" "requests_normalize host = Some host" "inet6_addr (inet_of E) host = None"
    and "fs_segment (inet_of E) cap host = Some seg"
  shows "seg = host"
proof -
  have "\<forall>c \<in> set host. is_ldh c \<or> c = c_dot"
    using assms(2) labels_ok_bytes [of host]
    by (auto simp: requests_normalize_eq runtime_host_ok_def list_all_iff split: if_splits)
  then have "\<not> is_wild host"
    by (cases host) (auto simp: is_wild_def byte_class_defs)
  moreover have "fst (str_is_ip (inet_of E) host) \<noteq> AF_INET6"
    using assms(3) by (auto simp: str_is_ip_def Let_def)
  ultimately show ?thesis
    using assms(4) by (auto simp: fs_segment_def split: if_splits prod.splits family.splits)
qed

lemma normalized_first_byte: "requests_normalize host = Some host \<Longrightarrow> host \<noteq> [] \<and> host ! 0 \<noteq> c_dot"
  by (cases host) (auto simp: requests_normalize_eq runtime_host_ok_def labels_ok_def label_ok_def split: if_splits)

lemma runtime_dir_entry:
  assumes "runtime_dir E acf host NGX_MAX_PATH = Some dir" "inet_ok (inet_of E)"
    and "requests_normalize host = Some host" "inet6_addr (inet_of E) host = None"
  shows "entry_dir acf fs host = fs dir"
  using assms(1) runtime_host_segment [OF assms(2-4), of DOMAIN_SEG_MAX]
  by (auto simp: runtime_dir_def entry_dir_def Let_def split: option.splits if_splits)

text \<open>The restored node, for a registry in which the name is known or there is room for it.\<close>

lemma seed_restore_issued:
  assumes "rbtree_ok (rb_of E)" "requests_inv (crc_of E) (d_zone d)" "active_sh (d_zone d) = Some sh"
    and "requests_normalize host = Some host" "rq_count sh < REQUESTS_MAX" "answers (rz_slab (d_zone d)) = []"
    and "requests_view (d_zone d) host = None" "name_is_config (d_cas d) host = None" "\<not> name_due E acf host kt"
  shows "fst (seed_restore_entry E acf kt host d) = NGX_OK \<and>
    (\<exists>rn. requests_view (d_zone (snd (seed_restore_entry E acf kt host d))) host = Some rn \<and> rn_state rn = REQ_ISSUED)"
proof -
  obtain st z where e: "requests_ensure (rb_of E) (crc_of E) (now E) (d_zone d) host = (st, z)" by fastforce
  have z: "st = REQ_REQUESTED" "\<exists>rn. requests_view z host = Some rn"
    using requests_ensure_view [OF assms(1-4) e] assms(5-7) by (auto simp: slab_alloc_def)
  then obtain rn where rn: "requests_view z host = Some rn" by blast
  have inv: "requests_inv (crc_of E) z" "is_active z"
    using requests_ensure_inv [OF assms(1,2), of "now E" host] requests_ensure_pending(2) [OF assms(1,2), of "now E" host]
      e assms(3) by (simp_all add: is_active_def)
  then obtain sh' where "active_sh z = Some sh'" by (auto simp: is_active_def)
  from requests_set_state_view [OF inv(1) this assms(4), of REQ_ISSUED "now E" 0] rn
  have "fst (requests_set_state (crc_of E) (now E) z host REQ_ISSUED 0) = NGX_OK"
    "requests_view (snd (requests_set_state (crc_of E) (now E) z host REQ_ISSUED 0)) host =
       Some (set_state_node (now E) REQ_ISSUED 0 rn)" by simp_all
  then show ?thesis
    using assms(8,9) e z(1) by (simp add: seed_restore_entry_def zone_set_state_eq Let_def)
qed



end
