(* ===== verification/Acme_Http.thy ===== *)
theory Acme_Http
  imports Json
begin

text \<open>
  The HTTP layer of the ACME client (\<^verbatim>\<open>src/ngx_autocert_acme.c\<close>): the URL
  splitter and the origin pin, the request that is written to the CA, and the incremental
  parser of the response with its decoder for chunked bodies.

  The receive buffer is the list of the bytes between \<^verbatim>\<open>start\<close> and
  \<^verbatim>\<open>last\<close> with its capacity; a pointer into it is either an offset, where the
  code keeps it across calls, or the list of bytes from there to the end.  A function that
  the code could only run into undefined behaviour (a read past the end of the buffer, a
  write past the end of an allocation) returns \<^term>\<open>None\<close> there.
\<close>

section \<open>Numbers\<close>

text \<open>
  \<^verbatim>\<open>ngx_atoi\<close> and \<^verbatim>\<open>ngx_atoof\<close>, which are the same loop at
  the same width on a 64-bit target.  \<^term>\<open>None\<close> is \<^verbatim>\<open>NGX_ERROR\<close>.
\<close>

fun ngx_atoi_loop :: "bytes \<Rightarrow> int \<Rightarrow> int option" where
  "ngx_atoi_loop [] n = Some n"
| "ngx_atoi_loop (c # cs) n =
     (if c < 0x30 \<or> c > 0x39 then None
      else if n \<ge> NGX_MAX_INT div 10 \<and> (n > NGX_MAX_INT div 10 \<or> uint (c - 0x30) > NGX_MAX_INT mod 10)
      then None
      else ngx_atoi_loop cs (n * 10 + uint (c - 0x30)))"

definition ngx_atoi :: "bytes \<Rightarrow> int option" where
  "ngx_atoi line = (if line = [] then None else ngx_atoi_loop line 0)"

definition ngx_atoof :: "bytes \<Rightarrow> int option" where
  "ngx_atoof line = (if line = [] then None else ngx_atoi_loop line 0)"

text \<open>The decimal conversions of \<^verbatim>\<open>ngx_sprintf\<close>, for values that are not negative.\<close>

fun dec :: "nat \<Rightarrow> bytes" where
  "dec n = (if n < 10 then [] else dec (n div 10)) @ [0x30 + word_of_nat (n mod 10)]"

declare dec.simps [simp del]

section \<open>Requests\<close>

record buf =
  b_data :: bytes
  b_cap :: nat

text \<open>Which handlers are armed for the events of a request.\<close>

datatype phase = Idle | Resolving | Connecting | Handshaking | Exchanging

datatype dechunk_state = DECHUNK_CHUNKS | DECHUNK_TRAILER_START | DECHUNK_TRAILER_NONEMPTY

text \<open>
  The connection is reduced to whether it is open, which handlers it has, the bytes written
  to it and the value of its read timer, the resolver context to whether it is pending;
  \<open>r_inflight\<close> is whether the global in-flight pointer is this request,
  \<open>r_calls\<close> are the codes the completion handler was called with.
\<close>

record acme_request =
  r_pool :: alloc
  r_method :: bytes
  r_url :: bytes
  r_body :: bytes
  r_content_type :: bytes
  r_host :: bytes
  r_host_is_ip :: bool
  r_host_is_ipv6 :: bool
  r_port :: nat
  r_uri :: bytes
  r_status :: nat
  r_body_out :: bytes
  r_headers :: "(bytes \<times> bytes) list option"
  r_resolve :: bool
  r_connection :: bool
  r_phase :: phase
  r_sent :: bytes
  r_inflight :: bool
  r_send :: "bytes option"
  r_recv :: "buf option"
  r_done :: bool
  r_calls :: "ngx_rc list"
  r_headers_done :: bool
  r_chunked :: bool
  r_content_length :: int
  r_body_offset :: nat
  r_hdr_scan_pos :: nat
  r_dechunk_pos :: nat
  r_dechunk_total :: nat
  r_dechunk_state :: dechunk_state
  r_read_deadline :: u64
  r_read_timer :: "u64 option"

record acme_client =
  timeout :: u64
  has_resolver :: bool
  origin_host :: bytes
  origin_port :: nat
  origin_is_ipv6 :: bool
  origin_pinned :: bool

section \<open>URLs\<close>

fun url_part_safe :: "bytes \<Rightarrow> bool" where
  "url_part_safe [] = True"
| "url_part_safe (ch # s) = (if ch < 0x21 \<or> ch = 0x7f then False else url_part_safe s)"

definition https_scheme :: bytes where
  "https_scheme = str ''https://''"

text \<open>The end of the host: everything before the first \<open>:\<close> or \<open>/\<close>.\<close>

fun host_loop :: "bytes \<Rightarrow> bytes \<times> bytes" where
  "host_loop [] = ([], [])"
| "host_loop (c # p) =
     (if c \<noteq> c_colon \<and> c \<noteq> c_slash then (case host_loop p of (h, q) \<Rightarrow> (c # h, q)) else ([], c # p))"

text \<open>The digits of the port: everything before the first \<open>/\<close>.\<close>

fun port_loop :: "bytes \<Rightarrow> bytes \<times> bytes" where
  "port_loop [] = ([], [])"
| "port_loop (c # p) =
     (if c \<noteq> c_slash then (case port_loop p of (d, q) \<Rightarrow> (c # d, q)) else ([], c # p))"

text \<open>
  The authority: the host, whether it was bracketed, and the rest of the URL.  An empty
  host is refused for both forms.
\<close>

definition url_host :: "bytes \<Rightarrow> bool \<times> (bytes \<times> bytes) option" where
  "url_host p =
     (if p ! 0 = c_lbrack then
        (True,
         (case ngx_strlchr p c_rbrack of
            None \<Rightarrow> None
          | Some (pre, post) \<Rightarrow> if drop 1 pre = [] then None else Some (drop 1 pre, post)))
      else
        (False,
         (case host_loop p of
            (host, q) \<Rightarrow> if host = [] then None else Some (host, q))))"

text \<open>The port of the authority, and the rest of the URL.\<close>

definition url_port :: "bytes \<Rightarrow> (nat \<times> bytes) option" where
  "url_port p =
     (case p of
        c # q \<Rightarrow>
          if c = c_colon then
            (case port_loop q of
               (ds, q') \<Rightarrow>
                 if ds = [] then None
                 else
                   (case ngx_atoi ds of
                      None \<Rightarrow> None
                    | Some n \<Rightarrow> if n < 1 \<or> n > 65535 then None else Some (nat n, q')))
          else Some (443, p)
      | [] \<Rightarrow> Some (443, p))"

definition url_uri :: "bytes \<Rightarrow> bytes option" where
  "url_uri p =
     (if p \<noteq> [] \<and> p ! 0 = c_slash then Some p else if p = [] then Some (str ''/'') else None)"

definition parse_url :: "acme_request \<Rightarrow> ngx_rc \<times> acme_request" where
  "parse_url r =
     (if length (r_url r) \<le> length https_scheme
         \<or> \<not> ngx_strncasecmp_eq (r_url r) https_scheme (length https_scheme)
      then (NGX_ERROR, r)
      else
        (case url_host (drop (length https_scheme) (r_url r)) of
           (v6, None) \<Rightarrow> (NGX_ERROR, r\<lparr>r_host_is_ipv6 := v6\<rparr>)
         | (v6, Some (host, q)) \<Rightarrow>
             let r1 = r\<lparr>r_host_is_ipv6 := v6, r_host := host, r_port := 443\<rparr> in
             (case url_port q of
                None \<Rightarrow> (NGX_ERROR, r1)
              | Some (port, q') \<Rightarrow>
                  let r2 = r1\<lparr>r_port := port\<rparr> in
                  (case url_uri q' of
                     None \<Rightarrow> (NGX_ERROR, r2)
                   | Some uri \<Rightarrow>
                       let r3 = r2\<lparr>r_uri := uri\<rparr> in
                       if \<not> url_part_safe host \<or> \<not> url_part_safe uri then (NGX_ERROR, r3)
                       else
                         (case alloc_next (r_pool r3) of
                            (False, pool) \<Rightarrow> (NGX_ERROR, r3\<lparr>r_pool := pool\<rparr>)
                          | (True, pool) \<Rightarrow> (NGX_OK, r3\<lparr>r_pool := pool\<rparr>))))))"

definition check_origin :: "acme_client option \<Rightarrow> acme_request \<Rightarrow> ngx_rc" where
  "check_origin client r =
     (case client of
        None \<Rightarrow> NGX_OK
      | Some c \<Rightarrow>
          if \<not> origin_pinned c then NGX_OK
          else if r_port r \<noteq> origin_port c
               \<or> r_host_is_ipv6 r \<noteq> origin_is_ipv6 c
               \<or> length (r_host r) \<noteq> length (origin_host c)
               \<or> \<not> ngx_strncasecmp_eq (r_host r) (origin_host c) (length (r_host r))
          then NGX_ERROR else NGX_OK)"

section \<open>The request\<close>

definition CRLF :: bytes where "CRLF = [0x0d, 0x0a]"

definition NGX_OFF_T_LEN :: nat where "NGX_OFF_T_LEN = 20"

definition request_len :: "acme_request \<Rightarrow> bytes \<Rightarrow> nat" where
  "request_len r ct =
     length (r_method r) + 1 + length (r_uri r) + length (str '' HTTP/1.1'' @ CRLF)
     + length (str ''Host: '') + length (r_host r)
     + (if r_host_is_ipv6 r then 2 else 0)
     + (if r_port r \<noteq> 443 then length (str '':65535'') else 0)
     + length CRLF
     + length (str ''User-Agent: ngx-autocert'' @ CRLF)
     + length (str ''Accept: application/json'' @ CRLF)
     + length (str ''Connection: close'' @ CRLF)
     + length CRLF
     + (if r_body r \<noteq> [] then
          length (str ''Content-Type: '') + length ct + length CRLF
          + length (str ''Content-Length: '') + NGX_OFF_T_LEN + length CRLF
          + length (r_body r)
        else 0)"

definition request_lines :: "acme_request \<Rightarrow> bytes \<Rightarrow> bytes list" where
  "request_lines r ct =
     [r_method r @ str '' '' @ r_uri r @ str '' HTTP/1.1'',
      str ''Host: '' @ (if r_host_is_ipv6 r then str ''['' else []) @ r_host r
        @ (if r_host_is_ipv6 r then str '']'' else [])
        @ (if r_port r \<noteq> 443 then str '':'' @ dec (r_port r) else []),
      str ''User-Agent: ngx-autocert'',
      str ''Accept: application/json'',
      str ''Connection: close'']
     @ (if r_body r \<noteq> [] then
          [str ''Content-Type: '' @ ct, str ''Content-Length: '' @ dec (length (r_body r))]
        else [])"

definition request_text :: "acme_request \<Rightarrow> bytes \<Rightarrow> bytes" where
  "request_text r ct = concat (map (\<lambda>l. l @ CRLF) (request_lines r ct)) @ CRLF @ r_body r"

definition request_ct :: "acme_request \<Rightarrow> bytes" where
  "request_ct r = (if length (r_content_type r) = 0 then str ''application/jose+json'' else r_content_type r)"

text \<open>
  The buffer is sized first and then written without a check: \<^term>\<open>None\<close> is a write
  past its end.
\<close>

definition build_request :: "acme_request \<Rightarrow> (ngx_rc \<times> acme_request) option" where
  "build_request r =
     (let ct = request_ct r; len = request_len r ct in
      case alloc_next (r_pool r) of
        (False, pool) \<Rightarrow> Some (NGX_ERROR, r\<lparr>r_pool := pool\<rparr>)
      | (True, pool) \<Rightarrow>
          if length (request_text r ct) > len then None
          else Some (NGX_OK, r\<lparr>r_pool := pool, r_send := Some (request_text r ct)\<rparr>))"

section \<open>The response: framing primitives\<close>

fun memmem_loop :: "bytes \<Rightarrow> bytes \<Rightarrow> nat \<Rightarrow> nat option" where
  "memmem_loop [] needle p = None"
| "memmem_loop (x # hay) needle p =
     (if length (x # hay) < length needle then None
      else if memcmp (take (length needle) (x # hay)) needle = 0 then Some p
      else memmem_loop hay needle (p + 1))"

definition memmem :: "bytes \<Rightarrow> bytes \<Rightarrow> nat option" where
  "memmem hay needle =
     (if length needle = 0 \<or> length hay < length needle then None else memmem_loop hay needle 0)"

abbreviation (input) c_cr :: byte where "c_cr \<equiv> 0x0d"

definition is_lws :: "byte \<Rightarrow> bool" where
  "is_lws c \<longleftrightarrow> c = 0x20 \<or> c = 0x09"

fun header_loop :: "bytes \<Rightarrow> (bytes \<times> bytes) list \<Rightarrow> bytes option" where
  "header_loop name [] = None"
| "header_loop name ((n, v) # hs) =
     (if length n = length name \<and> ngx_strncasecmp_eq n name (length name) then Some v
      else header_loop name hs)"

definition acme_header :: "acme_request \<Rightarrow> bytes \<Rightarrow> bytes option" where
  "acme_header r name = (case r_headers r of None \<Rightarrow> None | Some hs \<Rightarrow> header_loop name hs)"

abbreviation (input) NGX_MAX_SIZE_T :: u64 where "NGX_MAX_SIZE_T \<equiv> 0x7fffffffffffffff"

definition chunk_digit :: "byte \<Rightarrow> u64 option" where
  "chunk_digit c =
     (if c \<ge> 0x30 \<and> c \<le> 0x39 then Some (ucast (c - 0x30))
      else if c \<ge> 0x61 \<and> c \<le> 0x66 then Some (ucast (c - 0x61 + 10))
      else if c \<ge> 0x41 \<and> c \<le> 0x46 then Some (ucast (c - 0x41 + 10))
      else None)"

fun chunk_size_loop :: "bytes \<Rightarrow> u64 \<Rightarrow> nat \<Rightarrow> u64 option" where
  "chunk_size_loop [] sz ndigits = (if ndigits = 0 then None else Some sz)"
| "chunk_size_loop (c # q) sz ndigits =
     (case chunk_digit c of
        Some d \<Rightarrow>
          if sz > drop_bit 4 NGX_MAX_SIZE_T then None
          else chunk_size_loop q (push_bit 4 sz OR d) (ndigits + 1)
      | None \<Rightarrow>
          if c = 0x3b \<or> c = 0x20 \<or> c = 0x09 then (if ndigits = 0 then None else Some sz)
          else None)"

definition chunk_size :: "bytes \<Rightarrow> u64 option" where
  "chunk_size line = (if line = [] then None else chunk_size_loop line 0 0)"

section \<open>The response: chunked bodies\<close>

text \<open>
  The outcome of the validating pass: a return of the function, or the end of the message
  with the number of decoded bytes.
\<close>

datatype walk = Return ngx_rc acme_request | Validated nat acme_request

lemma memmem_loop_le: "memmem_loop hay needle p = Some i \<Longrightarrow> i + length needle \<le> p + length hay"
  by (induction hay needle p rule: memmem_loop.induct) (auto split: if_splits)

lemma memmem_le: "memmem hay needle = Some i \<Longrightarrow> i + length needle \<le> length hay"
  by (auto simp: memmem_def dest: memmem_loop_le split: if_splits)

function trailers_loop :: "bytes \<Rightarrow> bytes \<Rightarrow> nat \<Rightarrow> acme_request \<Rightarrow> walk" where
  "trailers_loop b p tot r =
     (case memmem p CRLF of
        None \<Rightarrow>
          Return NGX_AGAIN
            (if length p \<noteq> 0
                \<and> \<not> (r_dechunk_state r = DECHUNK_TRAILER_START \<and> length p = 1 \<and> p ! 0 = c_cr)
             then r\<lparr>r_dechunk_state := DECHUNK_TRAILER_NONEMPTY,
                    r_dechunk_pos := length b - (if last b = c_cr then 1 else 0)\<rparr>
             else r)
      | Some eol \<Rightarrow>
          if r_dechunk_state r = DECHUNK_TRAILER_START \<and> eol = 0 then Validated tot r
          else
            let p1 = drop (eol + length CRLF) p in
            trailers_loop b p1 tot
              (r\<lparr>r_dechunk_state := DECHUNK_TRAILER_START, r_dechunk_pos := length b - length p1\<rparr>))"
  by pat_completeness auto
termination
  by (relation "measure (\<lambda>(b, p, tot, r). length p)") (auto dest: memmem_le simp: CRLF_def)

declare trailers_loop.simps [simp del]

function chunks_loop :: "bytes \<Rightarrow> bytes \<Rightarrow> nat \<Rightarrow> acme_request \<Rightarrow> walk" where
  "chunks_loop b p tot r =
     (case memmem p CRLF of
        None \<Rightarrow> Return NGX_AGAIN r
      | Some eol \<Rightarrow>
          (case chunk_size (take eol p) of
             None \<Rightarrow> Return NGX_ERROR r
           | Some sz \<Rightarrow>
               let p1 = drop (eol + length CRLF) p in
               if sz = 0 then
                 trailers_loop b p1 tot
                   (r\<lparr>r_dechunk_state := DECHUNK_TRAILER_START, r_dechunk_pos := length b - length p1\<rparr>)
               else if length p1 < length CRLF \<or> unat sz > length p1 - length CRLF
               then Return NGX_AGAIN r
               else
                 let tot' = tot + unat sz; p2 = drop (unat sz) p1 in
                 if memcmp (take (length CRLF) p2) CRLF \<noteq> 0 then Return NGX_ERROR r
                 else
                   let p3 = drop (length CRLF) p2 in
                   chunks_loop b p3 tot'
                     (r\<lparr>r_dechunk_pos := length b - length p3, r_dechunk_total := tot'\<rparr>)))"
  by pat_completeness auto
termination
  by (relation "measure (\<lambda>(b, p, tot, r). length p)") (auto dest: memmem_le simp: CRLF_def)

declare chunks_loop.simps [simp del]

text \<open>
  The copying pass into an allocation of \<open>cap\<close> bytes: the result is
  \<^term>\<open>None\<close> when it would read or write out of bounds, \<^term>\<open>Some None\<close>
  when it returns \<^verbatim>\<open>NGX_ERROR\<close>.
\<close>

function copy_loop :: "nat \<Rightarrow> bytes \<Rightarrow> bytes \<Rightarrow> bytes option option" where
  "copy_loop cap p out =
     (case memmem p CRLF of
        None \<Rightarrow> None
      | Some eol \<Rightarrow>
          (case chunk_size (take eol p) of
             None \<Rightarrow> Some None
           | Some sz \<Rightarrow>
               let p1 = drop (eol + length CRLF) p in
               if sz = 0 then Some (Some out)
               else if unat sz + length CRLF > length p1 \<or> length out + unat sz > cap then None
               else copy_loop cap (drop (unat sz + length CRLF) p1) (out @ take (unat sz) p1)))"
  by pat_completeness auto
termination
  by (relation "measure (\<lambda>(cap, p, out). length p)") (auto dest: memmem_le simp: CRLF_def)

declare copy_loop.simps [simp del]

definition recv_data :: "acme_request \<Rightarrow> bytes" where
  "recv_data r = (case r_recv r of None \<Rightarrow> [] | Some b \<Rightarrow> b_data b)"

text \<open>The second pass, once the framing is known to be complete.\<close>

definition dechunk_copy :: "bytes \<Rightarrow> nat \<Rightarrow> acme_request \<Rightarrow> (ngx_rc \<times> acme_request) option" where
  "dechunk_copy b tot r =
     (case alloc_next (r_pool r) of
        (False, pool) \<Rightarrow> Some (NGX_ERROR, r\<lparr>r_pool := pool\<rparr>)
      | (True, pool) \<Rightarrow>
          (case copy_loop (if tot \<noteq> 0 then tot else 1) (drop (r_body_offset r) b) [] of
             None \<Rightarrow> None
           | Some None \<Rightarrow> Some (NGX_ERROR, r\<lparr>r_pool := pool\<rparr>)
           | Some (Some out) \<Rightarrow> Some (NGX_DONE, r\<lparr>r_pool := pool, r_body_out := out\<rparr>)))"

definition dechunk :: "acme_request \<Rightarrow> (ngx_rc \<times> acme_request) option" where
  "dechunk r0 =
     (let b = recv_data r0;
          r = (if r_dechunk_pos r0 = 0
               then r0\<lparr>r_dechunk_pos := r_body_offset r0, r_dechunk_total := 0\<rparr> else r0);
          p = drop (r_dechunk_pos r) b;
          tot = r_dechunk_total r
      in
      (case (if r_dechunk_state r \<noteq> DECHUNK_CHUNKS then trailers_loop b p tot r
             else chunks_loop b p tot r) of
         Return rc r' \<Rightarrow> Some (rc, r')
       | Validated tot' r' \<Rightarrow> dechunk_copy b tot' r'))"

section \<open>The response: headers\<close>

text \<open>
  A header line is captured as name and value.  The element, the copy of the name and the
  copy of the value are three allocations; the answer for an empty value is ignored.
\<close>

definition capture_header :: "bytes \<Rightarrow> acme_request \<Rightarrow> ngx_rc \<times> acme_request" where
  "capture_header line r =
     (case memmem line [c_colon] of
        None \<Rightarrow> (NGX_OK, r)
      | Some colon \<Rightarrow>
          if \<not> colon > 0 then (NGX_OK, r)
          else
            let v = dropWhile is_lws (drop (colon + 1) line);
                value = rev (dropWhile is_lws (rev v));
                (ok, pool) = alloc_next (r_pool r)
            in
            if \<not> ok then (NGX_ERROR, r\<lparr>r_pool := pool\<rparr>)
            else
              let (ok_name, pool') = alloc_next pool; (ok_value, pool'') = alloc_next pool' in
              if \<not> ok_name \<or> (length value \<noteq> 0 \<and> \<not> ok_value) then (NGX_ERROR, r\<lparr>r_pool := pool''\<rparr>)
              else
                (NGX_OK,
                 r\<lparr>r_pool := pool'',
                   r_headers := map_option (\<lambda>hs. hs @ [(take colon line, value)]) (r_headers r)\<rparr>))"

definition has_prefix :: "bytes \<Rightarrow> bytes \<Rightarrow> bool" where
  "has_prefix line name \<longleftrightarrow> length line > length name \<and> ngx_strncasecmp_eq line name (length name)"

definition interpret_header :: "bytes \<Rightarrow> acme_request \<Rightarrow> ngx_rc \<times> acme_request" where
  "interpret_header line r =
     (if has_prefix line (str ''Content-Length:'') then
        (case ngx_atoof (dropWhile is_lws (drop (length (str ''Content-Length:'')) line)) of
           None \<Rightarrow> (NGX_ERROR, r)
         | Some cl \<Rightarrow>
             if cl < 0 \<or> (r_content_length r \<ge> 0 \<and> r_content_length r \<noteq> cl) then (NGX_ERROR, r)
             else (NGX_OK, r\<lparr>r_content_length := cl\<rparr>))
      else if has_prefix line (str ''Transfer-Encoding:'') then
        let v = dropWhile is_lws (drop (length (str ''Transfer-Encoding:'')) line) in
        if length v = length (str ''chunked'')
           \<and> ngx_strncasecmp_eq v (str ''chunked'') (length (str ''chunked''))
        then (NGX_OK, r\<lparr>r_chunked := True\<rparr>)
        else (NGX_ERROR, r)
      else (NGX_OK, r))"

function headers_loop :: "bytes \<Rightarrow> acme_request \<Rightarrow> ngx_rc \<times> acme_request" where
  "headers_loop lines r =
     (if lines = [] then (NGX_OK, r)
      else
        let eol = (case memmem lines CRLF of None \<Rightarrow> length lines | Some e \<Rightarrow> e);
            line = take eol lines
        in
        (case capture_header line r of
           (NGX_OK, r1) \<Rightarrow>
             (case interpret_header line r1 of
                (NGX_OK, r2) \<Rightarrow> headers_loop (drop (eol + length CRLF) lines) r2
              | (_, r2) \<Rightarrow> (NGX_ERROR, r2))
         | (_, r1) \<Rightarrow> (NGX_ERROR, r1)))"
  by pat_completeness auto
termination
  by (relation "measure (\<lambda>(lines, r). length lines)") (auto simp: CRLF_def)

declare headers_loop.simps [simp del]

definition status_line_ok :: "bytes \<Rightarrow> nat \<Rightarrow> bool" where
  "status_line_ok b eol \<longleftrightarrow>
     \<not> (eol < length (str ''HTTP/1.0 000'')
        \<or> \<not> strncmp_eq b (str ''HTTP/1.'') (length (str ''HTTP/1.''))
        \<or> (b ! 7 \<noteq> 0x30 \<and> b ! 7 \<noteq> 0x31)
        \<or> b ! 8 \<noteq> 0x20)"

text \<open>The header fields, between the status line and the end of the headers.\<close>

definition parse_fields :: "bytes \<Rightarrow> acme_request \<Rightarrow> ngx_rc \<times> acme_request" where
  "parse_fields lines r =
     (case alloc_next (r_pool r) of
        (False, pool) \<Rightarrow> (NGX_ERROR, r\<lparr>r_pool := pool, r_headers := None\<rparr>)
      | (True, pool) \<Rightarrow>
          (case headers_loop lines (r\<lparr>r_pool := pool, r_headers := Some []\<rparr>) of
             (NGX_OK, r') \<Rightarrow>
               if r_chunked r' \<and> r_content_length r' \<ge> 0 then (NGX_ERROR, r')
               else (NGX_OK, r'\<lparr>r_headers_done := True\<rparr>)
           | (_, r') \<Rightarrow> (NGX_ERROR, r')))"

definition parse_headers :: "bytes \<Rightarrow> nat \<Rightarrow> acme_request \<Rightarrow> ngx_rc \<times> acme_request" where
  "parse_headers b hdr_end r0 =
     (let r = r0\<lparr>r_body_offset := hdr_end\<rparr>; limit = hdr_end - length CRLF in
      case memmem (take hdr_end b) CRLF of
        None \<Rightarrow> (NGX_ERROR, r)
      | Some eol \<Rightarrow>
          if \<not> status_line_ok b eol then (NGX_ERROR, r)
          else
            (case ngx_atoi (take 3 (drop 9 b)) of
               None \<Rightarrow> (NGX_ERROR, r)
             | Some code \<Rightarrow>
                 if code < 100 \<or> code > 599 then (NGX_ERROR, r)
                 else
                   parse_fields (drop (eol + length CRLF) (take limit b)) (r\<lparr>r_status := nat code\<rparr>)))"

definition parse_body :: "acme_request \<Rightarrow> (ngx_rc \<times> acme_request) option" where
  "parse_body r =
     (if r_chunked r then dechunk r
      else if r_content_length r \<ge> 0 then
        (if int (length (recv_data r)) - int (r_body_offset r) \<ge> r_content_length r
         then Some (NGX_DONE,
                    r\<lparr>r_body_out := take (nat (r_content_length r)) (drop (r_body_offset r) (recv_data r))\<rparr>)
         else Some (NGX_AGAIN, r))
      else Some (NGX_AGAIN, r))"

definition parse_response :: "acme_request \<Rightarrow> (ngx_rc \<times> acme_request) option" where
  "parse_response r =
     (let b = recv_data r in
      if \<not> r_headers_done r then
        let tot = length b;
            back = length (CRLF @ CRLF) - 1;
            scan_from = (if r_hdr_scan_pos r > back then r_hdr_scan_pos r - back else 0)
        in
        (case memmem (drop scan_from b) (CRLF @ CRLF) of
           None \<Rightarrow> Some (NGX_AGAIN, r\<lparr>r_hdr_scan_pos := tot\<rparr>)
         | Some h \<Rightarrow>
             (case parse_headers b (scan_from + h + length (CRLF @ CRLF)) r of
                (NGX_OK, r') \<Rightarrow> parse_body r'
              | (_, r') \<Rightarrow> Some (NGX_ERROR, r')))
      else parse_body r)"

end
