(* ===== verification/Acme_Framing.thy ===== *)
theory Acme_Framing
  imports Acme_Http Json_Grammar
begin

text \<open>
  Correctness of the framing layer of the ACME client: the search primitive, the parser of
  chunk sizes, the grammar of chunked bodies (RFC 7230, section 4.1), and the resumable
  decoder, which gives the same result however the bytes are split into reads.
\<close>

section \<open>The search primitive\<close>

definition occurs_at :: "bytes \<Rightarrow> bytes \<Rightarrow> nat \<Rightarrow> bool" where
  "occurs_at hay needle j \<longleftrightarrow> take (length needle) (drop j hay) = needle"

lemma occurs_at_le: "occurs_at hay needle j \<Longrightarrow> needle \<noteq> [] \<Longrightarrow> j + length needle \<le> length hay"
proof -
  assume "occurs_at hay needle j" "needle \<noteq> []"
  then have "length (take (length needle) (drop j hay)) = length needle" "needle \<noteq> []"
    by (simp_all add: occurs_at_def)
  then show ?thesis by (cases needle) auto
qed

lemma occurs_at_Cons_Suc [simp]: "occurs_at (x # hay) needle (Suc j) = occurs_at hay needle j"
  by (simp add: occurs_at_def)

lemma occurs_at_append: "j + length needle \<le> length hay \<Longrightarrow> occurs_at (hay @ y) needle j = occurs_at hay needle j"
  by (simp add: occurs_at_def)

lemma memmem_loop_Some:
  "needle \<noteq> [] \<Longrightarrow> memmem_loop hay needle p = Some i \<longleftrightarrow>
     p \<le> i \<and> occurs_at hay needle (i - p) \<and> (\<forall>j < i - p. \<not> occurs_at hay needle j)"
proof (induction hay needle p rule: memmem_loop.induct)
  case (1 needle p)
  then show ?case by (auto simp: occurs_at_def)
next
  case (2 x hay needle p)
  have occ0: "occurs_at (x # hay) needle 0 \<longleftrightarrow>
      \<not> length (x # hay) < length needle \<and> memcmp (take (length needle) (x # hay)) needle = 0"
  proof (cases "length (x # hay) < length needle")
    case True
    with occurs_at_le [of "x # hay" needle 0] 2(2) show ?thesis by auto
  next
    case False
    then show ?thesis by (simp add: occurs_at_def memcmp_zero)
  qed
  show ?case
  proof (cases "occurs_at (x # hay) needle 0")
    case True
    with occ0 have "memmem_loop (x # hay) needle p = Some p" by simp
    with True show ?thesis by (cases "i - p") auto
  next
    case False
    show ?thesis
    proof (cases "length (x # hay) < length needle")
      case True
      have "\<not> occurs_at (x # hay) needle k" for k
        using occurs_at_le [of "x # hay" needle k] 2(2) True by auto
      then show ?thesis using True by auto
    next
      case long: False
      with False occ0 have "memmem_loop (x # hay) needle p = memmem_loop hay needle (p + 1)" by auto
      also have "\<dots> = Some i \<longleftrightarrow>
          p + 1 \<le> i \<and> occurs_at hay needle (i - (p + 1)) \<and> (\<forall>j < i - (p + 1). \<not> occurs_at hay needle j)"
        using 2 long False occ0 by blast
      also have "\<dots> \<longleftrightarrow> p \<le> i \<and> occurs_at (x # hay) needle (i - p)
          \<and> (\<forall>j < i - p. \<not> occurs_at (x # hay) needle j)"
      proof (cases "i - p")
        case 0
        with False show ?thesis by auto
      next
        case (Suc k)
        then have "i - (p + 1) = k" by simp
        with Suc False show ?thesis by (auto simp: less_Suc_eq_0_disj)
      qed
      finally show ?thesis .
    qed
  qed
qed

lemma memmem_Some:
  "memmem hay needle = Some i \<longleftrightarrow>
     needle \<noteq> [] \<and> occurs_at hay needle i \<and> (\<forall>j < i. \<not> occurs_at hay needle j)"
proof (cases "needle = [] \<or> length hay < length needle")
  case True
  then show ?thesis using occurs_at_le [of hay needle i] by (auto simp: memmem_def)
next
  case False
  then show ?thesis using memmem_loop_Some [of needle hay 0 i] by (simp add: memmem_def)
qed

lemma memmem_None: "needle \<noteq> [] \<Longrightarrow> memmem hay needle = None \<longleftrightarrow> (\<forall>j. \<not> occurs_at hay needle j)"
proof
  assume n: "needle \<noteq> []" and "memmem hay needle = None"
  show "\<forall>j. \<not> occurs_at hay needle j"
  proof (rule ccontr)
    assume "\<not> (\<forall>j. \<not> occurs_at hay needle j)"
    then have "\<exists>j. occurs_at hay needle j" by blast
    then obtain k where "occurs_at hay needle k" "\<forall>j < k. \<not> occurs_at hay needle j"
      by (subst (asm) exists_least_iff) blast
    then have "memmem hay needle = Some k" by (simp add: memmem_Some n)
    with \<open>memmem hay needle = None\<close> show False by simp
  qed
next
  assume "needle \<noteq> []" and "\<forall>j. \<not> occurs_at hay needle j"
  then show "memmem hay needle = None" by (cases "memmem hay needle") (auto simp: memmem_Some)
qed

lemma memmem_append_stable: "memmem hay needle = Some i \<Longrightarrow> memmem (hay @ y) needle = Some i"
proof -
  assume a: "memmem hay needle = Some i"
  then have n: "needle \<noteq> []" and o: "occurs_at hay needle i" and f: "\<forall>j < i. \<not> occurs_at hay needle j"
    by (simp_all add: memmem_Some)
  have le: "i + length needle \<le> length hay" using occurs_at_le [OF o n] .
  then show ?thesis using n o f by (auto simp: memmem_Some occurs_at_append)
qed

text \<open>A search may be resumed at any offset before which there is no occurrence.\<close>

lemma memmem_resume:
  assumes "\<And>j. j < s \<Longrightarrow> \<not> occurs_at hay needle j" and "needle \<noteq> []"
  shows "memmem hay needle = map_option ((+) s) (memmem (drop s hay) needle)"
proof -
  have d: "occurs_at (drop s hay) needle j = occurs_at hay needle (s + j)" for j
    by (simp add: occurs_at_def add.commute)
  show ?thesis
  proof (cases "memmem (drop s hay) needle")
    case None
    then have "\<not> occurs_at hay needle (s + j)" for j
      using memmem_None [OF assms(2)] by (auto simp: d)
    then have "\<not> occurs_at hay needle j" for j
      using assms(1) [of j] by (cases "j < s") (metis le_add_diff_inverse not_less)+
    then have "memmem hay needle = None" using memmem_None [OF assms(2)] by blast
    with None show ?thesis by simp
  next
    case (Some i)
    then have "occurs_at hay needle (s + i)" and less: "\<forall>j < i. \<not> occurs_at hay needle (s + j)"
      by (simp_all add: memmem_Some d)
    moreover have "\<not> occurs_at hay needle j" if "j < s + i" for j
      using assms(1) [of j] less that by (cases "j < s") (metis le_add_diff_inverse nat_add_left_cancel_less not_less)+
    ultimately have "memmem hay needle = Some (s + i)" using assms(2) by (simp add: memmem_Some)
    with Some show ?thesis by simp
  qed
qed

section \<open>Chunk sizes\<close>

text \<open>
  A hexadecimal numeral, over the digits of \<^const>\<open>hex_val\<close>, and the bytes that may
  follow it on a size line.
\<close>

definition is_hex :: "byte \<Rightarrow> bool" where
  "is_hex c \<longleftrightarrow> hex_val c \<noteq> None"

definition hexadecimal :: "bytes \<Rightarrow> nat" where
  "hexadecimal ds = foldl (\<lambda>n c. n * 16 + the (hex_val c)) 0 ds"

definition is_chunk_delim :: "byte \<Rightarrow> bool" where
  "is_chunk_delim c \<longleftrightarrow> c = 0x3b \<or> c = 0x20 \<or> c = 0x09"

lemma hexadecimal_snoc [simp]: "hexadecimal (ds @ [c]) = hexadecimal ds * 16 + the (hex_val c)"
  by (simp add: hexadecimal_def)

lemma hexadecimal_Nil [simp]: "hexadecimal [] = 0"
  by (simp add: hexadecimal_def)

lemma hexadecimal_append_ge: "hexadecimal ds \<le> hexadecimal (ds @ es)"
proof (induction es rule: rev_induct)
  case (snoc e es)
  then show ?case by (simp flip: append_assoc)
qed simp

lemma chunk_digit_nibble: "chunk_digit c = map_option ucast (hex_nibble c)"
proof -
  have ucast2: "(ucast (ucast (x :: byte) :: u32) :: u64) = ucast x" for x
    by (rule bit_word_eqI) (auto simp: bit_simps dest: bit_imp_le_length)
  show ?thesis by (simp add: chunk_digit_def hex_nibble_def ucast2)
qed

lemma chunk_digit_Some: "hex_val c = Some d \<Longrightarrow> chunk_digit c = Some (word_of_nat d) \<and> d < 16"
proof -
  assume "hex_val c = Some d"
  then have "hex_nibble c = Some (word_of_nat d)" "d < 16" using hex_val_unat by blast+
  moreover from \<open>d < 16\<close> have "unat (word_of_nat d :: u32) = d" by (simp add: unat_of_nat)
  then have "(word_of_nat (unat (word_of_nat d :: u32)) :: u64) = word_of_nat d" by (simp only:)
  ultimately show ?thesis by (simp add: chunk_digit_nibble)
qed

lemma chunk_digit_None: "hex_val c = None \<Longrightarrow> chunk_digit c = None"
  by (simp add: chunk_digit_nibble hex_val_None)

lemma drop_bit_max: "drop_bit 4 NGX_MAX_SIZE_T = 0x7ffffffffffffff"
  by (simp add: drop_bit_eq_div)

lemma unat_shift_or:
  assumes "unat (sz :: u64) < 2 ^ 59" and "d < 16"
  shows "unat (push_bit 4 sz OR word_of_nat d) = unat sz * 16 + d"
proof -
  have "unat (push_bit 4 sz) = unat sz * 16"
    using assms by (simp add: push_bit_eq_mult unat_word_ariths)
  moreover have "unat (word_of_nat d :: u64) = d" using assms(2) by (simp add: unat_of_nat)
  ultimately show ?thesis
    using or_nat_add [of d 4 "unat sz"] assms(2) by (simp add: unsigned_or_eq)
qed

text \<open>
  The loop on a line: the digits up to the first other byte are the size, which must be a
  delimiter or the end of the line, and the value must be below \<^term>\<open>2 ^ 63\<close>.
\<close>

definition size_line :: "bytes \<Rightarrow> nat option" where
  "size_line line =
     (let ds = takeWhile is_hex line; ext = dropWhile is_hex line in
      if ds \<noteq> [] \<and> (ext = [] \<or> is_chunk_delim (hd ext)) \<and> hexadecimal ds < 2 ^ 63
      then Some (hexadecimal ds) else None)"

lemma chunk_size_loop_correct:
  assumes "unat sz = hexadecimal ds" "hexadecimal ds < 2 ^ 63" "n = length ds" "list_all is_hex ds"
  shows "map_option unat (chunk_size_loop line sz n) = size_line (ds @ line)"
  using assms
proof (induction line arbitrary: sz ds n)
  case Nil
  then have "takeWhile is_hex ds = ds" "dropWhile is_hex ds = []" by (simp_all add: list_all_iff takeWhile_eq_all_conv)
  with Nil show ?case by (simp add: size_line_def del: takeWhile_eq_all_conv dropWhile_eq_Nil_conv)
next
  case (Cons c line)
  show ?case
  proof (cases "hex_val c")
    case None
    then have "takeWhile is_hex (ds @ c # line) = ds" "dropWhile is_hex (ds @ c # line) = c # line"
      using Cons.prems(4) by (simp_all add: list_all_iff is_hex_def takeWhile_append2 dropWhile_append2)
    with Cons.prems None show ?thesis
      by (simp add: size_line_def chunk_digit_None is_chunk_delim_def)
  next
    case (Some d)
    note cd = chunk_digit_Some [OF Some]
    show ?thesis
    proof (cases "unat sz < 2 ^ 59")
      case True
      then have ok: "\<not> sz > drop_bit 4 NGX_MAX_SIZE_T"
        by (simp add: drop_bit_max word_less_nat_alt)
      have v: "unat (push_bit 4 sz OR word_of_nat d) = hexadecimal (ds @ [c])"
        using unat_shift_or [OF True] cd Some Cons.prems(1) by simp
      have "hexadecimal (ds @ [c]) < 2 ^ 63" using True cd Some Cons.prems(1) by simp
      then have "map_option unat (chunk_size_loop line (push_bit 4 sz OR word_of_nat d) (n + 1))
          = size_line ((ds @ [c]) @ line)"
        using Cons.prems Some by (intro Cons.IH [OF v]) (simp_all add: is_hex_def)
      with ok cd show ?thesis by simp
    next
      case False
      then have big: "sz > drop_bit 4 NGX_MAX_SIZE_T"
        by (simp add: drop_bit_max word_less_nat_alt)
      have "takeWhile is_hex (ds @ c # line) = (ds @ [c]) @ takeWhile is_hex line"
        using Cons.prems(4) Some by (simp add: list_all_iff is_hex_def takeWhile_append2)
      moreover have "hexadecimal (ds @ [c]) \<ge> 2 ^ 63" using False Cons.prems(1) by simp
      then have "hexadecimal ((ds @ [c]) @ takeWhile is_hex line) \<ge> 2 ^ 63"
        using hexadecimal_append_ge order_trans by blast
      ultimately have "size_line (ds @ c # line) = None" by (simp add: size_line_def)
      with big cd show ?thesis by simp
    qed
  qed
qed

lemma chunk_size_eq: "map_option unat (chunk_size line) = size_line line"
  using chunk_size_loop_correct [of 0 "[]" 0 line] by (auto simp: chunk_size_def size_line_def)

lemma chunk_size_None: "chunk_size line = None \<longleftrightarrow> size_line line = None"
  by (metis chunk_size_eq option.map_disc_iff)

lemma chunk_size_Some: "chunk_size line = Some sz \<Longrightarrow> size_line line = Some (unat sz)"
  using chunk_size_eq [of line] by simp

lemma size_line_chunk_size: "size_line line = Some n \<Longrightarrow> \<exists>sz. chunk_size line = Some sz \<and> unat sz = n"
  using chunk_size_eq [of line] by (cases "chunk_size line") auto

section \<open>Lines\<close>

definition crlf_free :: "bytes \<Rightarrow> bool" where
  "crlf_free l \<longleftrightarrow> memmem l CRLF = None"

lemma CRLF_simps [simp]: "CRLF \<noteq> []" "length CRLF = 2"
  by (simp_all add: CRLF_def)

lemma crlf_free_Nil [simp]: "crlf_free []"
  by (simp add: crlf_free_def memmem_def)

lemma crlf_free_no_lf: "0x0a \<notin> set l \<Longrightarrow> crlf_free l"
proof -
  assume "0x0a \<notin> set l"
  moreover have "0x0a \<in> set l" if "occurs_at l CRLF j" for j
  proof -
    have "take 2 (drop j l) = CRLF" using that by (simp add: occurs_at_def)
    moreover have "0x0a \<in> set CRLF" by (simp add: CRLF_def)
    ultimately have "0x0a \<in> set (take 2 (drop j l))" by (simp only:)
    then show ?thesis by (meson in_set_dropD in_set_takeD)
  qed
  ultimately show ?thesis by (auto simp: crlf_free_def memmem_None)
qed

lemma memmem_line [simp]:
  assumes "crlf_free l"
  shows "memmem (l @ CRLF @ x) CRLF = Some (length l)"
proof -
  have no: "\<not> occurs_at l CRLF j" for j
    using assms by (simp add: crlf_free_def memmem_None)
  have "\<not> occurs_at (l @ CRLF @ x) CRLF j" if "j < length l" for j
  proof (cases "j + 2 \<le> length l")
    case True
    with no show ?thesis by (simp add: occurs_at_append)
  next
    case False
    with that have "j = length l - 1" "l \<noteq> []" by auto
    then obtain l' c where l: "l = l' @ [c]" "j = length l'" by (cases l rule: rev_cases) auto
    show ?thesis by (simp add: l occurs_at_def CRLF_def)
  qed
  then show ?thesis by (simp add: memmem_Some occurs_at_def)
qed

lemmas memmem_line_simps [simp] = memmem_line [of _ "[]", simplified] memmem_line [of "[]", simplified]

lemma memmem_split:
  assumes "memmem p CRLF = Some i"
  obtains l x where "p = l @ CRLF @ x" "crlf_free l" "i = length l"
proof
  have "occurs_at p CRLF i" and no: "\<forall>j < i. \<not> occurs_at p CRLF j"
    using assms by (simp_all add: memmem_Some)
  then have le: "i + 2 \<le> length p" and "take 2 (drop i p) = CRLF"
    using occurs_at_le [of p CRLF i] by (simp_all add: occurs_at_def)
  then show "p = take i p @ CRLF @ drop (i + 2) p"
    by (metis add.commute append_take_drop_id drop_drop)
  have "\<not> occurs_at (take i p) CRLF j" for j
  proof
    assume o: "occurs_at (take i p) CRLF j"
    then have "j + 2 \<le> i" using occurs_at_le [OF o] le by simp
    moreover from o this have "occurs_at (take i p @ drop i p) CRLF j"
      using le by (subst occurs_at_append) simp_all
    ultimately show False using no by simp
  qed
  then show "crlf_free (take i p)" by (simp add: crlf_free_def memmem_None)
  show "i = length (take i p)" using le by simp
qed

section \<open>The grammar of chunked bodies\<close>

text \<open>
  A chunked body is a sequence of chunks, each a size line and that many bytes, a chunk of
  size zero, and a trailer of field lines that an empty line ends.
\<close>

inductive trailer_part :: "bytes \<Rightarrow> bool" where
  trailer_end: "trailer_part CRLF"
| trailer_field: "crlf_free l \<Longrightarrow> l \<noteq> [] \<Longrightarrow> trailer_part t \<Longrightarrow> trailer_part (l @ CRLF @ t)"

inductive chunked_body :: "bytes \<Rightarrow> bytes \<Rightarrow> bool" where
  last_chunk: "crlf_free l \<Longrightarrow> size_line l = Some 0 \<Longrightarrow> trailer_part t \<Longrightarrow> chunked_body (l @ CRLF @ t) []"
| chunk: "crlf_free l \<Longrightarrow> size_line l = Some (length d) \<Longrightarrow> d \<noteq> [] \<Longrightarrow> chunked_body m ds \<Longrightarrow>
    chunked_body (l @ CRLF @ d @ CRLF @ m) (d @ ds)"

text \<open>The same as a decision on a whole buffer, which need not be complete yet.\<close>

datatype framing = Incomplete | Malformed | Complete bytes

fun prepend :: "bytes \<Rightarrow> framing \<Rightarrow> framing" where
  "prepend d (Complete ds) = Complete (d @ ds)"
| "prepend d f = f"

lemma prepend_prepend [simp]: "prepend a (prepend b f) = prepend (a @ b) f" "prepend [] f = f"
  by (cases f; simp)+

function trailer_spec :: "bytes \<Rightarrow> framing" where
  "trailer_spec p =
     (case memmem p CRLF of
        None \<Rightarrow> Incomplete
      | Some i \<Rightarrow> if i = 0 then Complete [] else trailer_spec (drop (i + 2) p))"
  by pat_completeness auto
termination
  by (relation "measure length") (auto dest: memmem_le)

declare trailer_spec.simps [simp del]

function chunked_spec :: "bytes \<Rightarrow> framing" where
  "chunked_spec p =
     (case memmem p CRLF of
        None \<Rightarrow> Incomplete
      | Some i \<Rightarrow>
          (case size_line (take i p) of
             None \<Rightarrow> Malformed
           | Some n \<Rightarrow>
               let p1 = drop (i + 2) p in
               if n = 0 then trailer_spec p1
               else if length p1 < n + 2 then Incomplete
               else if take 2 (drop n p1) \<noteq> CRLF then Malformed
               else prepend (take n p1) (chunked_spec (drop (n + 2) p1))))"
  by pat_completeness auto
termination
  by (relation "measure length") (auto dest: memmem_le)

declare chunked_spec.simps [simp del]

lemma trailer_spec_line:
  "crlf_free l \<Longrightarrow> trailer_spec (l @ CRLF @ x) = (if l = [] then Complete [] else trailer_spec x)"
  by (subst trailer_spec.simps) simp

lemma chunked_spec_last:
  "crlf_free l \<Longrightarrow> size_line l = Some 0 \<Longrightarrow> chunked_spec (l @ CRLF @ x) = trailer_spec x"
  by (subst chunked_spec.simps) simp

lemma chunked_spec_chunk:
  "crlf_free l \<Longrightarrow> size_line l = Some (length d) \<Longrightarrow> d \<noteq> [] \<Longrightarrow>
   chunked_spec (l @ CRLF @ d @ CRLF @ x) = prepend d (chunked_spec x)"
  by (subst chunked_spec.simps) simp

lemma trailer_part_spec: "trailer_part t \<Longrightarrow> trailer_spec (t @ x) = Complete []"
  by (induction rule: trailer_part.induct) (simp_all add: trailer_spec_line trailer_spec_line [of "[]", simplified])

lemma chunked_body_spec: "chunked_body m d \<Longrightarrow> chunked_spec (m @ x) = Complete d"
  by (induction rule: chunked_body.induct) (simp_all add: chunked_spec_last chunked_spec_chunk trailer_part_spec)

lemma trailer_spec_part: "trailer_spec p = Complete d \<Longrightarrow> d = [] \<and> (\<exists>t x. p = t @ x \<and> trailer_part t)"
proof (induction p rule: trailer_spec.induct)
  case (1 p)
  show ?case
  proof (cases "memmem p CRLF")
    case None
    with 1(2) show ?thesis by (simp add: trailer_spec.simps [of p])
  next
    case (Some i)
    then obtain l y where p: "p = l @ CRLF @ y" "crlf_free l" "i = length l" by (rule memmem_split)
    show ?thesis
    proof (cases "l = []")
      case True
      with p 1(2) show ?thesis by (auto simp: trailer_spec_line [of "[]", simplified] intro: trailer_end)
    next
      case False
      with 1(1) [OF Some] 1(2) p have "d = [] \<and> (\<exists>t x. y = t @ x \<and> trailer_part t)"
        by (simp add: trailer_spec_line)
      then obtain t x where "d = []" "y = t @ x" "trailer_part t" by blast
      moreover from this have "p = (l @ CRLF @ t) @ x" "trailer_part (l @ CRLF @ t)"
        using p False by (simp_all add: trailer_field)
      ultimately show ?thesis by blast
    qed
  qed
qed

lemma chunked_spec_body: "chunked_spec p = Complete d \<Longrightarrow> \<exists>m x. p = m @ x \<and> chunked_body m d"
proof (induction p arbitrary: d rule: chunked_spec.induct)
  case (1 p)
  then obtain i where i: "memmem p CRLF = Some i"
    by (cases "memmem p CRLF") (simp_all add: chunked_spec.simps [of p])
  then obtain l y where p: "p = l @ CRLF @ y" "crlf_free l" "i = length l" by (rule memmem_split)
  with i 1(2) obtain n where n: "size_line l = Some n"
    by (cases "size_line l") (simp_all add: chunked_spec.simps [of "l @ CRLF @ y"])
  show ?case
  proof (cases "n = 0")
    case True
    with n p 1(2) have "trailer_spec y = Complete d" by (simp add: chunked_spec_last)
    from trailer_spec_part [OF this] obtain t x where "d = []" "y = t @ x" "trailer_part t" by blast
    moreover from this have "p = (l @ CRLF @ t) @ x" "chunked_body (l @ CRLF @ t) []"
      using p n True by (simp_all add: last_chunk)
    ultimately show ?thesis by blast
  next
    case False
    with i n p 1(2) have len: "\<not> length y < n + 2" and "take 2 (drop n y) = CRLF"
      and pre: "prepend (take n y) (chunked_spec (drop (n + 2) y)) = Complete d"
      by (simp_all add: chunked_spec.simps [of "l @ CRLF @ y"] split: if_splits)
    then obtain e where e: "chunked_spec (drop (n + 2) y) = Complete e" "d = take n y @ e"
      by (cases "chunked_spec (drop (n + 2) y)") auto
    have y: "y = take n y @ CRLF @ drop (n + 2) y"
      using \<open>take 2 (drop n y) = CRLF\<close> by (metis add.commute append_take_drop_id drop_drop)
    have "\<exists>m x. drop (n + 2) y = m @ x \<and> chunked_body m e"
      using 1(1) [OF i, of n "drop (i + 2) p" e] p n False len \<open>take 2 (drop n y) = CRLF\<close> e by simp
    then obtain m x where m: "drop (n + 2) y = m @ x" "chunked_body m e" by blast
    have "chunked_body (l @ CRLF @ take n y @ CRLF @ m) (take n y @ e)"
      by (rule chunk) (use p n len False m in \<open>auto simp: min_def\<close>)
    moreover have "p = (l @ CRLF @ take n y @ CRLF @ m) @ x" using p y m by (metis append.assoc)
    ultimately show ?thesis using e by blast
  qed
qed

end
