(* ===== verification/Acme_Dechunk.thy ===== *)
theory Acme_Dechunk
  imports Acme_Framing
begin

text \<open>
  The resumable decoder of chunked bodies against the grammar: what the cursor kept between
  two calls says about the bytes already received, and the result of a call.
\<close>

section \<open>What the cursor stands for\<close>

text \<open>Whole chunks behind the cursor, with their data.\<close>

inductive whole_chunks :: "bytes \<Rightarrow> bytes \<Rightarrow> bool" where
  no_chunks: "whole_chunks [] []"
| next_chunk: "whole_chunks E ds \<Longrightarrow> crlf_free l \<Longrightarrow> size_line l = Some (length d) \<Longrightarrow> d \<noteq> [] \<Longrightarrow>
    whole_chunks (E @ l @ CRLF @ d @ CRLF) (ds @ d)"

inductive field_lines :: "bytes \<Rightarrow> bool" where
  no_fields: "field_lines []"
| next_field: "field_lines T \<Longrightarrow> crlf_free l \<Longrightarrow> l \<noteq> [] \<Longrightarrow> field_lines (T @ l @ CRLF)"

lemma whole_chunks_spec: "whole_chunks E out \<Longrightarrow> chunked_spec (E @ x) = prepend out (chunked_spec x)"
  by (induction arbitrary: x rule: whole_chunks.induct) (simp_all add: chunked_spec_chunk)

lemma field_lines_spec: "field_lines T \<Longrightarrow> trailer_spec (T @ x) = trailer_spec x"
  by (induction arbitrary: x rule: field_lines.induct) (simp_all add: trailer_spec_line)

text \<open>
  The part \<open>u\<close> of an unfinished trailer line that the cursor has left behind: no line
  end begins in it, whatever bytes follow.
\<close>

definition sealed :: "bytes \<Rightarrow> bytes \<Rightarrow> bool" where
  "sealed u P \<longleftrightarrow> (\<forall>y. \<forall>j < length u. \<not> occurs_at (u @ P @ y) CRLF j)"

lemma sealed_Nil [simp]: "sealed [] P"
  by (simp add: sealed_def)

lemma sealed_append: "sealed u P \<Longrightarrow> sealed u (P @ y)"
  by (simp add: sealed_def)

lemma sealed_memmem: "sealed u P \<Longrightarrow> memmem (u @ P) CRLF = map_option ((+) (length u)) (memmem P CRLF)"
  using memmem_resume [of "length u" "u @ P" CRLF] by (force simp: sealed_def dest: spec [of _ "[]"])

lemma sealed_tail:
  assumes "crlf_free u"
  shows "if last u = c_cr then sealed (butlast u) [c_cr] else sealed u []"
proof (cases "u = []")
  case False
  then obtain v c where u: "u = v @ [c]" by (cases u rule: rev_cases) auto
  have no: "\<not> occurs_at (v @ [c]) CRLF j" for j
    using assms by (simp add: u crlf_free_def memmem_None)
  have inner: "\<not> occurs_at (v @ c # y) CRLF j" if "j < length v" for y j
    using no [of j] that occurs_at_append [of j CRLF "v @ [c]" y] by simp
  moreover have "\<not> occurs_at (v @ c # y) CRLF (length v)" if "c \<noteq> c_cr" for y
    using that by (simp add: occurs_at_def CRLF_def)
  ultimately show ?thesis by (auto simp: u sealed_def less_Suc_eq)
qed simp

definition chunks_at :: "bytes \<Rightarrow> acme_request \<Rightarrow> bytes \<Rightarrow> bytes \<Rightarrow> bool" where
  "chunks_at D r P out \<longleftrightarrow>
     (\<exists>H E. D = H @ E @ P \<and> length H = r_body_offset r \<and> whole_chunks E out)
     \<and> r_dechunk_pos r = length D - length P \<and> r_dechunk_total r = length out
     \<and> r_dechunk_state r = DECHUNK_CHUNKS"

definition trailers_at :: "bytes \<Rightarrow> acme_request \<Rightarrow> bytes \<Rightarrow> bytes \<Rightarrow> bytes \<Rightarrow> bool" where
  "trailers_at D r u P out \<longleftrightarrow>
     (\<exists>H E z T. D = H @ E @ z @ CRLF @ T @ u @ P \<and> length H = r_body_offset r \<and> whole_chunks E out
        \<and> crlf_free z \<and> size_line z = Some 0 \<and> field_lines T)
     \<and> r_dechunk_pos r = length D - length P \<and> r_dechunk_total r = length out \<and> sealed u P
     \<and> r_dechunk_state r = (if u = [] then DECHUNK_TRAILER_START else DECHUNK_TRAILER_NONEMPTY)"

definition dechunk_at :: "bytes \<Rightarrow> acme_request \<Rightarrow> bool" where
  "dechunk_at D r \<longleftrightarrow> (\<exists>P out. chunks_at D r P out) \<or> (\<exists>u P out. trailers_at D r u P out)"

text \<open>The cursor stays meaningful when the buffer grows, and says what the whole body is.\<close>

lemma dechunk_at_append: "dechunk_at D r \<Longrightarrow> dechunk_at (D @ y) r"
proof -
  have "chunks_at (D @ y) r (P @ y) out" if "chunks_at D r P out" for P out
    using that by (auto simp: chunks_at_def)
  moreover have "trailers_at (D @ y) r u (P @ y) out" if "trailers_at D r u P out" for u P out
    using that by (auto simp: trailers_at_def sealed_append)
  ultimately show "dechunk_at D r \<Longrightarrow> ?thesis" unfolding dechunk_at_def by blast
qed

lemma chunks_at_spec:
  "chunks_at D r P out \<Longrightarrow> chunked_spec (drop (r_body_offset r) D) = prepend out (chunked_spec P)"
  by (auto simp: chunks_at_def whole_chunks_spec)

lemma trailers_at_spec:
  "trailers_at D r u P out \<Longrightarrow> chunked_spec (drop (r_body_offset r) D) = prepend out (trailer_spec (u @ P))"
  by (auto simp: trailers_at_def whole_chunks_spec chunked_spec_last field_lines_spec)

lemma at_pos:
  "chunks_at D r P out \<Longrightarrow> drop (r_dechunk_pos r) D = P"
  "trailers_at D r u P out \<Longrightarrow> drop (r_dechunk_pos r) D = P"
  by (auto simp: chunks_at_def trailers_at_def)

section \<open>The loops\<close>

text \<open>What the walk changes of the request: its cursor.\<close>

definition cursor_only :: "acme_request \<Rightarrow> acme_request \<Rightarrow> bool" where
  "cursor_only r r' \<longleftrightarrow>
     (\<exists>pos tot st. r' = r\<lparr>r_dechunk_pos := pos, r_dechunk_total := tot, r_dechunk_state := st\<rparr>)"

lemma cursor_only_refl [simp]: "cursor_only r r"
  unfolding cursor_only_def
  by (rule exI [of _ "r_dechunk_pos r"], rule exI [of _ "r_dechunk_total r"],
      rule exI [of _ "r_dechunk_state r"]) simp

lemma cursor_only_trans: "cursor_only r s \<Longrightarrow> cursor_only s t \<Longrightarrow> cursor_only r t"
  unfolding cursor_only_def by (elim exE) auto

lemma cursor_only_update:
  "cursor_only r (r\<lparr>r_dechunk_pos := pos, r_dechunk_total := tot\<rparr>)"
  "cursor_only r (r\<lparr>r_dechunk_state := st, r_dechunk_pos := pos\<rparr>)"
  unfolding cursor_only_def
   apply (rule exI [of _ pos], rule exI [of _ tot], rule exI [of _ "r_dechunk_state r"], simp)
  apply (rule exI [of _ pos], rule exI [of _ "r_dechunk_total r"], rule exI [of _ st], simp)
  done

lemma cursor_only_fields:
  assumes "cursor_only r r'"
  shows "r_recv r' = r_recv r" "r_pool r' = r_pool r" "r_body_offset r' = r_body_offset r"
    "r_headers_done r' = r_headers_done r" "r_chunked r' = r_chunked r"
    "r_content_length r' = r_content_length r" "r_status r' = r_status r" "r_headers r' = r_headers r"
    "recv_data r' = recv_data r" "r_done r' = r_done r" "r_calls r' = r_calls r"
  using assms by (auto simp: cursor_only_def recv_data_def)

text \<open>The end of a call in the middle of a trailer line.\<close>

lemma trailers_at_pending:
  assumes at: "trailers_at D r u P out" and none: "memmem P CRLF = None" and "P \<noteq> []"
    and nz: "\<not> (u = [] \<and> P = [c_cr])"
  shows "dechunk_at D (r\<lparr>r_dechunk_state := DECHUNK_TRAILER_NONEMPTY,
           r_dechunk_pos := length D - (if last D = c_cr then 1 else 0)\<rparr>)"
proof -
  let ?r = "r\<lparr>r_dechunk_state := DECHUNK_TRAILER_NONEMPTY,
           r_dechunk_pos := length D - (if last D = c_cr then 1 else 0)\<rparr>"
  from at obtain H E z T where D: "D = H @ E @ z @ CRLF @ T @ u @ P"
    and a: "length H = r_body_offset r" "whole_chunks E out" "crlf_free z" "size_line z = Some 0" "field_lines T"
    and b: "r_dechunk_total r = length out" "sealed u P"
    unfolding trailers_at_def by blast
  have free: "crlf_free (u @ P)" using sealed_memmem [OF b(2)] none by (simp add: crlf_free_def)
  have last: "last D = last (u @ P)" using D \<open>P \<noteq> []\<close> by simp
  show ?thesis
  proof (cases "last D = c_cr")
    case True
    then have "D = H @ E @ z @ CRLF @ T @ butlast (u @ P) @ [c_cr]"
      using D last \<open>P \<noteq> []\<close> append_butlast_last_id [of "u @ P"] by simp
    moreover have "butlast (u @ P) \<noteq> []"
      using True last nz \<open>P \<noteq> []\<close> by (cases P rule: rev_cases) (auto simp: butlast_append)
    moreover have "sealed (butlast (u @ P)) [c_cr]" using sealed_tail [OF free] True last by simp
    ultimately have "trailers_at D ?r (butlast (u @ P)) [c_cr] out"
      unfolding trailers_at_def using a b(1) True
      by (intro conjI exI [of _ H] exI [of _ E] exI [of _ z] exI [of _ T]) simp_all
    then show ?thesis unfolding dechunk_at_def by blast
  next
    case False
    moreover have "sealed (u @ P) []" using sealed_tail [OF free] False last by simp
    ultimately have "trailers_at D ?r (u @ P) [] out"
      unfolding trailers_at_def using a b(1) D \<open>P \<noteq> []\<close>
      by (intro conjI exI [of _ H] exI [of _ E] exI [of _ z] exI [of _ T]) simp_all
    then show ?thesis unfolding dechunk_at_def by blast
  qed
qed

text \<open>The end of a trailer line.\<close>

lemma trailers_at_line:
  assumes at: "trailers_at D r u (l @ CRLF @ x) out" and "crlf_free l" and ne: "u @ l \<noteq> []"
  shows "trailers_at D (r\<lparr>r_dechunk_state := DECHUNK_TRAILER_START,
           r_dechunk_pos := length D - length x\<rparr>) [] x out"
    and "crlf_free (u @ l)"
proof -
  from at obtain H E z T where D: "D = H @ E @ z @ CRLF @ T @ u @ l @ CRLF @ x"
    and a: "length H = r_body_offset r" "whole_chunks E out" "crlf_free z" "size_line z = Some 0" "field_lines T"
    and b: "r_dechunk_total r = length out" "sealed u (l @ CRLF @ x)"
    unfolding trailers_at_def by blast
  have "memmem (u @ l @ CRLF @ x) CRLF = Some (length u + length l)"
    using sealed_memmem [OF b(2)] \<open>crlf_free l\<close> by simp
  then obtain l' x' where "u @ l @ CRLF @ x = l' @ CRLF @ x'" "crlf_free l'" "length u + length l = length l'"
    by (rule memmem_split)
  moreover from this have "u @ l = l'" by (metis append.assoc append_eq_append_conv length_append)
  ultimately show free: "crlf_free (u @ l)" by simp
  have "field_lines (T @ (u @ l) @ CRLF)" using next_field [OF a(5) free ne] .
  then show "trailers_at D (r\<lparr>r_dechunk_state := DECHUNK_TRAILER_START,
           r_dechunk_pos := length D - length x\<rparr>) [] x out"
    unfolding trailers_at_def using a b(1) D
    by (intro conjI exI [of _ H] exI [of _ E] exI [of _ z] exI [of _ "T @ (u @ l) @ CRLF"]) simp_all
qed

definition walk_ok :: "bytes \<Rightarrow> acme_request \<Rightarrow> nat \<Rightarrow> framing \<Rightarrow> walk \<Rightarrow> bool" where
  "walk_ok D r tot f w =
     (case f of
        Complete d \<Rightarrow> (\<exists>r'. w = Validated (tot + length d) r' \<and> cursor_only r r')
      | Incomplete \<Rightarrow> (\<exists>r'. w = Return NGX_AGAIN r' \<and> cursor_only r r' \<and> dechunk_at D r')
      | Malformed \<Rightarrow> (\<exists>r'. w = Return NGX_ERROR r' \<and> cursor_only r r'))"

lemma walk_ok_trans:
  "walk_ok D s tot f w \<Longrightarrow> cursor_only r s \<Longrightarrow> walk_ok D r tot f w"
  unfolding walk_ok_def by (cases f) (auto intro: cursor_only_trans)

lemma trailers_loop_correct:
  "trailers_at D r u P out \<Longrightarrow> walk_ok D r tot (trailer_spec (u @ P)) (trailers_loop D P tot r)"
proof (induction D P tot r arbitrary: u rule: trailers_loop.induct)
  case (1 D P tot r)
  note at = 1(2)
  have seal: "sealed u P" and st: "r_dechunk_state r = DECHUNK_TRAILER_START \<longleftrightarrow> u = []"
    using at by (auto simp: trailers_at_def)
  show ?case
  proof (cases "memmem P CRLF")
    case None
    then have "trailer_spec (u @ P) = Incomplete"
      using sealed_memmem [OF seal] by (simp add: trailer_spec.simps)
    moreover have "dechunk_at D r" using at unfolding dechunk_at_def by blast
    moreover have one: "P = [c_cr] \<longleftrightarrow> length P = 1 \<and> P ! 0 = c_cr" by (cases P) auto
    ultimately show ?thesis
      using None trailers_at_pending [OF at None] cursor_only_update(2)
      by (subst trailers_loop.simps) (auto simp: walk_ok_def st simp flip: one)
  next
    case (Some i)
    then obtain l x where P: "P = l @ CRLF @ x" "crlf_free l" "i = length l" by (rule memmem_split)
    show ?thesis
    proof (cases "u @ l = []")
      case True
      then have "trailer_spec (u @ P) = Complete []" using P trailer_spec_line [of "[]" x] by simp
      with True P st show ?thesis
        by (subst trailers_loop.simps) (simp add: walk_ok_def)
    next
      case False
      let ?r = "r\<lparr>r_dechunk_state := DECHUNK_TRAILER_START, r_dechunk_pos := length D - length x\<rparr>"
      note next_line = trailers_at_line [OF at [unfolded P(1)] P(2) False]
      have go: "\<not> (r_dechunk_state r = DECHUNK_TRAILER_START \<and> i = 0)" using False st P by auto
      have "walk_ok D ?r tot (trailer_spec ([] @ x)) (trailers_loop D x tot ?r)"
        using 1(1) [OF Some go refl, of "[]"] next_line(1) P by simp
      moreover have "trailer_spec (u @ P) = trailer_spec x"
        using trailer_spec_line [OF next_line(2), of x] False P by (auto split: if_splits)
      moreover have "trailers_loop D P tot r = trailers_loop D x tot ?r"
        using go P by (subst trailers_loop.simps) auto
      ultimately show ?thesis using walk_ok_trans [OF _ cursor_only_update(2)] by simp
    qed
  qed
qed

lemma walk_ok_prepend:
  "walk_ok D r (tot + length d) f w \<Longrightarrow> walk_ok D r tot (prepend d f) w"
  by (cases f) (auto simp: walk_ok_def add.assoc)

lemma chunks_at_next:
  assumes "chunks_at D r (l @ CRLF @ d @ CRLF @ x) out" "crlf_free l" "size_line l = Some (length d)" "d \<noteq> []"
  shows "chunks_at D (r\<lparr>r_dechunk_pos := length D - length x, r_dechunk_total := length out + length d\<rparr>) x (out @ d)"
proof -
  from assms(1) obtain H E where D: "D = H @ E @ l @ CRLF @ d @ CRLF @ x" "length H = r_body_offset r"
    and st: "r_dechunk_state r = DECHUNK_CHUNKS" and E: "whole_chunks E out"
    unfolding chunks_at_def by blast
  have "whole_chunks (E @ l @ CRLF @ d @ CRLF) (out @ d)" using next_chunk [OF E assms(2-4)] .
  with D st show ?thesis
    unfolding chunks_at_def
    by (intro conjI exI [of _ H] exI [of _ "E @ l @ CRLF @ d @ CRLF"]) simp_all
qed

lemma chunks_at_last:
  assumes "chunks_at D r (l @ CRLF @ x) out" "crlf_free l" "size_line l = Some 0"
  shows "trailers_at D (r\<lparr>r_dechunk_state := DECHUNK_TRAILER_START, r_dechunk_pos := length D - length x\<rparr>) [] x out"
proof -
  from assms(1) obtain H E where "D = H @ E @ l @ CRLF @ x" "length H = r_body_offset r"
    "whole_chunks E out" "r_dechunk_total r = length out"
    unfolding chunks_at_def by blast
  with assms(2,3) show ?thesis
    unfolding trailers_at_def
    by (intro conjI exI [of _ H] exI [of _ E] exI [of _ l] exI [of _ "[]"]) (simp_all add: no_fields)
qed

lemma chunks_loop_correct:
  "chunks_at D r P out \<Longrightarrow> tot = length out \<Longrightarrow> walk_ok D r tot (chunked_spec P) (chunks_loop D P tot r)"
proof (induction D P tot r arbitrary: out rule: chunks_loop.induct)
  case (1 D P tot r)
  note at = 1(2) and tot = 1(3)
  have here: "dechunk_at D r" using at unfolding dechunk_at_def by blast
  show ?case
  proof (cases "memmem P CRLF")
    case None
    with here show ?thesis
      by (subst chunks_loop.simps, subst chunked_spec.simps) (simp add: walk_ok_def)
  next
    case (Some i)
    then obtain l y where P: "P = l @ CRLF @ y" "crlf_free l" "i = length l" by (rule memmem_split)
    show ?thesis
    proof (cases "chunk_size l")
      case None
      with P show ?thesis
        using chunk_size_None [of l]
        by (subst chunks_loop.simps, subst chunked_spec.simps) (simp add: walk_ok_def)
    next
      case (Some sz)
      note sz = chunk_size_Some [OF Some]
      show ?thesis
      proof (cases "sz = 0")
        case True
        let ?r = "r\<lparr>r_dechunk_state := DECHUNK_TRAILER_START, r_dechunk_pos := length D - length y\<rparr>"
        have "trailers_at D ?r [] y out" using chunks_at_last [OF at [unfolded P(1)] P(2)] sz True by simp
        from trailers_loop_correct [OF this, of tot]
        have "walk_ok D r tot (trailer_spec y) (trailers_loop D y tot ?r)"
          using walk_ok_trans [OF _ cursor_only_update(2)] by simp
        moreover have "chunked_spec P = trailer_spec y" using chunked_spec_last [OF P(2)] sz True P by simp
        moreover have "chunks_loop D P tot r = trailers_loop D y tot ?r"
          using P Some True by (subst chunks_loop.simps) simp
        ultimately show ?thesis by simp
      next
        case False
        then have "unat sz \<noteq> 0" by (simp add: unat_eq_0)
        show ?thesis
        proof (cases "length y < unat sz + 2 \<or> take 2 (drop (unat sz) y) \<noteq> CRLF")
          case True
          then show ?thesis
            using P Some False sz here \<open>unat sz \<noteq> 0\<close>
            by (subst chunks_loop.simps, subst chunked_spec.simps) (auto simp: walk_ok_def memcmp_zero)
        next
          case ok: False
          define d x where "d = take (unat sz) y" and "x = drop (unat sz + 2) y"
          have y: "y = d @ CRLF @ x"
            using ok unfolding d_def x_def by (metis add.commute append_take_drop_id drop_drop)
          have d: "length d = unat sz" "d \<noteq> []" using ok \<open>unat sz \<noteq> 0\<close> by (auto simp: d_def)
          let ?r = "r\<lparr>r_dechunk_pos := length D - length x, r_dechunk_total := tot + length d\<rparr>"
          have "chunks_at D ?r x (out @ d)"
            using chunks_at_next [of D r l d x out] at P y sz d tot by simp
          moreover have "chunks_loop D P tot r = chunks_loop D x (tot + length d) ?r"
            using P Some False y d by (subst chunks_loop.simps) (simp add: Let_def)
          moreover have "chunked_spec P = prepend d (chunked_spec x)"
            using chunked_spec_chunk [OF P(2), of d x] sz d y P by simp
          ultimately have at': "chunks_at D ?r x (out @ d)"
            and loop: "chunks_loop D P tot r = chunks_loop D x (tot + length d) ?r"
            and spec: "chunked_spec P = prepend d (chunked_spec x)" .
          have "walk_ok D ?r (tot + length d) (chunked_spec x) (chunks_loop D x (tot + length d) ?r)"
          proof -
            have e: "chunk_size (take i P) = Some sz" "y = drop (i + length CRLF) P" "x = drop (length CRLF) (CRLF @ x)"
              "CRLF @ x = drop (unat sz) y" "\<not> memcmp (take (length CRLF) (CRLF @ x)) CRLF \<noteq> 0"
              "\<not> (length y < length CRLF \<or> unat sz > length y - length CRLF)" "tot + length d = tot + unat sz"
              using Some P d y by simp_all
            have "tot + length d = length (out @ d)" by (simp only: tot length_append)
            then show ?thesis
              by (rule 1(1) [OF \<open>memmem P CRLF = Some i\<close> e(1) e(2) False e(6) e(7) e(4) e(5) e(3) at'])
          qed
          then have "walk_ok D r (tot + length d) (chunked_spec x) (chunks_loop D x (tot + length d) ?r)"
            by (rule walk_ok_trans) (rule cursor_only_update(1))
          then show ?thesis unfolding loop spec by (rule walk_ok_prepend)
        qed
      qed
    qed
  qed
qed

section \<open>The decoder\<close>

lemma copy_loop_correct:
  "chunked_body m d \<Longrightarrow> length out + length d \<le> cap \<Longrightarrow> copy_loop cap (m @ x) out = Some (Some (out @ d))"
proof (induction arbitrary: out rule: chunked_body.induct)
  case (last_chunk l t)
  then obtain sz where "chunk_size l = Some sz" "unat sz = 0" using size_line_chunk_size by blast
  with last_chunk show ?case by (subst copy_loop.simps) (simp add: unat_eq_0)
next
  case (chunk l d m ds)
  then obtain sz where sz: "chunk_size l = Some sz" "unat sz = length d" using size_line_chunk_size by blast
  then have "sz \<noteq> 0" using chunk by auto
  with sz chunk show ?case by (subst copy_loop.simps) simp
qed

text \<open>The state in which a request enters the decoder.\<close>

definition dechunk_ready :: "acme_request \<Rightarrow> bool" where
  "dechunk_ready r \<longleftrightarrow>
     0 < r_body_offset r \<and> r_body_offset r \<le> length (recv_data r)
     \<and> (r_dechunk_pos r = 0 \<and> r_dechunk_state r = DECHUNK_CHUNKS \<or> dechunk_at (recv_data r) r)"

text \<open>
  One call of the decoder: it answers what the grammar says of the whole body received so
  far, whatever part of it earlier calls have already walked over.
\<close>

definition dechunk_ok :: "acme_request \<Rightarrow> framing \<Rightarrow> (ngx_rc \<times> acme_request) option \<Rightarrow> bool" where
  "dechunk_ok r f res =
     (case f of
        Incomplete \<Rightarrow> (\<exists>r'. res = Some (NGX_AGAIN, r') \<and> cursor_only r r' \<and> dechunk_at (recv_data r) r')
      | Malformed \<Rightarrow> (\<exists>r'. res = Some (NGX_ERROR, r') \<and> cursor_only r r')
      | Complete d \<Rightarrow>
          (\<exists>r'. cursor_only r r' \<and>
             res = (case alloc_next (r_pool r) of
                      (False, pool) \<Rightarrow> Some (NGX_ERROR, r'\<lparr>r_pool := pool\<rparr>)
                    | (True, pool) \<Rightarrow> Some (NGX_DONE, r'\<lparr>r_pool := pool, r_body_out := d\<rparr>))))"

lemma dechunk_correct:
  assumes "dechunk_ready r"
  shows "dechunk_ok r (chunked_spec (drop (r_body_offset r) (recv_data r))) (dechunk r)"
proof -
  define D where "D = recv_data r"
  define r1 where "r1 = (if r_dechunk_pos r = 0
      then r\<lparr>r_dechunk_pos := r_body_offset r, r_dechunk_total := 0\<rparr> else r)"
  define w where "w = (if r_dechunk_state r1 \<noteq> DECHUNK_CHUNKS
      then trailers_loop D (drop (r_dechunk_pos r1) D) (r_dechunk_total r1) r1
      else chunks_loop D (drop (r_dechunk_pos r1) D) (r_dechunk_total r1) r1)"
  have sub: "cursor_only r r1" unfolding r1_def using cursor_only_update(1) by simp
  have off: "r_body_offset r1 = r_body_offset r" using cursor_only_fields [OF sub] by simp
  have "dechunk_at D r1"
  proof (cases "r_dechunk_pos r = 0")
    case True
    have "r_dechunk_state r = DECHUNK_CHUNKS"
    proof (rule ccontr)
      assume n: "r_dechunk_state r \<noteq> DECHUNK_CHUNKS"
      with assms obtain u P out where "trailers_at D r u P out"
        unfolding dechunk_ready_def dechunk_at_def chunks_at_def D_def by blast
      with True have "length D = length P" "r_body_offset r \<le> length D - length P - 2"
        by (auto simp: trailers_at_def)
      then show False using assms by (simp add: dechunk_ready_def)
    qed
    with True assms have "chunks_at D r1 (drop (r_body_offset r) D) []"
      unfolding chunks_at_def dechunk_ready_def r1_def D_def
      by (intro conjI exI [of _ "take (r_body_offset r) (recv_data r)"] exI [of _ "[]"]) (simp_all add: no_chunks)
    then show ?thesis unfolding dechunk_at_def by blast
  next
    case False
    with assms show ?thesis by (simp add: dechunk_ready_def r1_def D_def)
  qed
  then have "\<exists>out f. walk_ok D r1 (length out) f w \<and> prepend out f = chunked_spec (drop (r_body_offset r) D)"
    unfolding dechunk_at_def
  proof (elim disjE exE)
    fix P out
    assume at: "chunks_at D r1 P out"
    then have "walk_ok D r1 (length out) (chunked_spec P) w"
      unfolding w_def using chunks_loop_correct [OF at refl] at_pos(1) [OF at] by (simp add: chunks_at_def)
    then show ?thesis using chunks_at_spec [OF at] off by metis
  next
    fix u P out
    assume at: "trailers_at D r1 u P out"
    then have "r_dechunk_state r1 \<noteq> DECHUNK_CHUNKS" "r_dechunk_total r1 = length out"
      by (simp_all add: trailers_at_def)
    then have "walk_ok D r1 (length out) (trailer_spec (u @ P)) w"
      unfolding w_def using trailers_loop_correct [OF at] at_pos(2) [OF at] by simp
    then show ?thesis using trailers_at_spec [OF at] off by metis
  qed
  then have w: "walk_ok D r1 0 (chunked_spec (drop (r_body_offset r) D)) w"
    using walk_ok_prepend [of D r1 0] by force
  have dech: "dechunk r = (case w of Return rc r' \<Rightarrow> Some (rc, r')
      | Validated tot' r' \<Rightarrow> dechunk_copy D tot' r')"
    unfolding dechunk_def Let_def w_def r1_def D_def ..
  show ?thesis
  proof (cases "chunked_spec (drop (r_body_offset r) D)")
    case Incomplete
    with w dech show ?thesis
      using cursor_only_trans [OF sub] by (auto simp: walk_ok_def dechunk_ok_def D_def)
  next
    case Malformed
    with w dech show ?thesis
      using cursor_only_trans [OF sub] by (auto simp: walk_ok_def dechunk_ok_def D_def)
  next
    case (Complete d)
    with w obtain r' where r': "w = Validated (length d) r'" "cursor_only r1 r'"
      by (auto simp: walk_ok_def)
    from Complete obtain m x where m: "drop (r_body_offset r) D = m @ x" "chunked_body m d"
      using chunked_spec_body by blast
    have "copy_loop (if length d \<noteq> 0 then length d else 1) (m @ x) [] = Some (Some d)"
      using copy_loop_correct [OF m(2), of "[]" _ x] by simp
    then have copy: "copy_loop (if length d \<noteq> 0 then length d else 1) (drop (r_body_offset r') D) [] = Some (Some d)"
      using m(1) cursor_only_fields(3) [OF r'(2)] cursor_only_fields(3) [OF sub] by simp
    have pool: "r_pool r' = r_pool r"
      using cursor_only_fields(2) [OF r'(2)] cursor_only_fields(2) [OF sub] by simp
    have "dechunk r = (case alloc_next (r_pool r) of
        (False, pool) \<Rightarrow> Some (NGX_ERROR, r'\<lparr>r_pool := pool\<rparr>)
      | (True, pool) \<Rightarrow> Some (NGX_DONE, r'\<lparr>r_pool := pool, r_body_out := d\<rparr>))"
      unfolding dech r'(1) walk.case dechunk_copy_def copy pool option.case ..
    with Complete show ?thesis
      using cursor_only_trans [OF sub r'(2)] unfolding dechunk_ok_def D_def by auto
  qed
qed

end
