(* ===== verification/Acme_Response.thy ===== *)
theory Acme_Response
  imports Acme_Dechunk
begin

text \<open>
  The incremental response parser: however a response is split into reads, the outcome is
  that of the whole response in one piece.
\<close>

section \<open>Stability of the framing under more bytes\<close>

lemma trailer_spec_stable: "trailer_spec p \<noteq> Incomplete \<Longrightarrow> trailer_spec (p @ y) = trailer_spec p"
proof (cases "trailer_spec p")
  case (Complete d)
  from trailer_spec_part [OF this] obtain t x where "d = []" "p = t @ x" "trailer_part t" by blast
  then show ?thesis using trailer_part_spec [of t "x @ y"] Complete by simp
next
  case Malformed
  moreover have "trailer_spec p \<noteq> Malformed" for p
    by (induction p rule: trailer_spec.induct) (subst trailer_spec.simps, simp split: option.splits)
  ultimately show ?thesis by blast
qed simp

lemma chunked_spec_stable: "chunked_spec p \<noteq> Incomplete \<Longrightarrow> chunked_spec (p @ y) = chunked_spec p"
proof (induction p rule: chunked_spec.induct)
  case (1 p)
  then obtain i where i: "memmem p CRLF = Some i"
    by (cases "memmem p CRLF") (simp_all add: chunked_spec.simps [of p])
  then obtain l x where p: "p = l @ CRLF @ x" "crlf_free l" "i = length l" by (rule memmem_split)
  note eqs = chunked_spec.simps [of "l @ CRLF @ x"] chunked_spec.simps [of "l @ CRLF @ x @ y"]
  show ?case
  proof (cases "size_line l")
    case None
    with p show ?thesis by (simp add: eqs)
  next
    case (Some n)
    show ?thesis
    proof (cases "n = 0")
      case True
      with Some p 1(2) show ?thesis by (simp add: chunked_spec_last trailer_spec_stable)
    next
      case False
      with Some p 1(2) have len: "\<not> length x < n + 2" by (auto simp: eqs(1))
      show ?thesis
      proof (cases "take 2 (drop n x) = CRLF")
        case True
        have "chunked_spec (drop (n + 2) x) \<noteq> Incomplete"
          using Some p 1(2) False len True by (auto simp: eqs(1))
        then have "chunked_spec (drop (n + 2) x @ y) = chunked_spec (drop (n + 2) x)"
          using 1(1) [OF i, of n "drop (i + 2) p"] Some p False len True by simp
        with Some p False len True show ?thesis by (simp add: eqs)
      next
        case bad: False
        with Some p False len show ?thesis by (simp add: eqs)
      qed
    qed
  qed
qed

section \<open>Headers\<close>

text \<open>The header parser looks at the bytes up to the end of the headers only.\<close>

lemma strncmp_eq_append: "n \<le> length D \<Longrightarrow> strncmp_eq (D @ y) s n = strncmp_eq D s n"
  by (induction D s n rule: strncmp_eq.induct) (auto elim: strncmp_eq.elims)

lemma parse_headers_append:
  assumes "h \<le> length D"
  shows "parse_headers (D @ y) h r = parse_headers D h r"
proof -
  have "status_line_ok (D @ y) eol = status_line_ok D eol"
      "take 3 (drop 9 (D @ y)) = take 3 (drop 9 D)"
    if "memmem (take h D) CRLF = Some eol" "12 \<le> eol" for eol
  proof -
    have "14 \<le> length D" using memmem_le [OF that(1)] that(2) assms by simp
    then have l: "8 < length D" "9 + 3 \<le> length D" by simp_all
    from l show "status_line_ok (D @ y) eol = status_line_ok D eol"
      by (simp add: status_line_ok_def nth_append strncmp_eq_append)
    from l show "take 3 (drop 9 (D @ y)) = take 3 (drop 9 D)" by simp
  qed
  moreover have "\<not> status_line_ok b eol" if "\<not> 12 \<le> eol" for b eol
    using that by (simp add: status_line_ok_def)
  ultimately have "status_line_ok (D @ y) eol = status_line_ok D eol"
    "status_line_ok D eol \<Longrightarrow> take 3 (drop 9 (D @ y)) = take 3 (drop 9 D)"
    if "memmem (take h D) CRLF = Some eol" for eol
    using that by blast+
  note head = this
  have "take h (D @ y) = take h D" "take (h - length CRLF) (D @ y) = take (h - length CRLF) D"
    using assms by simp_all
  note pre = this
  show ?thesis
  proof (cases "memmem (take h D) CRLF")
    case None
    then show ?thesis unfolding parse_headers_def Let_def pre by simp
  next
    case (Some eol)
    show ?thesis
    proof (cases "status_line_ok D eol")
      case True
      then have "status_line_ok (D @ y) eol" "take 3 (drop 9 (D @ y)) = take 3 (drop 9 D)"
        using head [OF Some] by blast+
      with True show ?thesis unfolding parse_headers_def Let_def pre Some option.case by (simp only: if_False)
    next
      case False
      then have "\<not> status_line_ok (D @ y) eol" using head(1) [OF Some] by blast
      with False show ?thesis unfolding parse_headers_def Let_def pre Some option.case by (simp only: if_True not_False_eq_True)
    qed
  qed
qed

text \<open>It does not look at the receive buffer, the cursor of the header search or the timer either.\<close>

abbreviation upd :: "buf option \<Rightarrow> nat \<Rightarrow> u64 option \<Rightarrow> acme_request \<Rightarrow> acme_request" where
  "upd x s t r \<equiv> r\<lparr>r_recv := x, r_hdr_scan_pos := s, r_read_timer := t\<rparr>"

abbreviation upd_as :: "acme_request \<Rightarrow> acme_request \<Rightarrow> acme_request" where
  "upd_as r r0 \<equiv> upd (r_recv r) (r_hdr_scan_pos r) (r_read_timer r) r0"

lemma capture_header_upd: "capture_header line (upd x s t r) = apsnd (upd x s t) (capture_header line r)"
  by (auto simp: capture_header_def Let_def split: option.splits prod.splits)

lemma interpret_header_upd: "interpret_header line (upd x s t r) = apsnd (upd x s t) (interpret_header line r)"
  by (simp add: interpret_header_def Let_def split: option.splits)

lemma headers_loop_upd: "headers_loop lines (upd x s t r) = apsnd (upd x s t) (headers_loop lines r)"
proof (induction lines r rule: headers_loop.induct)
  case (1 lines r)
  show ?case
  proof (cases "lines = []")
    case True
    then show ?thesis by (simp add: headers_loop.simps)
  next
    case False
    define eol where "eol = (case memmem lines CRLF of None \<Rightarrow> length lines | Some e \<Rightarrow> e)"
    obtain rc1 r1 where c: "capture_header (take eol lines) r = (rc1, r1)" by fastforce
    obtain rc2 r2 where i: "interpret_header (take eol lines) r1 = (rc2, r2)" by fastforce
    have IH: "rc1 = NGX_OK \<Longrightarrow> rc2 = NGX_OK \<Longrightarrow>
        headers_loop (drop (eol + length CRLF) lines) (upd x s t r2)
          = apsnd (upd x s t) (headers_loop (drop (eol + length CRLF) lines) r2)"
      using 1 [OF False eol_def refl c [symmetric] _ i [symmetric]] c i by simp
    show ?thesis
      using False IH
      by (subst (1 2) headers_loop.simps)
        (simp add: Let_def capture_header_upd interpret_header_upd c i flip: eol_def split: ngx_rc.splits)
  qed
qed

lemma parse_fields_upd: "parse_fields lines (upd x s t r) = apsnd (upd x s t) (parse_fields lines r)"
proof -
  have "headers_loop lines (r\<lparr>r_recv := x, r_hdr_scan_pos := s, r_read_timer := t, r_pool := p, r_headers := hs\<rparr>)
      = apsnd (upd x s t) (headers_loop lines (r\<lparr>r_pool := p, r_headers := hs\<rparr>))" for p hs
    using headers_loop_upd [where x = x and s = s and t = t and r = "r\<lparr>r_pool := p, r_headers := hs\<rparr>" and lines = lines]
    by (cases r) simp
  then show ?thesis
    by (auto simp: parse_fields_def split: prod.splits bool.splits ngx_rc.splits)
qed

lemma parse_headers_upd: "parse_headers D h (upd x s t r) = apsnd (upd x s t) (parse_headers D h r)"
proof -
  have "parse_fields lines (r\<lparr>r_recv := x, r_hdr_scan_pos := s, r_read_timer := t, r_body_offset := h, r_status := c\<rparr>)
      = apsnd (upd x s t) (parse_fields lines (r\<lparr>r_body_offset := h, r_status := c\<rparr>))" for lines c
    using parse_fields_upd [where x = x and s = s and t = t and r = "r\<lparr>r_body_offset := h, r_status := c\<rparr>" and lines = lines]
    by (cases r) simp
  then show ?thesis
    unfolding parse_headers_def Let_def by (simp split: option.splits)
qed

text \<open>What the header parser changes of the request.\<close>

definition fields_only :: "acme_request \<Rightarrow> acme_request \<Rightarrow> bool" where
  "fields_only r r' \<longleftrightarrow>
     (\<exists>p hs cl ch. r' = r\<lparr>r_pool := p, r_headers := hs, r_content_length := cl, r_chunked := ch\<rparr>)
     \<and> (r_pool r = [] \<longrightarrow> r_pool r' = [])"

lemma fields_onlyI:
  "r' = r\<lparr>r_pool := p, r_headers := hs, r_content_length := cl, r_chunked := ch\<rparr> \<Longrightarrow>
   (r_pool r = [] \<Longrightarrow> p = []) \<Longrightarrow> fields_only r r'"
  unfolding fields_only_def by (intro conjI exI [of _ p] exI [of _ hs] exI [of _ cl] exI [of _ ch]) auto

lemma fields_only_trans: "fields_only r s \<Longrightarrow> fields_only s t \<Longrightarrow> fields_only r t"
  unfolding fields_only_def by (elim conjE exE) (cases r, auto)

lemma fields_only_fields:
  assumes "fields_only r r'"
  shows "r_recv r' = r_recv r" "r_body_offset r' = r_body_offset r" "r_status r' = r_status r"
    "r_dechunk_pos r' = r_dechunk_pos r" "r_dechunk_state r' = r_dechunk_state r"
    "r_headers_done r' = r_headers_done r" "r_pool r = [] \<Longrightarrow> r_pool r' = []"
    "r_done r' = r_done r" "r_calls r' = r_calls r" "r_hdr_scan_pos r' = r_hdr_scan_pos r"
  using assms by (auto simp: fields_only_def)

lemma fields_only_refl [simp]: "fields_only r r"
  by (rule fields_onlyI [where p = "r_pool r" and hs = "r_headers r" and cl = "r_content_length r" and ch = "r_chunked r"]) auto

lemma capture_header_fields: "fields_only r (snd (capture_header line r))"
proof (cases "memmem line [c_colon]")
  case (Some colon)
  obtain ok1 p1 ok2 p2 ok3 p3 where a: "alloc_next (r_pool r) = (ok1, p1)" "alloc_next p1 = (ok2, p2)"
      "alloc_next p2 = (ok3, p3)" by (metis surj_pair)
  show ?thesis
    by (rule fields_onlyI [where p = "r_pool (snd (capture_header line r))"
          and hs = "r_headers (snd (capture_header line r))" and cl = "r_content_length r" and ch = "r_chunked r"])
      (use a Some in \<open>auto simp: capture_header_def Let_def\<close>)
qed (simp add: capture_header_def)

lemma interpret_header_fields: "fields_only r (snd (interpret_header line r))"
  by (rule fields_onlyI [where p = "r_pool r" and hs = "r_headers r"
        and cl = "r_content_length (snd (interpret_header line r))" and ch = "r_chunked (snd (interpret_header line r))"])
    (auto simp: interpret_header_def Let_def split: option.splits)

lemma headers_loop_fields: "fields_only r (snd (headers_loop lines r))"
proof (induction lines r rule: headers_loop.induct)
  case (1 lines r)
  show ?case
  proof (cases "lines = []")
    case True
    then show ?thesis by (simp add: headers_loop.simps)
  next
    case False
    define eol where "eol = (case memmem lines CRLF of None \<Rightarrow> length lines | Some e \<Rightarrow> e)"
    obtain rc1 r1 where c: "capture_header (take eol lines) r = (rc1, r1)" by fastforce
    obtain rc2 r2 where i: "interpret_header (take eol lines) r1 = (rc2, r2)" by fastforce
    have f1: "fields_only r r1" using capture_header_fields [of r "take eol lines"] c by simp
    have f2: "fields_only r r2"
      using fields_only_trans [OF f1] interpret_header_fields [of r1 "take eol lines"] i by simp
    have "fields_only r2 (snd (headers_loop (drop (eol + length CRLF) lines) r2))"
      if "rc1 = NGX_OK" "rc2 = NGX_OK"
      using 1 [OF False eol_def refl c [symmetric] _ i [symmetric]] that by simp
    from fields_only_trans [OF f2 this] f1 f2 False show ?thesis
      by (subst headers_loop.simps) (simp add: Let_def c i flip: eol_def split: ngx_rc.splits)
  qed
qed

lemma parse_fields_OK:
  assumes "parse_fields lines r = (NGX_OK, r')"
  obtains s where "fields_only r s" "r' = s\<lparr>r_headers_done := True\<rparr>" "\<not> (r_chunked s \<and> r_content_length s \<ge> 0)"
proof -
  obtain pool where a: "alloc_next (r_pool r) = (True, pool)"
    using assms by (auto simp: parse_fields_def split: prod.splits bool.splits)
  let ?r = "r\<lparr>r_pool := pool, r_headers := Some []\<rparr>"
  obtain s where s: "headers_loop lines ?r = (NGX_OK, s)" "r' = s\<lparr>r_headers_done := True\<rparr>"
      "\<not> (r_chunked s \<and> r_content_length s \<ge> 0)"
    using assms a by (auto simp: parse_fields_def split: prod.splits ngx_rc.splits if_splits)
  have "fields_only r ?r"
    by (rule fields_onlyI [where p = pool and hs = "Some []" and cl = "r_content_length r" and ch = "r_chunked r"]) (use a in auto)
  moreover have "fields_only ?r s" using headers_loop_fields [of ?r lines] s by simp
  ultimately show thesis using that s fields_only_trans by blast
qed

lemma parse_headers_OK:
  assumes "parse_headers D h r = (NGX_OK, r')"
  obtains c s where "fields_only (r\<lparr>r_body_offset := h, r_status := c\<rparr>) s"
    "r' = s\<lparr>r_headers_done := True\<rparr>" "\<not> (r_chunked s \<and> r_content_length s \<ge> 0)" "100 \<le> c" "c \<le> 599"
proof -
  from assms obtain lines code where
    f: "parse_fields lines (r\<lparr>r_body_offset := h, r_status := nat code\<rparr>) = (NGX_OK, r')" "\<not> code < 100" "\<not> 599 < code"
    by (auto simp: parse_headers_def Let_def split: option.splits if_splits)
  then have "100 \<le> nat code" "nat code \<le> 599" by auto
  with f show thesis using parse_fields_OK that by blast
qed

section \<open>Any split of the response gives the same outcome\<close>

datatype outcome = Partial | Bad | Full nat "(bytes \<times> bytes) list option" bytes

definition body_spec :: "acme_request \<Rightarrow> bytes \<Rightarrow> outcome" where
  "body_spec rh B =
     (if r_chunked rh then
        (case chunked_spec B of
           Incomplete \<Rightarrow> Partial
         | Malformed \<Rightarrow> Bad
         | Complete d \<Rightarrow> Full (r_status rh) (r_headers rh) d)
      else if r_content_length rh \<ge> 0 \<and> length B \<ge> nat (r_content_length rh)
      then Full (r_status rh) (r_headers rh) (take (nat (r_content_length rh)) B)
      else Partial)"

definition response_spec :: "acme_request \<Rightarrow> bytes \<Rightarrow> outcome" where
  "response_spec r0 D =
     (case memmem D (CRLF @ CRLF) of
        None \<Rightarrow> Partial
      | Some h \<Rightarrow>
          (case parse_headers D (h + 4) r0 of
             (NGX_OK, rh) \<Rightarrow> body_spec rh (drop (h + 4) D)
           | _ \<Rightarrow> Bad))"

lemma response_spec_stable:
  assumes "response_spec r0 D \<noteq> Partial"
  shows "response_spec r0 (D @ y) = response_spec r0 D"
proof -
  obtain h where h: "memmem D (CRLF @ CRLF) = Some h"
    using assms by (cases "memmem D (CRLF @ CRLF)") (simp_all add: response_spec_def)
  then have le: "h + 4 \<le> length D" using memmem_le by fastforce
  have "body_spec rh (B @ y) = body_spec rh B" if "body_spec rh B \<noteq> Partial" for rh B
  proof (cases "r_chunked rh")
    case True
    with that have "chunked_spec B \<noteq> Incomplete" by (auto simp: body_spec_def)
    with True show ?thesis by (simp add: body_spec_def chunked_spec_stable)
  next
    case False
    with that show ?thesis by (auto simp: body_spec_def split: if_splits)
  qed
  with assms h le show ?thesis
    by (auto simp: response_spec_def memmem_append_stable parse_headers_append split: prod.splits ngx_rc.splits)
qed

text \<open>
  A request that is about to read its response, and the states between two reads: before
  the end of the headers only the cursor of the search has moved; after it the fields are
  those of the header parser and the decoder is ready to go on.
\<close>

definition fresh :: "acme_request \<Rightarrow> bool" where
  "fresh r \<longleftrightarrow>
     \<not> r_headers_done r \<and> r_hdr_scan_pos r = 0 \<and> r_dechunk_pos r = 0
     \<and> r_dechunk_state r = DECHUNK_CHUNKS \<and> \<not> r_chunked r \<and> r_content_length r = -1 \<and> r_pool r = []"

definition scanning :: "acme_request \<Rightarrow> acme_request \<Rightarrow> bool" where
  "scanning r0 r \<longleftrightarrow>
     r = upd_as r r0 \<and> r_hdr_scan_pos r \<le> length (recv_data r)
     \<and> (\<forall>j. j + 4 \<le> r_hdr_scan_pos r \<longrightarrow> \<not> occurs_at (recv_data r) (CRLF @ CRLF) j)"

definition reading_body :: "acme_request \<Rightarrow> acme_request \<Rightarrow> bool" where
  "reading_body r0 r \<longleftrightarrow>
     (\<exists>h rh. memmem (recv_data r) (CRLF @ CRLF) = Some h
        \<and> parse_headers (recv_data r) (h + 4) r0 = (NGX_OK, rh)
        \<and> cursor_only (upd_as r rh) r)
     \<and> (r_chunked r \<longrightarrow> dechunk_ready r)"

definition between :: "acme_request \<Rightarrow> acme_request \<Rightarrow> bool" where
  "between r0 r \<longleftrightarrow> scanning r0 r \<or> reading_body r0 r"

text \<open>The part of the request that belongs to the connection, which no parser touches.\<close>

definition keeps :: "acme_request \<Rightarrow> acme_request \<Rightarrow> bool" where
  "keeps r r' \<longleftrightarrow>
     r_recv r' = r_recv r \<and> r_done r' = r_done r \<and> r_calls r' = r_calls r
     \<and> r_read_deadline r' = r_read_deadline r \<and> r_read_timer r' = r_read_timer r
     \<and> r_connection r' = r_connection r \<and> r_resolve r' = r_resolve r \<and> r_inflight r' = r_inflight r
     \<and> r_send r' = r_send r \<and> r_sent r' = r_sent r \<and> r_phase r' = r_phase r \<and> r_host_is_ip r' = r_host_is_ip r
     \<and> r_port r' = r_port r \<and> r_body r' = r_body r"

lemma keeps_refl [simp]: "keeps r r" and keeps_trans: "keeps r s \<Longrightarrow> keeps s t \<Longrightarrow> keeps r t"
  by (simp_all add: keeps_def)

lemma keeps_cursor: "cursor_only r r' \<Longrightarrow> keeps r r'"
  by (auto simp: cursor_only_def keeps_def)

lemma keeps_fields: "fields_only r r' \<Longrightarrow> keeps r r'"
  by (auto simp: fields_only_def keeps_def)

lemma keeps_updates:
  "keeps r r' \<Longrightarrow> keeps r (r'\<lparr>r_pool := p\<rparr>)" "keeps r r' \<Longrightarrow> keeps r (r'\<lparr>r_body_out := d\<rparr>)"
  "keeps r r' \<Longrightarrow> keeps r (r'\<lparr>r_hdr_scan_pos := n\<rparr>)" "keeps r r' \<Longrightarrow> keeps r (r'\<lparr>r_headers_done := b\<rparr>)"
  "keeps r r' \<Longrightarrow> keeps r (r'\<lparr>r_body_offset := n\<rparr>)" "keeps r r' \<Longrightarrow> keeps r (r'\<lparr>r_status := n\<rparr>)"
  "keeps r r' \<Longrightarrow> keeps r (r'\<lparr>r_headers := hs\<rparr>)"
  by (simp_all add: keeps_def)

lemma keeps_parse_fields: "keeps r (snd (parse_fields lines r))"
proof -
  obtain ok pool where a: "alloc_next (r_pool r) = (ok, pool)" by fastforce
  let ?r = "r\<lparr>r_pool := pool, r_headers := Some []\<rparr>"
  obtain rc s where s: "headers_loop lines ?r = (rc, s)" by fastforce
  have "keeps r s" using keeps_fields [OF headers_loop_fields [of ?r lines]] s by (simp add: keeps_def)
  with a s show ?thesis
    by (cases ok; cases rc) (simp_all add: parse_fields_def keeps_updates)
qed

lemma keeps_parse_headers: "keeps r (snd (parse_headers D h r))"
proof -
  have "keeps r (snd (parse_fields lines (r\<lparr>r_body_offset := h, r_status := c\<rparr>)))" for lines c
    using keeps_parse_fields [of "r\<lparr>r_body_offset := h, r_status := c\<rparr>" lines] by (simp add: keeps_def)
  then show ?thesis
    by (simp add: parse_headers_def Let_def keeps_updates split: option.splits)
qed

definition resp_ok ::
  "acme_request \<Rightarrow> acme_request \<Rightarrow> outcome \<Rightarrow> (ngx_rc \<times> acme_request) option \<Rightarrow> bool" where
  "resp_ok r0 r out res =
     (case out of
        Partial \<Rightarrow>
          \<exists>r'. res = Some (NGX_AGAIN, r') \<and> between r0 r' \<and> keeps r r'
            \<and> (\<not> r_headers_done r' \<longrightarrow> memmem (recv_data r') (CRLF @ CRLF) = None)
      | Bad \<Rightarrow> \<exists>r'. res = Some (NGX_ERROR, r') \<and> keeps r r'
      | Full st hs d \<Rightarrow>
          \<exists>r'. res = Some (NGX_DONE, r') \<and> r_status r' = st \<and> r_headers r' = hs \<and> r_body_out r' = d
            \<and> keeps r r')"

lemma parse_body_step:
  assumes h: "memmem (recv_data r) (CRLF @ CRLF) = Some h"
    and ph: "parse_headers (recv_data r) (h + 4) r0 = (NGX_OK, rh)"
    and cur: "cursor_only (upd_as r rh) r"
    and ready: "r_chunked r \<Longrightarrow> dechunk_ready r" and fr: "fresh r0"
  shows "resp_ok r0 r (body_spec rh (drop (h + 4) (recv_data r))) (parse_body r)"
proof -
  obtain c s where s: "fields_only (r0\<lparr>r_body_offset := h + 4, r_status := c\<rparr>) s" "rh = s\<lparr>r_headers_done := True\<rparr>"
    using parse_headers_OK [OF ph] by blast
  note cf = cursor_only_fields [OF cur]
  have pool: "r_pool r = []" and off: "r_body_offset r = h + 4" and hd: "r_headers_done r"
    using fields_only_fields [OF s(1)] s(2) fr cf by (auto simp: fresh_def)
  have here: "reading_body r0 r" unfolding reading_body_def using h ph cur ready by blast
  show ?thesis
  proof (cases "r_chunked rh")
    case False
    have "h + 4 \<le> length (recv_data r)" using memmem_le [OF h] by simp
    then have have_eq: "int (length (recv_data r)) - int (r_body_offset r) \<ge> r_content_length r \<longleftrightarrow>
        length (drop (h + 4) (recv_data r)) \<ge> nat (r_content_length r)" if "r_content_length r \<ge> 0"
      using that off by auto
    show ?thesis
    proof (cases "r_content_length rh \<ge> 0 \<and> length (drop (h + 4) (recv_data r)) \<ge> nat (r_content_length rh)")
      case True
      with False have_eq cf off show ?thesis
        by (simp add: body_spec_def parse_body_def resp_ok_def keeps_updates)
    next
      case no: False
      with False have_eq cf have "body_spec rh (drop (h + 4) (recv_data r)) = Partial" "parse_body r = Some (NGX_AGAIN, r)"
        by (auto simp: body_spec_def parse_body_def)
      with here hd show ?thesis by (simp add: resp_ok_def between_def)
    qed
  next
    case True
    then have ch: "r_chunked r" using cf by simp
    with dechunk_correct [OF ready [OF ch]]
    have d: "dechunk_ok r (chunked_spec (drop (h + 4) (recv_data r))) (parse_body r)"
      by (simp add: parse_body_def off)
    show ?thesis
    proof (cases "chunked_spec (drop (h + 4) (recv_data r))")
      case Incomplete
      with d obtain r' where r': "parse_body r = Some (NGX_AGAIN, r')" "cursor_only r r'"
        "dechunk_at (recv_data r) r'" by (auto simp: dechunk_ok_def)
      note f = cursor_only_fields [OF r'(2)]
      have scan: "r_hdr_scan_pos r' = r_hdr_scan_pos r" "r_read_timer r' = r_read_timer r" using r'(2) by (auto simp: cursor_only_def)
      have "dechunk_ready r'" using ready [OF ch] r'(3) f by (auto simp: dechunk_ready_def)
      moreover have "cursor_only (upd_as r' rh) r'"
        using cursor_only_trans [OF cur r'(2)] f scan by simp
      ultimately have "reading_body r0 r'"
        unfolding reading_body_def using h ph f by auto
      with Incomplete True r' hd f show ?thesis
        using keeps_cursor [OF r'(2)] by (simp add: body_spec_def resp_ok_def between_def)
    next
      case Malformed
      with d True show ?thesis
        using keeps_cursor by (auto simp: body_spec_def resp_ok_def dechunk_ok_def)
    next
      case (Complete e)
      with d pool obtain r' where r': "parse_body r = Some (NGX_DONE, r'\<lparr>r_pool := [], r_body_out := e\<rparr>)"
          "cursor_only r r'" by (auto simp: dechunk_ok_def)
      then show ?thesis
        using Complete True keeps_cursor [OF r'(2)] cursor_only_fields [OF r'(2)] cf
        by (simp add: body_spec_def resp_ok_def keeps_updates)
    qed
  qed
qed

lemma parse_response_step:
  assumes "between r0 r" and fr: "fresh r0"
  shows "resp_ok r0 r (response_spec r0 (recv_data r)) (parse_response r)"
  using assms(1) unfolding between_def
proof
  assume rb: "reading_body r0 r"
  then obtain h rh where *: "memmem (recv_data r) (CRLF @ CRLF) = Some h"
    "parse_headers (recv_data r) (h + 4) r0 = (NGX_OK, rh)"
    "cursor_only (upd_as r rh) r"
    unfolding reading_body_def by blast
  obtain c s where "rh = s\<lparr>r_headers_done := True\<rparr>" using parse_headers_OK [OF *(2)] by blast
  then have "r_headers_done r" using cursor_only_fields(4) [OF *(3)] by simp
  with parse_body_step [OF * _ fr] rb * show ?thesis
    by (simp add: parse_response_def response_spec_def reading_body_def)
next
  assume sc: "scanning r0 r"
  then have r: "r = upd_as r r0" unfolding scanning_def by blast
  define frm where "frm = (if r_hdr_scan_pos r > 3 then r_hdr_scan_pos r - 3 else 0)"
  have "\<not> occurs_at (recv_data r) (CRLF @ CRLF) j" if "j < frm" for j
    using sc that by (auto simp: scanning_def frm_def split: if_splits)
  then have mm: "memmem (recv_data r) (CRLF @ CRLF)
      = map_option ((+) frm) (memmem (drop frm (recv_data r)) (CRLF @ CRLF))"
    by (intro memmem_resume) simp_all
  have nd: "\<not> r_headers_done r" using fr by (subst r) (simp add: fresh_def)
  show ?thesis
  proof (cases "memmem (drop frm (recv_data r)) (CRLF @ CRLF)")
    case None
    then have "\<not> occurs_at (recv_data r) (CRLF @ CRLF) j" for j
      using mm memmem_None [of "CRLF @ CRLF" "recv_data r"] by simp
    moreover have data: "recv_data (r\<lparr>r_hdr_scan_pos := length (recv_data r)\<rparr>) = recv_data r"
      by (simp add: recv_data_def)
    moreover have "r\<lparr>r_hdr_scan_pos := n\<rparr> = upd (r_recv r) n (r_read_timer r) r0" for n by (subst r) simp
    ultimately have "scanning r0 (r\<lparr>r_hdr_scan_pos := length (recv_data r)\<rparr>)"
      by (simp add: scanning_def)
    with None mm nd data show ?thesis
      by (simp add: parse_response_def Let_def response_spec_def resp_ok_def between_def keeps_updates flip: frm_def)
  next
    case (Some j)
    with mm have h: "memmem (recv_data r) (CRLF @ CRLF) = Some (frm + j)" by simp
    then have le: "frm + j + 4 \<le> length (recv_data r)" using memmem_le by fastforce
    obtain rc rh where ph: "parse_headers (recv_data r) (frm + j + 4) r0 = (rc, rh)" by fastforce
    then have ph': "parse_headers (recv_data r) (frm + j + 4) r = (rc, upd_as r rh)"
      using parse_headers_upd [where r = r0 and x = "r_recv r" and s = "r_hdr_scan_pos r" and t = "r_read_timer r"] r by (metis apsnd_conv)
    have k: "keeps r (upd_as r rh)"
      using keeps_parse_headers [of r "recv_data r" "frm + j + 4"] ph' by simp
    show ?thesis
    proof (cases "rc = NGX_OK")
      case False
      with ph ph' h Some nd k show ?thesis
        by (cases rc) (simp_all add: parse_response_def Let_def response_spec_def resp_ok_def flip: frm_def)
    next
      case True
      let ?r = "upd_as r rh"
      have D: "recv_data ?r = recv_data r" by (simp add: recv_data_def)
      obtain c s where s: "fields_only (r0\<lparr>r_body_offset := frm + j + 4, r_status := c\<rparr>) s"
        "rh = s\<lparr>r_headers_done := True\<rparr>" using parse_headers_OK [OF ph [unfolded True]] by blast
      have "dechunk_ready ?r"
        using fields_only_fields [OF s(1)] s(2) fr le D by (simp add: dechunk_ready_def fresh_def)
      then have "resp_ok r0 ?r (body_spec rh (drop (frm + j + 4) (recv_data ?r))) (parse_body ?r)"
        using ph True h D fr by (intro parse_body_step) simp_all
      then have "resp_ok r0 r (body_spec rh (drop (frm + j + 4) (recv_data r))) (parse_body ?r)"
        using k by (auto simp: resp_ok_def D intro: keeps_trans split: outcome.splits)
      with ph ph' h Some nd True show ?thesis
        by (simp add: parse_response_def Let_def response_spec_def flip: frm_def)
    qed
  qed
qed

end
