(* ===== verification/Acme_Client.thy ===== *)
theory Acme_Client
  imports Acme_Response
begin

text \<open>
  The life of one request of the ACME client (\<^verbatim>\<open>src/ngx_autocert_acme.c\<close>),
  from the start over name resolution, connection, TLS handshake, the write of the request
  and the read of the response to the call of the completion handler.

  The answers of the event loop, the resolver, the sockets and OpenSSL at one event are a
  record, which is an argument of every handler: the clock, the timeout flags of the event
  and of the read and write events of the connection, and the results of the calls.
\<close>

section \<open>The network\<close>

datatype recv_answer = Recv_Bytes bytes | Recv_Again | Recv_Error | Recv_Eof

datatype send_answer = Sent nat | Send_Again | Send_Error

datatype connect_rc = Conn_OK | Conn_Again | Conn_Failed

datatype resolve_rc = Res_Error | Res_Pending | Res_Sync

record net =
  n_now :: u64
  n_ev_timedout :: bool
  n_rd_timedout :: bool
  n_wr_timedout :: bool
  n_is_literal :: "bytes \<Rightarrow> bool"
  n_resolve_start :: bool
  n_resolve_name :: resolve_rc
  n_resolve_state :: nat
  n_naddrs :: nat
  n_connect :: connect_rc
  n_so_error :: bool
  n_write_event :: bool
  n_read_event :: bool
  n_ssl_create :: bool
  n_ssl_sni :: bool
  n_ssl_again :: bool
  n_handshaked :: bool
  n_verify_ok :: bool
  n_ip_ok :: bool
  n_host_ok :: bool
  n_send :: "send_answer list"
  n_recv :: "recv_answer list"

text \<open>
  \<^verbatim>\<open>c->recv\<close> returns at most as many bytes as there is room for, and keeps the
  rest; it has nothing to return when the list is exhausted.
\<close>

fun recv :: "nat \<Rightarrow> recv_answer list \<Rightarrow> recv_answer \<times> recv_answer list" where
  "recv avail [] = (Recv_Again, [])"
| "recv avail (Recv_Bytes bs # s) =
     (if bs = [] then recv avail s
      else if avail = 0 then (Recv_Eof, Recv_Bytes bs # s)
      else if length bs \<le> avail then (Recv_Bytes bs, s)
      else (Recv_Bytes (take avail bs), Recv_Bytes (drop avail bs) # s))"
| "recv avail (a # s) = (a, s)"

fun pending :: "recv_answer list \<Rightarrow> nat" where
  "pending [] = 0"
| "pending (Recv_Bytes bs # s) = length bs + pending s"
| "pending (a # s) = pending s"

lemma recv_pending: "recv avail s = (Recv_Bytes bs, s') \<Longrightarrow> bs \<noteq> [] \<and> length bs \<le> avail \<and> pending s = length bs + pending s'"
  by (induction avail s rule: recv.induct) (auto split: if_splits)

lemma recv_pending_less: "(Recv_Bytes bs, s') = recv avail s \<Longrightarrow> pending s' < pending s"
  using recv_pending [of avail s bs s'] by auto

section \<open>Completion\<close>

definition finalize :: "acme_request \<Rightarrow> ngx_rc \<Rightarrow> acme_request" where
  "finalize r rc =
     (if r_done r then r
      else r\<lparr>r_done := True, r_inflight := False, r_resolve := False, r_connection := False,
             r_phase := Idle, r_read_timer := None, r_calls := r_calls r @ [rc]\<rparr>)"

definition cancel_inflight :: "acme_request \<Rightarrow> acme_request" where
  "cancel_inflight r =
     (if \<not> r_inflight r then r
      else r\<lparr>r_inflight := False, r_done := True, r_resolve := False, r_connection := False,
             r_phase := Idle, r_read_timer := None\<rparr>)"

section \<open>Reading the response\<close>

abbreviation (input) RECV_MAX :: nat where "RECV_MAX \<equiv> 262144"
abbreviation (input) RECV_INIT :: nat where "RECV_INIT \<equiv> 16384"
abbreviation (input) READ_TOTAL :: u64 where "READ_TOTAL \<equiv> 60000"

definition read_remaining :: "net \<Rightarrow> acme_request \<Rightarrow> int" where
  "read_remaining N r = sint (r_read_deadline r - n_now N)"

definition read_again :: "acme_client \<Rightarrow> net \<Rightarrow> acme_request \<Rightarrow> acme_request" where
  "read_again c N r =
     (let remaining = read_remaining N r in
      if remaining \<le> 0 then finalize r NGX_ERROR
      else
        let r1 = r\<lparr>r_read_timer := Some (min (word_of_int remaining) (timeout c))\<rparr> in
        if \<not> n_read_event N then finalize r1 NGX_ERROR else r1)"

definition read_eof :: "acme_request \<Rightarrow> acme_request" where
  "read_eof r =
     (if \<not> r_headers_done r then finalize r NGX_ERROR
      else if r_chunked r then finalize r NGX_ERROR
      else if r_content_length r \<ge> 0
              \<and> int (length (recv_data r)) - int (r_body_offset r) < r_content_length r
      then finalize r NGX_ERROR
      else finalize (r\<lparr>r_body_out := drop (r_body_offset r) (recv_data r)\<rparr>) NGX_OK)"

text \<open>Room for more bytes: the buffer grows once, to its maximum.\<close>

definition read_grow :: "acme_request \<Rightarrow> buf \<Rightarrow> bool \<times> acme_request \<times> buf" where
  "read_grow r b =
     (if b_cap b - length (b_data b) \<noteq> 0 then (True, r, b)
      else if RECV_MAX \<le> b_cap b then (False, finalize r NGX_ERROR, b)
      else
        (case alloc_next (r_pool r) of
           (False, pool) \<Rightarrow> (False, finalize (r\<lparr>r_pool := pool\<rparr>) NGX_ERROR, b)
         | (True, pool) \<Rightarrow>
             let nb = b\<lparr>b_cap := RECV_MAX\<rparr> in (True, r\<lparr>r_pool := pool, r_recv := Some nb\<rparr>, nb)))"

definition recv_append :: "bytes \<Rightarrow> acme_request \<Rightarrow> acme_request" where
  "recv_append bs r = r\<lparr>r_recv := map_option (\<lambda>b. b\<lparr>b_data := b_data b @ bs\<rparr>) (r_recv r)\<rparr>"

function read_loop :: "acme_client \<Rightarrow> net \<Rightarrow> recv_answer list \<Rightarrow> acme_request \<Rightarrow> acme_request option" where
  "read_loop c N sock r0 =
     (case r_recv r0 of
        None \<Rightarrow> None
      | Some b0 \<Rightarrow>
          (case read_grow r0 b0 of
             (False, r, b) \<Rightarrow> Some r
           | (True, r, b) \<Rightarrow>
               (case recv (b_cap b - length (b_data b)) sock of
                  (Recv_Again, sock') \<Rightarrow> Some (read_again c N r)
                | (Recv_Error, sock') \<Rightarrow> Some (finalize r NGX_ERROR)
                | (Recv_Eof, sock') \<Rightarrow> Some (read_eof r)
                | (Recv_Bytes bs, sock') \<Rightarrow>
                    (case parse_response (recv_append bs r) of
                       None \<Rightarrow> None
                     | Some (NGX_DONE, r1) \<Rightarrow> Some (finalize r1 NGX_OK)
                     | Some (NGX_ERROR, r1) \<Rightarrow> Some (finalize r1 NGX_ERROR)
                     | Some (_, r1) \<Rightarrow> read_loop c N sock' r1))))"
  by pat_completeness auto
termination
  by (relation "measure (\<lambda>(c, N, sock, r). pending sock)") (auto dest: recv_pending_less)

declare read_loop.simps [simp del]

definition read_handler :: "acme_client \<Rightarrow> net \<Rightarrow> acme_request \<Rightarrow> acme_request option" where
  "read_handler c N r =
     (if n_rd_timedout N then Some (finalize r NGX_ERROR) else read_loop c N (n_recv N) r)"

section \<open>Writing the request\<close>

text \<open>
  The send loop: how it ends, and the request with the bytes that were taken.
  \<^verbatim>\<open>c->send\<close> takes at most what it is given.
\<close>

datatype send_end = Send_Done | Send_Wait | Send_Failed

fun send_loop :: "send_answer list \<Rightarrow> bytes \<Rightarrow> acme_request \<Rightarrow> send_end \<times> acme_request" where
  "send_loop as [] r = (Send_Done, r\<lparr>r_send := Some []\<rparr>)"
| "send_loop [] (x # rest) r = (Send_Wait, r\<lparr>r_send := Some (x # rest)\<rparr>)"
| "send_loop (Send_Again # as) (x # rest) r = (Send_Wait, r\<lparr>r_send := Some (x # rest)\<rparr>)"
| "send_loop (Send_Error # as) (x # rest) r = (Send_Failed, r\<lparr>r_send := Some (x # rest)\<rparr>)"
| "send_loop (Sent n # as) (x # rest) r =
     send_loop as (drop n (x # rest)) (r\<lparr>r_sent := r_sent r @ take n (x # rest)\<rparr>)"

definition write_handler :: "acme_client \<Rightarrow> net \<Rightarrow> acme_request \<Rightarrow> acme_request option" where
  "write_handler c N r =
     (if r_recv r \<noteq> None then Some r
      else if n_wr_timedout N then Some (finalize r NGX_ERROR)
      else
        (case r_send r of
           None \<Rightarrow> None
         | Some to_send \<Rightarrow>
             (case send_loop (n_send N) to_send r of
                (Send_Wait, r1) \<Rightarrow> Some (if n_write_event N then r1 else finalize r1 NGX_ERROR)
              | (Send_Failed, r1) \<Rightarrow> Some (finalize r1 NGX_ERROR)
              | (Send_Done, r1) \<Rightarrow>
                  (case alloc_next (r_pool r1) of
                     (False, pool) \<Rightarrow> Some (finalize (r1\<lparr>r_pool := pool\<rparr>) NGX_ERROR)
                   | (True, pool) \<Rightarrow>
                       let r2 = r1\<lparr>r_pool := pool, r_recv := Some \<lparr>b_data = [], b_cap = RECV_INIT\<rparr>,
                                   r_read_deadline := n_now N + READ_TOTAL,
                                   r_read_timer := Some (min READ_TOTAL (timeout c))\<rparr>
                       in
                       if \<not> n_read_event N then Some (finalize r2 NGX_ERROR)
                       else read_handler c N r2))))"

section \<open>The TLS handshake\<close>

definition ssl_handshake_handler :: "acme_client \<Rightarrow> net \<Rightarrow> acme_request \<Rightarrow> acme_request option" where
  "ssl_handshake_handler c N r =
     (if n_rd_timedout N then Some (finalize r NGX_ERROR)
      else if \<not> n_handshaked N then Some (finalize r NGX_ERROR)
      else if \<not> n_verify_ok N then Some (finalize r NGX_ERROR)
      else if r_host_is_ip r \<and> \<not> n_ip_ok N then Some (finalize r NGX_ERROR)
      else if \<not> r_host_is_ip r \<and> \<not> n_host_ok N then Some (finalize r NGX_ERROR)
      else
        (case build_request (r\<lparr>r_read_timer := None\<rparr>) of
           None \<Rightarrow> None
         | Some (NGX_OK, r1) \<Rightarrow> write_handler c N (r1\<lparr>r_phase := Exchanging\<rparr>)
         | Some (_, r1) \<Rightarrow> Some (finalize r1 NGX_ERROR)))"

text \<open>A call that returns a code to its caller besides changing the request.\<close>

definition ssl_init :: "acme_client \<Rightarrow> net \<Rightarrow> acme_request \<Rightarrow> (ngx_rc \<times> acme_request) option" where
  "ssl_init c N r =
     (if \<not> n_ssl_create N then Some (NGX_ERROR, r)
      else if \<not> r_host_is_ip r \<and> \<not> n_ssl_sni N then Some (NGX_ERROR, r)
      else if n_ssl_again N
      then Some (NGX_OK, r\<lparr>r_read_timer := Some (timeout c), r_phase := Handshaking\<rparr>)
      else map_option (\<lambda>r'. (NGX_OK, r')) (ssl_handshake_handler c N r))"

section \<open>Connecting\<close>

definition connect :: "acme_client \<Rightarrow> net \<Rightarrow> acme_request \<Rightarrow> (ngx_rc \<times> acme_request) option" where
  "connect c N r =
     (case n_connect N of
        Conn_Failed \<Rightarrow> Some (NGX_ERROR, r)
      | Conn_Again \<Rightarrow> Some (NGX_OK, r\<lparr>r_connection := True, r_phase := Connecting, r_inflight := True\<rparr>)
      | Conn_OK \<Rightarrow>
          (case ssl_init c N (r\<lparr>r_connection := True, r_phase := Connecting, r_inflight := True\<rparr>) of
             None \<Rightarrow> None
           | Some (NGX_OK, r1) \<Rightarrow> Some (NGX_OK, r1)
           | Some (_, r1) \<Rightarrow>
               Some (NGX_ERROR, r1\<lparr>r_inflight := False, r_connection := False, r_phase := Idle, r_read_timer := None\<rparr>)))"

definition connect_handler :: "acme_client \<Rightarrow> net \<Rightarrow> acme_request \<Rightarrow> acme_request option" where
  "connect_handler c N r =
     (if n_ev_timedout N then Some (finalize r NGX_ERROR)
      else if n_so_error N then Some (finalize r NGX_ERROR)
      else if \<not> n_write_event N then Some (finalize r NGX_ERROR)
      else
        (case ssl_init c N r of
           None \<Rightarrow> None
         | Some (NGX_OK, r1) \<Rightarrow> Some r1
         | Some (_, r1) \<Rightarrow> Some (finalize r1 NGX_ERROR)))"

definition resolve_handler :: "acme_client \<Rightarrow> net \<Rightarrow> acme_request \<Rightarrow> acme_request option" where
  "resolve_handler c N r =
     (if n_resolve_state N \<noteq> 0 then Some (finalize (r\<lparr>r_resolve := False\<rparr>) NGX_ERROR)
      else if n_naddrs N = 0 then Some (finalize (r\<lparr>r_resolve := False\<rparr>) NGX_ERROR)
      else
        (case alloc_next (r_pool r) of
           (False, pool) \<Rightarrow> Some (finalize (r\<lparr>r_pool := pool, r_resolve := False\<rparr>) NGX_ERROR)
         | (True, pool) \<Rightarrow>
             (case connect c N (r\<lparr>r_pool := pool, r_resolve := False, r_phase := Idle\<rparr>) of
                None \<Rightarrow> None
              | Some (NGX_OK, r1) \<Rightarrow> Some r1
              | Some (_, r1) \<Rightarrow> Some (finalize r1 NGX_ERROR))))"

section \<open>Starting a request\<close>

definition request_start :: "acme_client \<Rightarrow> net \<Rightarrow> acme_request \<Rightarrow> (ngx_rc \<times> acme_request) option" where
  "request_start c N r0 =
     (let r1 = (if length (r_method r0) = 0 then r0\<lparr>r_method := str ''GET''\<rparr> else r0) in
      case parse_url r1 of
        (NGX_OK, r2) \<Rightarrow>
          if check_origin (Some c) r2 \<noteq> NGX_OK then Some (NGX_ERROR, r2)
          else
            let r3 = r2\<lparr>r_content_length := -1, r_host_is_ip := n_is_literal N (r_host r2)\<rparr> in
            if r_host_is_ip r3 then connect c N r3
            else if \<not> has_resolver c then Some (NGX_ERROR, r3)
            else if \<not> n_resolve_start N then Some (NGX_ERROR, r3)
            else
              let r4 = r3\<lparr>r_resolve := True, r_phase := Resolving, r_inflight := True\<rparr> in
              (case n_resolve_name N of
                 Res_Error \<Rightarrow>
                   Some (NGX_ERROR, r4\<lparr>r_inflight := False, r_resolve := False, r_phase := Idle\<rparr>)
               | Res_Pending \<Rightarrow> Some (NGX_OK, r4)
               | Res_Sync \<Rightarrow> map_option (\<lambda>r'. (NGX_OK, r')) (resolve_handler c N r4))
      | (_, r2) \<Rightarrow> Some (NGX_ERROR, r2))"

text \<open>A request that \<^verbatim>\<open>ngx_memzero\<close> has cleared.\<close>

definition zero_request :: acme_request where
  "zero_request =
     \<lparr>r_pool = [], r_method = [], r_url = [], r_body = [], r_content_type = [], r_host = [],
      r_host_is_ip = False, r_host_is_ipv6 = False, r_port = 0, r_uri = [], r_status = 0,
      r_body_out = [], r_headers = None, r_resolve = False, r_connection = False, r_phase = Idle,
      r_sent = [], r_inflight = False, r_send = None, r_recv = None, r_done = False, r_calls = [],
      r_headers_done = False, r_chunked = False, r_content_length = 0, r_body_offset = 0,
      r_hdr_scan_pos = 0, r_dechunk_pos = 0, r_dechunk_total = 0, r_dechunk_state = DECHUNK_CHUNKS,
      r_read_deadline = 0, r_read_timer = None\<rparr>"

definition client_set_origin :: "alloc \<Rightarrow> acme_client \<Rightarrow> bytes \<Rightarrow> ngx_rc \<times> acme_client" where
  "client_set_origin pool c dir_url =
     (case parse_url (zero_request\<lparr>r_pool := pool, r_url := dir_url\<rparr>) of
        (NGX_OK, r) \<Rightarrow>
          (NGX_OK, c\<lparr>origin_host := r_host r, origin_port := r_port r,
                     origin_is_ipv6 := r_host_is_ipv6 r, origin_pinned := True\<rparr>)
      | _ \<Rightarrow> (NGX_ERROR, c))"

end
