(* ===== verification/Acme_Read.thy ===== *)
theory Acme_Read
  imports Acme_Client
begin

text \<open>
  The read side of the ACME client end to end: the outcome of a response does not depend on
  how the socket splits it, over one or several events.
\<close>

section \<open>The states between two reads\<close>

lemma dechunk_at_irrelevant [simp]:
  "dechunk_at D (r\<lparr>r_recv := x\<rparr>) = dechunk_at D r" "dechunk_at D (r\<lparr>r_read_timer := t\<rparr>) = dechunk_at D r"
  by (simp_all add: dechunk_at_def chunks_at_def trailers_at_def)

lemma cursor_only_conn:
  "cursor_only r r' \<Longrightarrow> cursor_only (r\<lparr>r_recv := x, r_read_timer := t\<rparr>) (r'\<lparr>r_recv := x, r_read_timer := t\<rparr>)"
proof -
  assume "cursor_only r r'"
  then obtain pos tot st where "r' = r\<lparr>r_dechunk_pos := pos, r_dechunk_total := tot, r_dechunk_state := st\<rparr>"
    unfolding cursor_only_def by blast
  then have "r'\<lparr>r_recv := x, r_read_timer := t\<rparr> = r\<lparr>r_recv := x, r_read_timer := t\<rparr>
      \<lparr>r_dechunk_pos := pos, r_dechunk_total := tot, r_dechunk_state := st\<rparr>"
    by (cases r) simp
  then show ?thesis unfolding cursor_only_def by blast
qed

text \<open>More bytes in the buffer, a larger buffer, or another timer.\<close>

lemma between_conn:
  assumes "between r0 r" and D: "recv_data (r\<lparr>r_recv := x\<rparr>) = recv_data r @ y"
  shows "between r0 (r\<lparr>r_recv := x, r_read_timer := t\<rparr>)"
proof -
  let ?r = "r\<lparr>r_recv := x, r_read_timer := t\<rparr>"
  have D': "recv_data ?r = recv_data r @ y" using D by (simp add: recv_data_def)
  from assms(1) show ?thesis unfolding between_def
  proof (elim disjE)
    assume s: "scanning r0 r"
    then have r: "r = upd_as r r0" by (simp add: scanning_def)
    have "?r = upd_as ?r r0" using arg_cong [OF r, of "\<lambda>q. q\<lparr>r_recv := x, r_read_timer := t\<rparr>"] by simp
    moreover have "\<not> occurs_at (recv_data r @ y) (CRLF @ CRLF) j" if "j + 4 \<le> r_hdr_scan_pos r" for j
      using s that by (simp add: scanning_def occurs_at_append)
    ultimately have "scanning r0 ?r" using s unfolding scanning_def D' by simp
    then show "scanning r0 ?r \<or> reading_body r0 ?r" ..
  next
    assume b: "reading_body r0 r"
    then obtain h rh where h: "memmem (recv_data r) (CRLF @ CRLF) = Some h"
      and ph: "parse_headers (recv_data r) (h + 4) r0 = (NGX_OK, rh)" and c: "cursor_only (upd_as r rh) r"
      unfolding reading_body_def by blast
    have "h + 4 \<le> length (recv_data r)" using memmem_le [OF h] by simp
    then have "parse_headers (recv_data r @ y) (h + 4) r0 = (NGX_OK, rh)"
      using ph by (simp add: parse_headers_append)
    moreover have eq: "upd_as r rh\<lparr>r_recv := x, r_read_timer := t\<rparr> = upd_as ?r rh" by (cases rh) simp
    have "cursor_only (upd_as ?r rh) ?r" using cursor_only_conn [OF c, where x = x and t = t] unfolding eq .
    moreover have "dechunk_ready ?r" if "r_chunked r"
      using b that dechunk_at_append [of "recv_data r" r y] by (auto simp: reading_body_def dechunk_ready_def D')
    ultimately have "reading_body r0 ?r"
      unfolding reading_body_def D' using memmem_append_stable [OF h, of y] by auto
    then show "scanning r0 ?r \<or> reading_body r0 ?r" ..
  qed
qed

lemma recv_append_data: "r_recv r = Some b \<Longrightarrow> recv_data (recv_append bs r) = recv_data r @ bs"
  by (simp add: recv_append_def recv_data_def)

lemma between_append:
  assumes "between r0 r" "r_recv r = Some b"
  shows "between r0 (recv_append bs r)"
proof -
  have "recv_data (r\<lparr>r_recv := r_recv (recv_append bs r)\<rparr>) = recv_data r @ bs"
    using assms(2) by (simp add: recv_append_def recv_data_def)
  from between_conn [OF assms(1) this, where t = "r_read_timer r"] show ?thesis by (simp add: recv_append_def)
qed

lemma between_pool: "between r0 r \<Longrightarrow> fresh r0 \<Longrightarrow> r_pool r = []"
proof -
  assume "between r0 r" and fr: "fresh r0"
  then show ?thesis unfolding between_def
  proof (elim disjE)
    assume "scanning r0 r"
    then have "r = upd_as r r0" by (simp add: scanning_def)
    then have "r_pool r = r_pool (upd_as r r0)" by (rule arg_cong)
    then show ?thesis using fr by (simp add: fresh_def)
  next
    assume "reading_body r0 r"
    then obtain h rh where ph: "parse_headers (recv_data r) (h + 4) r0 = (NGX_OK, rh)" and c: "cursor_only (upd_as r rh) r"
      unfolding reading_body_def by blast
    obtain cd s where "fields_only (r0\<lparr>r_body_offset := h + 4, r_status := cd\<rparr>) s" "rh = s\<lparr>r_headers_done := True\<rparr>"
      using parse_headers_OK [OF ph] by blast
    then show ?thesis using cursor_only_fields(2) [OF c] fields_only_fields(7) fr by (simp add: fresh_def)
  qed
qed

section \<open>Reading until the socket is empty or closed\<close>

definition reading :: "acme_request \<Rightarrow> acme_request \<Rightarrow> bool" where
  "reading r0 r \<longleftrightarrow>
     between r0 r \<and> \<not> r_done r \<and> r_calls r = [] \<and> r_read_deadline r = r_read_deadline r0
     \<and> response_spec r0 (recv_data r) = Partial
     \<and> (\<not> r_headers_done r \<longrightarrow> memmem (recv_data r) (CRLF @ CRLF) = None)
     \<and> (\<exists>b. r_recv r = Some b \<and> length (b_data b) \<le> b_cap b \<and> b_cap b \<le> RECV_MAX)"

text \<open>The result of reading to the end of the stream.\<close>

definition eof_spec :: "acme_request \<Rightarrow> bytes \<Rightarrow> outcome" where
  "eof_spec r0 D =
     (case response_spec r0 D of
        Partial \<Rightarrow>
          (case memmem D (CRLF @ CRLF) of
             None \<Rightarrow> Bad
           | Some h \<Rightarrow>
               (case parse_headers D (h + 4) r0 of
                  (NGX_OK, rh) \<Rightarrow>
                    if r_chunked rh \<or> r_content_length rh \<ge> 0 then Bad
                    else Full (r_status rh) (r_headers rh) (drop (h + 4) D)
                | _ \<Rightarrow> Bad))
      | out \<Rightarrow> out)"

definition completed :: "outcome \<Rightarrow> acme_request \<Rightarrow> bool" where
  "completed out r \<longleftrightarrow> r_done r \<and>
     (case out of
        Full st hs d \<Rightarrow> r_calls r = [NGX_OK] \<and> r_status r = st \<and> r_headers r = hs \<and> r_body_out r = d
      | _ \<Rightarrow> r_calls r = [NGX_ERROR])"

lemma finalize_fields [simp]:
  "r_status (finalize r rc) = r_status r" "r_headers (finalize r rc) = r_headers r"
  "r_body_out (finalize r rc) = r_body_out r" "r_done (finalize r rc)"
  "\<not> r_done r \<Longrightarrow> r_calls (finalize r rc) = r_calls r @ [rc]"
  by (simp_all add: finalize_def)

lemma read_eof_correct:
  assumes "reading r0 r" and fr: "fresh r0"
  shows "completed (eof_spec r0 (recv_data r)) (read_eof r)"
proof -
  have part: "response_spec r0 (recv_data r) = Partial" and nd: "\<not> r_done r" "r_calls r = []" and "between r0 r"
    using assms(1) by (simp_all add: reading_def)
  then consider (scan) "scanning r0 r" | (body) "reading_body r0 r" unfolding between_def by blast
  then show ?thesis
  proof cases
    case scan
    then have "r = upd_as r r0" by (simp add: scanning_def)
    then have "r_headers_done r = r_headers_done (upd_as r r0)" by (rule arg_cong)
    then have hd: "\<not> r_headers_done r" using fr by (simp add: fresh_def)
    with assms(1) have "memmem (recv_data r) (CRLF @ CRLF) = None" by (simp add: reading_def)
    then have "eof_spec r0 (recv_data r) = Bad" by (simp add: eof_spec_def part)
    with hd nd show ?thesis by (simp add: read_eof_def completed_def)
  next
    case body
    then obtain h rh where h: "memmem (recv_data r) (CRLF @ CRLF) = Some h"
      and ph: "parse_headers (recv_data r) (h + 4) r0 = (NGX_OK, rh)" and c: "cursor_only (upd_as r rh) r"
      unfolding reading_body_def by blast
    obtain cd s where s: "fields_only (r0\<lparr>r_body_offset := h + 4, r_status := cd\<rparr>) s" "rh = s\<lparr>r_headers_done := True\<rparr>"
      using parse_headers_OK [OF ph] by blast
    note cf = cursor_only_fields(3-8) [OF c]
    have hd: "r_headers_done r" and off: "r_body_offset r = h + 4"
      using cf s fields_only_fields(2) [OF s(1)] by simp_all
    have le: "h + 4 \<le> length (recv_data r)" using memmem_le [OF h] by simp
    have spec: "eof_spec r0 (recv_data r) =
        (if r_chunked r \<or> r_content_length r \<ge> 0 then Bad
         else Full (r_status r) (r_headers r) (drop (h + 4) (recv_data r)))"
      using h ph cf by (simp add: eof_spec_def part)
    have short: "int (length (recv_data r)) - int (r_body_offset r) < r_content_length r"
      if "\<not> r_chunked r" "r_content_length r \<ge> 0"
      using part that h ph cf off le by (auto simp: response_spec_def body_spec_def split: if_splits)
    show ?thesis
      using hd nd short by (auto simp: spec read_eof_def completed_def off)
  qed
qed

text \<open>The socket as the list of its fragments, and what it ends with.\<close>

definition frags :: "bytes list \<Rightarrow> recv_answer list" where
  "frags fs = map Recv_Bytes fs"

lemma recv_frags:
  assumes "avail > 0" "fin = [] \<or> fin = [Recv_Eof]"
  obtains (empty) "concat fs = []" "recv avail (frags fs @ fin) = (if fin = [] then Recv_Again else Recv_Eof, [])"
  | (bytes) bs fs' where "concat fs = bs @ concat fs'" "bs \<noteq> []" "length bs \<le> avail"
      "recv avail (frags fs @ fin) = (Recv_Bytes bs, frags fs' @ fin)"
proof -
  have "(concat fs = [] \<and> recv avail (frags fs @ fin) = (if fin = [] then Recv_Again else Recv_Eof, []))
    \<or> (\<exists>bs fs'. concat fs = bs @ concat fs' \<and> bs \<noteq> [] \<and> length bs \<le> avail
          \<and> recv avail (frags fs @ fin) = (Recv_Bytes bs, frags fs' @ fin))"
  proof (induction fs)
    case Nil
    with assms(2) show ?case by (auto simp: frags_def)
  next
    case (Cons f fs)
    show ?case
    proof (cases "f = []")
      case True
      with Cons show ?thesis by (simp add: frags_def)
    next
      case False
      show ?thesis
      proof (cases "length f \<le> avail")
        case True
        with False show ?thesis by (intro disjI2 exI [of _ f] exI [of _ fs]) (use assms in \<open>simp add: frags_def\<close>)
      next
        case long: False
        with False assms show ?thesis
          by (intro disjI2 exI [of _ "take avail f"] exI [of _ "drop avail f # fs"]) (simp add: frags_def)
      qed
    qed
  qed
  then show thesis using that by blast
qed

lemma read_grow_reading:
  assumes "reading r0 r" "fresh r0" "length (recv_data r) < RECV_MAX" "r_recv r = Some b"
  obtains r' b' where "read_grow r b = (True, r', b')" "reading r0 r'" "r_recv r' = Some b'"
    "recv_data r' = recv_data r" "b_cap b' - length (b_data b') > 0" "b_data b' = b_data b"
proof (cases "b_cap b - length (b_data b) \<noteq> 0")
  case True
  with assms that [of r b] show thesis by (simp add: read_grow_def)
next
  case False
  have b: "length (b_data b) < RECV_MAX" "b_cap b \<le> length (b_data b)"
    using False assms(3,4) by (simp_all add: recv_data_def)
  have pool: "r_pool r = []" using between_pool [of r0 r] assms(1,2) by (simp add: reading_def)
  let ?nb = "b\<lparr>b_cap := RECV_MAX\<rparr>"
  let ?r = "r\<lparr>r_recv := Some ?nb\<rparr>"
  have "r\<lparr>r_pool := [], r_recv := Some ?nb\<rparr> = ?r" using pool by (cases r) simp
  then have grow: "read_grow r b = (True, ?r, ?nb)" using False b pool by (simp add: read_grow_def Let_def)
  have D: "recv_data ?r = recv_data r" using assms(4) by (simp add: recv_data_def)
  then have "recv_data ?r = recv_data r @ []" by simp
  from between_conn [OF _ this, where t = "r_read_timer r"] assms(1)
  have "between r0 ?r" by (simp add: reading_def)
  then have "reading r0 ?r" using assms(1) b D by (simp add: reading_def)
  then show thesis by (rule that [OF grow]) (use D b in simp_all)
qed

text \<open>Reading one stretch of the stream: it completes, or all of it is buffered.\<close>

lemma read_bytes_reading:
  assumes rd: "reading r0 r" and fr: "fresh r0" and b: "r_recv r = Some b"
    and room: "length bs \<le> b_cap b - length (b_data b)"
  shows "case response_spec r0 (recv_data r @ bs) of
      Partial \<Rightarrow> \<exists>r'. parse_response (recv_append bs r) = Some (NGX_AGAIN, r') \<and> reading r0 r'
        \<and> recv_data r' = recv_data r @ bs
    | Bad \<Rightarrow> \<exists>r'. parse_response (recv_append bs r) = Some (NGX_ERROR, r') \<and> completed Bad (finalize r' NGX_ERROR)
    | Full st hs d \<Rightarrow> \<exists>r'. parse_response (recv_append bs r) = Some (NGX_DONE, r')
        \<and> completed (Full st hs d) (finalize r' NGX_OK)"
proof -
  let ?r = "recv_append bs r"
  have D: "recv_data ?r = recv_data r @ bs" using recv_append_data [OF b] .
  have bt: "between r0 ?r" using between_append [OF _ b] rd by (simp add: reading_def)
  note step = parse_response_step [OF bt fr, unfolded D]
  have k: "\<not> r_done ?r" "r_calls ?r = []" "r_read_deadline ?r = r_read_deadline r0"
    "r_recv ?r = Some (b\<lparr>b_data := b_data b @ bs\<rparr>)"
    using rd b by (simp_all add: reading_def recv_append_def)
  have cap: "length (b_data b @ bs) \<le> b_cap b" "b_cap b \<le> RECV_MAX"
    using rd b room by (auto simp: reading_def)
  show ?thesis
  proof (cases "response_spec r0 (recv_data r @ bs)")
    case Partial
    with step obtain r' where r': "parse_response ?r = Some (NGX_AGAIN, r')" "between r0 r'" "keeps ?r r'"
        "\<not> r_headers_done r' \<longrightarrow> memmem (recv_data r') (CRLF @ CRLF) = None"
      by (auto simp: resp_ok_def)
    then have "recv_data r' = recv_data r @ bs" using D by (simp add: keeps_def recv_data_def)
    moreover from this have "reading r0 r'"
      using r' k cap Partial by (simp add: reading_def keeps_def)
    ultimately show ?thesis using Partial r'(1) by simp
  next
    case Bad
    with step obtain r' where r': "parse_response ?r = Some (NGX_ERROR, r')" "keeps ?r r'"
      by (auto simp: resp_ok_def)
    then have "completed Bad (finalize r' NGX_ERROR)" using k by (simp add: completed_def keeps_def)
    with Bad r' show ?thesis by simp
  next
    case (Full st hs d)
    with step obtain r' where r': "parse_response ?r = Some (NGX_DONE, r')" "keeps ?r r'"
        "r_status r' = st" "r_headers r' = hs" "r_body_out r' = d"
      by (auto simp: resp_ok_def)
    then have "completed (Full st hs d) (finalize r' NGX_OK)" using k by (simp add: completed_def keeps_def)
    with Full r' show ?thesis by simp
  qed
qed

definition read_end :: "acme_client \<Rightarrow> net \<Rightarrow> bool \<Rightarrow> acme_request \<Rightarrow> acme_request" where
  "read_end c N again r = (if again then read_again c N r else read_eof r)"

lemma read_loop_correct:
  "reading r0 r \<Longrightarrow> fresh r0 \<Longrightarrow> fin = [] \<or> fin = [Recv_Eof] \<Longrightarrow>
   length (recv_data r) + length (concat fs) < RECV_MAX \<Longrightarrow>
   \<exists>r'. read_loop c N (frags fs @ fin) r = Some r' \<and>
     (if response_spec r0 (recv_data r @ concat fs) = Partial
      then \<exists>r''. r' = read_end c N (fin = []) r'' \<and> reading r0 r'' \<and> recv_data r'' = recv_data r @ concat fs
      else completed (response_spec r0 (recv_data r @ concat fs)) r')"
proof (induction "length (concat fs)" arbitrary: fs r rule: less_induct)
  case less
  note rd = less(2) and fr = less(3) and fin = less(4) and len = less(5)
  obtain b where b: "r_recv r = Some b" using rd by (auto simp: reading_def)
  obtain r1 b1 where g: "read_grow r b = (True, r1, b1)" and r1: "reading r0 r1" "r_recv r1 = Some b1"
      "recv_data r1 = recv_data r" and av: "b_cap b1 - length (b_data b1) > 0"
    using read_grow_reading [OF rd fr _ b, of thesis] len by force
  have part: "response_spec r0 (recv_data r) = Partial" using rd by (simp add: reading_def)
  from av fin show ?case
  proof (cases rule: recv_frags [where fs = fs])
    case empty
    have "read_loop c N (frags fs @ fin) r = Some (read_end c N (fin = []) r1)"
      using b g empty(2) by (subst read_loop.simps) (simp add: read_end_def)
    then show ?thesis unfolding empty(1) using part r1 by auto
  next
    case (bytes bs fs')
    note rb = read_bytes_reading [OF r1(1) fr r1(2) bytes(3), unfolded r1(3)]
    have D: "recv_data r @ concat fs = (recv_data r @ bs) @ concat fs'" using bytes(1) by simp
    have stable: "response_spec r0 (recv_data r @ concat fs) = response_spec r0 (recv_data r @ bs)"
      if "response_spec r0 (recv_data r @ bs) \<noteq> Partial"
      using response_spec_stable [OF that] unfolding D .
    show ?thesis
    proof (cases "response_spec r0 (recv_data r @ bs)")
      case Partial
      with rb obtain r2 where r2: "parse_response (recv_append bs r1) = Some (NGX_AGAIN, r2)" "reading r0 r2"
        "recv_data r2 = recv_data r @ bs" by auto
      have "length (concat fs') < length (concat fs)" using bytes(1,2) by simp
      moreover have "length (recv_data r2) + length (concat fs') < RECV_MAX" using len r2(3) bytes(1) by simp
      ultimately have "\<exists>r'. read_loop c N (frags fs' @ fin) r2 = Some r' \<and>
         (if response_spec r0 (recv_data r @ concat fs) = Partial
          then \<exists>r''. r' = read_end c N (fin = []) r'' \<and> reading r0 r'' \<and> recv_data r'' = recv_data r @ concat fs
          else completed (response_spec r0 (recv_data r @ concat fs)) r')"
        unfolding D r2(3) [symmetric] by (rule less(1) [OF _ r2(2) fr fin])
      moreover have "read_loop c N (frags fs @ fin) r = read_loop c N (frags fs' @ fin) r2"
        using b g bytes(4) r2(1) by (subst read_loop.simps) simp
      ultimately show ?thesis by simp
    next
      case Bad
      with rb obtain r2 where r2: "parse_response (recv_append bs r1) = Some (NGX_ERROR, r2)"
        "completed Bad (finalize r2 NGX_ERROR)" by auto
      have "read_loop c N (frags fs @ fin) r = Some (finalize r2 NGX_ERROR)"
        using b g bytes(4) r2(1) by (subst read_loop.simps) simp
      with r2 stable Bad show ?thesis by simp
    next
      case (Full st hs d)
      with rb obtain r2 where r2: "parse_response (recv_append bs r1) = Some (NGX_DONE, r2)"
        "completed (Full st hs d) (finalize r2 NGX_OK)" by auto
      have "read_loop c N (frags fs @ fin) r = Some (finalize r2 NGX_OK)"
        using b g bytes(4) r2(1) by (subst read_loop.simps) simp
      with r2 stable Full show ?thesis by simp
    qed
  qed
qed

section \<open>Several events\<close>

fun read_events :: "acme_client \<Rightarrow> net list \<Rightarrow> acme_request \<Rightarrow> acme_request option" where
  "read_events c [] r = Some r"
| "read_events c (N # Ns) r =
     (if r_done r then Some r
      else (case read_handler c N r of None \<Rightarrow> None | Some r' \<Rightarrow> read_events c Ns r'))"

text \<open>An event in time on a healthy connection.\<close>

definition in_time :: "acme_request \<Rightarrow> net \<Rightarrow> bool" where
  "in_time r0 N \<longleftrightarrow> \<not> n_rd_timedout N \<and> n_read_event N \<and> read_remaining N r0 > 0"

lemma read_again_reading:
  assumes "reading r0 r" "in_time r0 N"
  shows "reading r0 (read_again c N r)" and "recv_data (read_again c N r) = recv_data r"
proof -
  obtain t where t: "read_again c N r = r\<lparr>r_read_timer := t\<rparr>"
    using assms by (auto simp: read_again_def in_time_def reading_def read_remaining_def Let_def)
  then show D: "recv_data (read_again c N r) = recv_data r" by (simp add: recv_data_def)
  have "recv_data (r\<lparr>r_recv := r_recv r\<rparr>) = recv_data r @ []" by simp
  from between_conn [OF _ this, where t = t] assms(1) have "between r0 (r\<lparr>r_read_timer := t\<rparr>)"
    by (simp add: reading_def)
  then show "reading r0 (read_again c N r)"
    using assms(1) D unfolding t by (simp add: reading_def)
qed

lemma read_events_correct:
  assumes "reading r0 r" "fresh r0" "in_time r0 L"
    "\<forall>(N, fs) \<in> set evs. in_time r0 N"
    "length (recv_data r) + length (concat (concat (map snd evs)) @ concat lfs) < RECV_MAX"
  shows "\<exists>r'. read_events c (map (\<lambda>(N, fs). N\<lparr>n_recv := frags fs\<rparr>) evs @ [L\<lparr>n_recv := frags lfs @ [Recv_Eof]\<rparr>]) r
      = Some r'
    \<and> completed (eof_spec r0 (recv_data r @ concat (concat (map snd evs)) @ concat lfs)) r'"
  using assms
proof (induction evs arbitrary: r)
  case Nil
  then obtain r' where r': "read_loop c (L\<lparr>n_recv := frags lfs @ [Recv_Eof]\<rparr>) (frags lfs @ [Recv_Eof]) r = Some r'"
    and out: "if response_spec r0 (recv_data r @ concat lfs) = Partial
      then \<exists>r''. r' = read_end c (L\<lparr>n_recv := frags lfs @ [Recv_Eof]\<rparr>) False r'' \<and> reading r0 r''
        \<and> recv_data r'' = recv_data r @ concat lfs
      else completed (response_spec r0 (recv_data r @ concat lfs)) r'"
    using read_loop_correct [of r0 r "[Recv_Eof]" lfs c "L\<lparr>n_recv := frags lfs @ [Recv_Eof]\<rparr>"]
    by (auto simp del: if_split cong: if_cong)
  have "completed (eof_spec r0 (recv_data r @ concat lfs)) r'"
  proof (cases "response_spec r0 (recv_data r @ concat lfs)")
    case Partial
    with out obtain r'' where "r' = read_eof r''" "reading r0 r''" "recv_data r'' = recv_data r @ concat lfs"
      by (auto simp: read_end_def)
    then show ?thesis using read_eof_correct [of r0 r''] Nil.prems(2) by simp
  qed (use out in \<open>simp_all add: eof_spec_def\<close>)
  moreover have "\<not> r_done r" using Nil.prems(1) by (simp add: reading_def)
  ultimately show ?case using r' Nil.prems(3) by (simp add: read_handler_def in_time_def)
next
  case (Cons ev evs)
  obtain N fs where ev: "ev = (N, fs)" by fastforce
  let ?N = "N\<lparr>n_recv := frags fs\<rparr>"
  let ?rest = "concat (concat (map snd evs)) @ concat lfs"
  have N: "in_time r0 N" "in_time r0 ?N" using Cons.prems(4) ev by (simp_all add: in_time_def read_remaining_def)
  obtain r' where r': "read_loop c ?N (frags fs @ []) r = Some r'"
    and out: "if response_spec r0 (recv_data r @ concat fs) = Partial
      then \<exists>r''. r' = read_end c ?N True r'' \<and> reading r0 r'' \<and> recv_data r'' = recv_data r @ concat fs
      else completed (response_spec r0 (recv_data r @ concat fs)) r'"
    using read_loop_correct [of r0 r "[]" fs c ?N] Cons.prems ev
    by (auto simp del: if_split cong: if_cong)
  have h: "\<not> r_done r" "read_handler c ?N r = Some r'"
    using Cons.prems(1) r' N by (simp_all add: reading_def read_handler_def in_time_def)
  show ?case
  proof (cases "response_spec r0 (recv_data r @ concat fs) = Partial")
    case True
    with out obtain r'' where r'': "r' = read_again c ?N r''" "reading r0 r''" "recv_data r'' = recv_data r @ concat fs"
      by (auto simp: read_end_def)
    note again = read_again_reading [OF r''(2) N(2), of c]
    have "\<exists>q. read_events c (map (\<lambda>(N, fs). N\<lparr>n_recv := frags fs\<rparr>) evs @ [L\<lparr>n_recv := frags lfs @ [Recv_Eof]\<rparr>]) r'
        = Some q \<and> completed (eof_spec r0 (recv_data r' @ ?rest)) q"
      using Cons.IH [of r'] again r'' Cons.prems ev by auto
    with h again r'' ev show ?thesis by simp
  next
    case False
    then have "eof_spec r0 ((recv_data r @ concat fs) @ ?rest) = response_spec r0 (recv_data r @ concat fs)"
      using response_spec_stable [OF False, of ?rest] unfolding eof_spec_def
      by (cases "response_spec r0 (recv_data r @ concat fs)") simp_all
    moreover have "completed (response_spec r0 (recv_data r @ concat fs)) r'" using out False by simp
    moreover from this have "r_done r'" by (simp add: completed_def)
    then have "read_events c Ns r' = Some r'" for Ns by (cases Ns) simp_all
    ultimately show ?thesis using h ev by simp
  qed
qed

end
