(* ===== verification/Acme_Messages.thy ===== *)
theory Acme_Messages
  imports Acme_Read Ident
begin

text \<open>
  Messages on the wire: what is read back from a well-formed response in each of the three
  framings, and what the requests look like that are written.
\<close>

section \<open>Decimal numbers\<close>

lemma cutoff_eq:
  "0 \<le> u \<Longrightarrow> u \<le> 9 \<Longrightarrow>
   (n \<ge> NGX_MAX_INT div 10 \<and> (n > NGX_MAX_INT div 10 \<or> u > NGX_MAX_INT mod 10)) \<longleftrightarrow>
   n > (NGX_MAX_INT - u) div 10"
  by (cases "u \<le> 7") auto

lemma ngx_atoi_loop_number: "ngx_atoi_loop cs n = number_int_loop cs n" if "0 \<le> n" "n \<le> NGX_MAX_INT"
  using that
proof (induction cs arbitrary: n)
  case (Cons c cs)
  show ?case
  proof (cases "c < 0x30 \<or> c > 0x39")
    case False
    have d: "0 \<le> uint (c - 0x30)" "uint (c - 0x30) \<le> 9"
    proof -
      have "unat (c - 0x30) \<le> 9" using False by (auto simp: unat_sub not_less word_le_nat_alt)
      then have "int (unat (c - 0x30)) \<le> 9" by (simp only: of_nat_le_numeral_iff)
      then show "uint (c - 0x30) \<le> 9" by simp
    qed simp
    have "(n \<ge> NGX_MAX_INT div 10 \<and> (n > NGX_MAX_INT div 10 \<or> uint (c - 0x30) > NGX_MAX_INT mod 10))
        \<longleftrightarrow> n > (NGX_MAX_INT - uint (c - 0x30)) div 10"
      by (rule cutoff_eq) (use d in auto)
    moreover have "n * 10 + uint (c - 0x30) \<le> NGX_MAX_INT"
      if "\<not> n > (NGX_MAX_INT - uint (c - 0x30)) div 10" using that by simp
    ultimately show ?thesis using False Cons d by simp
  qed simp
qed simp

lemma ngx_atoi_correct:
  "ngx_atoi ds = (if ds \<noteq> [] \<and> list_all is_digit ds \<and> decimal ds < 2 ^ 63 then Some (int (decimal ds)) else None)"
  using number_int_loop_eq [of "[]" ds] ngx_atoi_loop_number [of 0 ds] by (auto simp: ngx_atoi_def)

lemma ngx_atoof_atoi: "ngx_atoof = ngx_atoi"
  by (rule ext) (simp add: ngx_atoof_def ngx_atoi_def)

lemma digit_byte: "k < 10 \<Longrightarrow> is_digit (0x30 + word_of_nat k) \<and> digit_val (0x30 + word_of_nat k) = k"
  by (auto simp: byte_class_unat digit_val_def unat_word_ariths unat_of_nat)

lemma dec_correct: "list_all is_digit (dec n) \<and> decimal (dec n) = n \<and> dec n \<noteq> []"
proof (induction n rule: dec.induct)
  case (1 n)
  show ?case
  proof (cases "n < 10")
    case True
    then show ?thesis using digit_byte [of n] by (subst (1 2 3) dec.simps) (simp add: decimal_def)
  next
    case False
    then show ?thesis using 1 digit_byte [of "n mod 10"] by (subst (1 2 3) dec.simps) simp
  qed
qed

lemma ngx_atoof_dec: "n < 2 ^ 63 \<Longrightarrow> ngx_atoof (dec n) = Some (int n)"
  using dec_correct [of n] by (simp add: ngx_atoof_atoi ngx_atoi_correct)

lemma length_dec: "n < 10 ^ k \<Longrightarrow> 0 < k \<Longrightarrow> length (dec n) \<le> k"
proof (induction n arbitrary: k rule: dec.induct)
  case (1 n)
  show ?case
  proof (cases "n < 10")
    case True
    with 1(3) show ?thesis by (subst dec.simps) simp
  next
    case False
    then obtain j where k: "k = Suc j" "0 < j" using 1(2) by (cases k; cases "k - 1") auto
    have "length (dec (n div 10)) \<le> j" using 1 False k by (simp add: div_less_iff_less_mult mult.commute)
    with False k show ?thesis by (subst dec.simps) simp
  qed
qed

section \<open>The end of the headers\<close>

lemma occurs_CC: "occurs_at hay (CRLF @ CRLF) j \<longleftrightarrow> occurs_at hay CRLF j \<and> occurs_at hay CRLF (j + 2)"
proof -
  have "take 4 (drop j hay) = take 2 (drop j hay) @ take 2 (drop (j + 2) hay)"
    using take_add [of 2 2 "drop j hay"] by (simp add: add.commute)
  note split = this
  show ?thesis
  proof (cases "2 \<le> length (drop j hay)")
    case True
    then have "length (take 2 (drop j hay)) = length CRLF" by simp
    with split show ?thesis by (simp add: occurs_at_def)
  next
    case False
    then have "take 2 (drop j hay) \<noteq> CRLF" "take 4 (drop j hay) \<noteq> CRLF @ CRLF"
      by (auto dest: arg_cong [where f = length])
    then show ?thesis by (simp add: occurs_at_def)
  qed
qed

text \<open>The lines of a message: none is empty, an empty line ends them.\<close>

definition line_text :: "bytes list \<Rightarrow> bytes" where
  "line_text ls = concat (map (\<lambda>l. l @ CRLF) ls)"

definition lines_ok :: "bytes list \<Rightarrow> bool" where
  "lines_ok ls \<longleftrightarrow> (\<forall>l \<in> set ls. crlf_free l \<and> l \<noteq> [])"

lemma line_text_simps [simp]: "line_text [] = []" "line_text (l # ls) = l @ CRLF @ line_text ls"
  by (simp_all add: line_text_def)

lemma occurs_drop: "occurs_at (l @ x) nd (length l + j) = occurs_at x nd j"
  by (simp add: occurs_at_def)

lemma memmem_line_text:
  "lines_ok ls \<Longrightarrow> ls \<noteq> [] \<Longrightarrow>
   memmem (line_text ls @ CRLF @ x) (CRLF @ CRLF) = Some (length (line_text ls) - 2)"
proof (induction ls)
  case (Cons l ls)
  then have l: "crlf_free l" "l \<noteq> []" "lines_ok ls" by (simp_all add: lines_ok_def)
  let ?rest = "line_text ls @ CRLF @ x"
  have first: "\<not> occurs_at (l @ CRLF @ ?rest) CRLF j" if "j < length l" for j
    using memmem_line [OF l(1), of ?rest] that by (simp add: memmem_Some)
  have after: "\<not> occurs_at (l @ CRLF @ ?rest) CRLF (length l + 1)"
    using occurs_drop [of l "CRLF @ ?rest" CRLF 1] by (simp add: occurs_at_def CRLF_def)
  show ?case
  proof (cases ls)
    case Nil
    have "occurs_at (l @ CRLF @ CRLF @ x) (CRLF @ CRLF) (length l)" by (simp add: occurs_at_def)
    moreover have "\<not> occurs_at (l @ CRLF @ CRLF @ x) (CRLF @ CRLF) j" if "j < length l" for j
      using first [OF that] Nil by (simp add: occurs_CC)
    ultimately show ?thesis using Nil by (simp add: memmem_Some)
  next
    case (Cons l' ls')
    with l(3) have l': "crlf_free l'" "l' \<noteq> []" by (simp_all add: lines_ok_def)
    have "\<not> occurs_at (l @ CRLF @ ?rest) (CRLF @ CRLF) j" if lt: "j < length l + 2" for j
    proof -
      consider "j < length l" | "j = length l" | "j = length l + 1" using lt by linarith
      then show ?thesis
      proof cases
        case 2
        have "\<not> occurs_at ?rest CRLF 0"
          using memmem_line [OF l'(1), of "line_text ls' @ CRLF @ x"] l'(2) Cons by (simp add: memmem_Some)
        moreover have "occurs_at (l @ CRLF @ ?rest) CRLF (length l + 2) = occurs_at ?rest CRLF 0"
          using occurs_drop [of "l @ CRLF" ?rest CRLF 0] by simp
        ultimately show ?thesis using 2 by (simp add: occurs_CC)
      qed (use first after in \<open>simp_all add: occurs_CC\<close>)
    qed
    then have "memmem (l @ CRLF @ ?rest) (CRLF @ CRLF)
        = map_option ((+) (length l + 2)) (memmem (drop (length l + 2) (l @ CRLF @ ?rest)) (CRLF @ CRLF))"
      by (intro memmem_resume) simp_all
    also have "drop (length l + 2) (l @ CRLF @ ?rest) = ?rest" by simp
    also have "memmem ?rest (CRLF @ CRLF) = Some (length (line_text ls) - 2)"
      using Cons.IH [OF l(3)] Cons by simp
    finally show ?thesis using Cons by simp
  qed
qed simp

section \<open>Header fields\<close>

definition field_line :: "bytes \<times> bytes \<Rightarrow> bytes" where
  "field_line f = fst f @ c_colon # 0x20 # snd f"

definition field_ok :: "bytes \<times> bytes \<Rightarrow> bool" where
  "field_ok f \<longleftrightarrow> fst f \<noteq> [] \<and> c_colon \<notin> set (fst f) \<and> crlf_free (field_line f)
     \<and> (snd f = [] \<or> \<not> is_lws (hd (snd f)) \<and> \<not> is_lws (last (snd f)))"

definition names_field :: "string \<Rightarrow> bytes \<times> bytes \<Rightarrow> bool" where
  "names_field name f \<longleftrightarrow> map lower (fst f) = map lower (str name)"

definition plain_field :: "bytes \<times> bytes \<Rightarrow> bool" where
  "plain_field f \<longleftrightarrow> field_ok f \<and> \<not> names_field ''Content-Length'' f \<and> \<not> names_field ''Transfer-Encoding'' f"

lemma occurs_byte: "occurs_at hay [c] j \<longleftrightarrow> j < length hay \<and> hay ! j = c"
proof (cases "j < length hay")
  case True
  then have "drop j hay = hay ! j # drop (Suc j) hay" by (simp add: Cons_nth_drop_Suc)
  with True show ?thesis by (simp add: occurs_at_def)
qed (simp add: occurs_at_def)

lemma memmem_byte: "c \<notin> set n \<Longrightarrow> memmem (n @ c # w) [c] = Some (length n)"
  by (auto simp: memmem_Some occurs_byte nth_append in_set_conv_nth)

lemma trim_id:
  assumes "v = [] \<or> \<not> is_lws (hd v) \<and> \<not> is_lws (last v)"
  shows "dropWhile is_lws v = v" "rev (dropWhile is_lws (rev v)) = v"
proof -
  show "dropWhile is_lws v = v" using assms by (cases v) auto
  show "rev (dropWhile is_lws (rev v)) = v" using assms by (cases v rule: rev_cases) auto
qed

lemma capture_header_field:
  assumes "field_ok f" "r_pool r = []" "r_headers r = Some hs"
  shows "capture_header (field_line f) r = (NGX_OK, r\<lparr>r_headers := Some (hs @ [f])\<rparr>)"
proof -
  have sp: "is_lws 0x20" by (simp add: is_lws_def)
  have "memmem (field_line f) [c_colon] = Some (length (fst f))"
    using assms(1) memmem_byte [of c_colon "fst f" "0x20 # snd f"] by (simp add: field_line_def field_ok_def)
  moreover have "drop (length (fst f) + 1) (field_line f) = 0x20 # snd f" "take (length (fst f)) (field_line f) = fst f"
    by (simp_all add: field_line_def)
  moreover have "dropWhile is_lws (0x20 # snd f) = snd f" "rev (dropWhile is_lws (rev (snd f))) = snd f"
    using trim_id [of "snd f"] assms(1) sp by (simp_all add: field_ok_def)
  moreover have "r\<lparr>r_pool := [], r_headers := Some (hs @ [f])\<rparr> = r\<lparr>r_headers := Some (hs @ [f])\<rparr>"
    using assms(2) by (cases r) simp
  ultimately show ?thesis
    using assms by (simp add: capture_header_def field_ok_def Let_def)
qed

lemma strncasecmp_take: "n \<le> length s1 \<Longrightarrow> ngx_strncasecmp_eq s1 s2 n = ngx_strncasecmp_eq (take n s1) s2 n"
  by (induction s1 s2 n rule: ngx_strncasecmp_eq.induct) auto

lemma lower_colon [simp]: "lower c = c_colon \<longleftrightarrow> c = c_colon"
  by (auto simp: byte_class_defs split: if_splits)

lemma has_prefix_colon:
  assumes "c_colon \<notin> set n" "c_colon \<notin> set P" "0 \<notin> set P"
  shows "has_prefix (n @ c_colon # w) (P @ [c_colon]) \<longleftrightarrow> map lower n = map lower P \<and> w \<noteq> []"
proof -
  let ?l = "n @ c_colon # w" and ?k = "length P + 1"
  have eq: "ngx_strncasecmp_eq ?l (P @ [c_colon]) ?k \<longleftrightarrow> map lower (take ?k ?l) = map lower P @ [c_colon]"
    if "?k \<le> length ?l"
  proof -
    have "lower c_colon = c_colon" by simp
    moreover have "ngx_strncasecmp_eq (take ?k ?l) (P @ [c_colon]) ?k \<longleftrightarrow> map lower (take ?k ?l) = map lower (P @ [c_colon])"
      by (rule strncasecmp_nul_free) (use that assms in auto)
    ultimately show ?thesis using strncasecmp_take [OF that, of "P @ [c_colon]"] by (simp only: map_append list.map)
  qed
  show ?thesis
  proof (cases "length n = length P")
    case True
    then have "take ?k ?l = n @ [c_colon]" by simp
    with True eq show ?thesis by (auto simp: has_prefix_def)
  next
    case False
    have "map lower (take ?k ?l) \<noteq> map lower P @ [c_colon]" if le: "?k \<le> length ?l"
    proof
      assume e: "map lower (take ?k ?l) = map lower P @ [c_colon]"
      consider "length n < length P" | "length P < length n" using False by linarith
      then show False
      proof cases
        case 1
        then have "map lower (take ?k ?l) ! length n = c_colon" using le by (simp add: nth_append)
        with 1 e have "lower (P ! length n) = c_colon" by (simp add: nth_append)
        with 1 assms(2) show False by (simp add: in_set_conv_nth)
      next
        case 2
        then have "map lower (take ?k ?l) ! length P = lower (n ! length P)" by (simp add: nth_append)
        with e have "lower (n ! length P) = c_colon" by (simp add: nth_append)
        with 2 assms(1) show False by (auto simp: in_set_conv_nth)
      qed
    qed
    with eq have "\<not> has_prefix ?l (P @ [c_colon])" by (auto simp: has_prefix_def)
    moreover have "map lower n \<noteq> map lower P" using False map_eq_imp_length_eq by blast
    ultimately show ?thesis by simp
  qed
qed

lemma has_prefix_field:
  assumes "field_ok f" "c_colon \<notin> set (str name)" "0 \<notin> set (str name)"
  shows "has_prefix (field_line f) (str (name @ '':'')) \<longleftrightarrow> names_field name f"
proof -
  have "str (name @ '':'') = str name @ [c_colon]" by (simp add: str_def)
  then show ?thesis
    using has_prefix_colon [of "fst f" "str name" "0x20 # snd f"] assms
    by (simp add: field_line_def names_field_def field_ok_def)
qed

lemmas framing_prefix =
  has_prefix_field [of _ "''Content-Length''", simplified] has_prefix_field [of _ "''Transfer-Encoding''", simplified]

lemma interpret_plain: "plain_field f \<Longrightarrow> interpret_header (field_line f) r = (NGX_OK, r)"
  by (simp add: interpret_header_def plain_field_def framing_prefix)

lemma interpret_length:
  assumes "field_ok f" "names_field ''Content-Length'' f" "snd f = dec n" "n < 2 ^ 63" "r_content_length r = - 1"
  shows "interpret_header (field_line f) r = (NGX_OK, r\<lparr>r_content_length := int n\<rparr>)"
proof -
  have "length (map lower (fst f)) = 14" using assms(2) by (simp add: names_field_def)
  then have "drop 15 (field_line f) = 0x20 # dec n" using assms(3) by (simp add: field_line_def)
  moreover have "dropWhile is_lws (0x20 # dec n) = dec n"
  proof -
    have "snd f \<noteq> []" using dec_correct [of n] assms(3) by simp
    then have "dropWhile is_lws (snd f) = snd f" using trim_id(1) assms(1) by (simp add: field_ok_def)
    then show ?thesis using assms(3) by (simp add: is_lws_def)
  qed
  moreover have "length (str ''Content-Length:'') = 15" by simp
  ultimately have at: "ngx_atoof (dropWhile is_lws (drop (length (str ''Content-Length:'')) (field_line f))) = Some (int n)"
    using ngx_atoof_dec [OF assms(4)] by (simp only:)
  have pre: "has_prefix (field_line f) (str ''Content-Length:'')" using assms by (simp add: framing_prefix)
  have "\<not> (int n < 0 \<or> r_content_length r \<ge> 0 \<and> r_content_length r \<noteq> int n)" using assms(5) by simp
  then show ?thesis unfolding interpret_header_def by (simp only: pre at if_True if_False option.case)
qed

lemma interpret_chunked:
  assumes "field_ok f" "names_field ''Transfer-Encoding'' f" "map lower (snd f) = str ''chunked''"
  shows "interpret_header (field_line f) r = (NGX_OK, r\<lparr>r_chunked := True\<rparr>)"
proof -
  have "length (map lower (fst f)) = 17" and ncl: "\<not> names_field ''Content-Length'' f"
    using assms(2) by (auto simp: names_field_def dest: arg_cong [where f = length])
  then have "drop 18 (field_line f) = 0x20 # snd f" by (simp add: field_line_def)
  moreover have "length (map lower (snd f)) = 7" by (simp only: assms(3)) simp
  then have v: "length (snd f) = 7" "snd f \<noteq> []" by auto
  then have "dropWhile is_lws (0x20 # snd f) = snd f"
    using trim_id(1) [of "snd f"] assms(1) by (simp add: field_ok_def is_lws_def)
  moreover have "ngx_strncasecmp_eq (snd f) (str ''chunked'') 7"
    using strncasecmp_nul_free [of "str ''chunked''" "snd f" 7] v assms(3) by (simp add: lower_def is_upper_def)
  ultimately show ?thesis
    using assms ncl v by (simp add: interpret_header_def framing_prefix eval_nat_numeral)
qed

lemma headers_loop_field:
  assumes "field_ok f" "r_pool r = []" "r_headers r = Some hs"
    "interpret_header (field_line f) (r\<lparr>r_headers := Some (hs @ [f])\<rparr>) = (NGX_OK, r')"
  shows "headers_loop (field_line f @ CRLF @ rest) r = headers_loop rest r'"
proof -
  have "crlf_free (field_line f)" using assms(1) by (simp add: field_ok_def)
  then show ?thesis
    using assms(4) capture_header_field [OF assms(1-3)] by (subst headers_loop.simps) (simp add: Let_def)
qed

lemma headers_loop_plain:
  "list_all plain_field fs \<Longrightarrow> r_pool r = [] \<Longrightarrow> r_headers r = Some hs \<Longrightarrow>
   headers_loop (line_text (map field_line fs) @ rest) r = headers_loop rest (r\<lparr>r_headers := Some (hs @ fs)\<rparr>)"
proof (induction fs arbitrary: r hs)
  case (Cons f fs)
  let ?r = "r\<lparr>r_headers := Some (hs @ [f])\<rparr>"
  have "headers_loop (field_line f @ CRLF @ line_text (map field_line fs) @ rest) r
      = headers_loop (line_text (map field_line fs) @ rest) ?r"
    using Cons.prems by (intro headers_loop_field) (simp_all add: plain_field_def interpret_plain)
  also have "\<dots> = headers_loop rest (?r\<lparr>r_headers := Some ((hs @ [f]) @ fs)\<rparr>)"
    using Cons.prems by (intro Cons.IH) simp_all
  finally show ?case by simp
next
  case Nil
  then show ?case by (cases r) simp
qed

lemma headers_loop_Nil [simp]: "headers_loop [] r = (NGX_OK, r)"
  by (simp add: headers_loop.simps)

text \<open>One framing field among plain ones.\<close>

lemma headers_loop_framed:
  assumes "list_all plain_field fs1" "list_all plain_field fs2" "field_ok f" "r_pool r = []" "r_headers r = Some []"
    and int: "\<And>hs. interpret_header (field_line f) (r\<lparr>r_headers := hs\<rparr>) = (NGX_OK, upd_f (r\<lparr>r_headers := hs\<rparr>))"
    and upd: "\<And>s. r_headers (upd_f s) = r_headers s" "\<And>s. r_pool (upd_f s) = r_pool s"
      "\<And>s hs. upd_f (s\<lparr>r_headers := hs\<rparr>) = (upd_f s)\<lparr>r_headers := hs\<rparr>"
  shows "headers_loop (line_text (map field_line (fs1 @ f # fs2))) r
    = (NGX_OK, (upd_f r)\<lparr>r_headers := Some (fs1 @ f # fs2)\<rparr>)"
proof -
  let ?r = "r\<lparr>r_headers := Some fs1\<rparr>"
  have split: "line_text (map field_line (fs1 @ f # fs2))
      = line_text (map field_line fs1) @ field_line f @ CRLF @ line_text (map field_line fs2)"
    by (simp add: line_text_def)
  have "headers_loop (line_text (map field_line fs1) @ field_line f @ CRLF @ line_text (map field_line fs2)) r
      = headers_loop (field_line f @ CRLF @ line_text (map field_line fs2)) ?r"
    using headers_loop_plain [OF assms(1,4,5)] by simp
  also have "\<dots> = headers_loop (line_text (map field_line fs2)) (upd_f (?r\<lparr>r_headers := Some (fs1 @ [f])\<rparr>))"
    using int [of "Some (fs1 @ [f])"] assms(4) by (intro headers_loop_field [OF assms(3)]) simp_all
  also have "\<dots> = (NGX_OK, (upd_f (?r\<lparr>r_headers := Some (fs1 @ [f])\<rparr>))\<lparr>r_headers := Some ((fs1 @ [f]) @ fs2)\<rparr>)"
    using headers_loop_plain [OF assms(2), of "upd_f (?r\<lparr>r_headers := Some (fs1 @ [f])\<rparr>)" "fs1 @ [f]" "[]"] assms(4)
    by (simp add: upd)
  finally show ?thesis unfolding split by (simp add: upd(3))
qed

section \<open>Responses\<close>

text \<open>
  The bytes of a response: a status line, header fields, an empty line and the body bytes.
  \<open>framed fs B d\<close>: with the fields \<open>fs\<close> the bytes \<open>B\<close> carry the body
  \<open>d\<close>, by a length, by chunks or up to the end of the stream.
\<close>

definition status_text :: "byte \<Rightarrow> bytes \<Rightarrow> bytes \<Rightarrow> bytes" where
  "status_text ver st reason = str ''HTTP/1.'' @ [ver, 0x20] @ st @ reason"

definition status_ok :: "byte \<Rightarrow> bytes \<Rightarrow> bytes \<Rightarrow> bool" where
  "status_ok ver st reason \<longleftrightarrow>
     (ver = 0x30 \<or> ver = 0x31) \<and> length st = 3 \<and> list_all is_digit st
     \<and> 100 \<le> decimal st \<and> decimal st \<le> 599 \<and> crlf_free (status_text ver st reason)"

definition response_text :: "byte \<Rightarrow> bytes \<Rightarrow> bytes \<Rightarrow> (bytes \<times> bytes) list \<Rightarrow> bytes \<Rightarrow> bytes" where
  "response_text ver st reason fs B = line_text (status_text ver st reason # map field_line fs) @ CRLF @ B"

inductive framed :: "(bytes \<times> bytes) list \<Rightarrow> bytes \<Rightarrow> bytes \<Rightarrow> bool" where
  by_close: "list_all plain_field fs \<Longrightarrow> framed fs d d"
| by_length: "list_all plain_field fs1 \<Longrightarrow> list_all plain_field fs2 \<Longrightarrow> field_ok f \<Longrightarrow>
    names_field ''Content-Length'' f \<Longrightarrow> snd f = dec (length d) \<Longrightarrow> length d < 2 ^ 63 \<Longrightarrow>
    framed (fs1 @ f # fs2) (d @ x) d"
| by_chunks: "list_all plain_field fs1 \<Longrightarrow> list_all plain_field fs2 \<Longrightarrow> field_ok f \<Longrightarrow>
    names_field ''Transfer-Encoding'' f \<Longrightarrow> map lower (snd f) = str ''chunked'' \<Longrightarrow> chunked_body m d \<Longrightarrow>
    framed (fs1 @ f # fs2) (m @ x) d"

lemma framed_fields: "framed fs B d \<Longrightarrow> list_all field_ok fs"
  by (induction rule: framed.induct) (auto simp: list_all_iff plain_field_def)

text \<open>The header parser on such a response.\<close>

lemma parse_headers_text:
  assumes st: "status_ok ver st reason" and fs: "list_all field_ok fs" and pool: "r_pool r = []"
    and loop: "headers_loop (line_text (map field_line fs))
        (r\<lparr>r_body_offset := h, r_status := decimal st, r_headers := Some []\<rparr>) = (NGX_OK, r1)"
    and one: "\<not> (r_chunked r1 \<and> r_content_length r1 \<ge> 0)"
    and h: "h = length (line_text (status_text ver st reason # map field_line fs)) + 2"
  shows "memmem (response_text ver st reason fs B) (CRLF @ CRLF) = Some (h - 4)"
    and "parse_headers (response_text ver st reason fs B) h r = (NGX_OK, r1\<lparr>r_headers_done := True\<rparr>)"
    and "drop h (response_text ver st reason fs B) = B"
proof -
  let ?s = "status_text ver st reason" and ?D = "response_text ver st reason fs B"
  have free: "crlf_free ?s" and digs: "length st = 3" "list_all is_digit st" "100 \<le> decimal st" "decimal st \<le> 599"
    and v: "ver = 0x30 \<or> ver = 0x31" using st by (simp_all add: status_ok_def)
  have len: "length ?s \<ge> 12" using digs(1) by (simp add: status_text_def)
  have "lines_ok (?s # map field_line fs)"
    using fs free len by (auto simp: lines_ok_def list_all_iff field_ok_def field_line_def)
  from memmem_line_text [OF this, of B] show "memmem ?D (CRLF @ CRLF) = Some (h - 4)"
    by (simp add: response_text_def h)
  show "drop h ?D = B" by (simp add: response_text_def h)
  have "take h ?D = ?s @ CRLF @ line_text (map field_line fs) @ CRLF" by (simp add: response_text_def h)
  then have m: "memmem (take h ?D) CRLF = Some (length ?s)" using free by simp
  have f: "drop (length ?s + length CRLF) (take (h - length CRLF) ?D) = line_text (map field_line fs)"
    by (simp add: response_text_def h)
  have D: "?D = str ''HTTP/1.'' @ ver # 0x20 # st @ reason @ CRLF @ line_text (map field_line fs) @ CRLF @ B"
    by (simp add: response_text_def status_text_def)
  have sl: "status_line_ok ?D (length ?s)"
    using v len unfolding status_line_ok_def D by simp
  have "take 3 (drop 9 ?D) = st" unfolding D using digs(1) by simp
  moreover have "(10::nat) ^ 3 = 1000" by simp
  ultimately have a: "ngx_atoi (take 3 (drop 9 ?D)) = Some (int (decimal st))"
    using digs by (auto simp: ngx_atoi_correct)
  have r: "r\<lparr>r_body_offset := h, r_status := decimal st, r_pool := [], r_headers := Some []\<rparr>
      = r\<lparr>r_body_offset := h, r_status := decimal st, r_headers := Some []\<rparr>"
    using pool by (cases r) simp
  have "parse_fields (line_text (map field_line fs)) (r\<lparr>r_body_offset := h, r_status := decimal st\<rparr>)
      = (NGX_OK, r1\<lparr>r_headers_done := True\<rparr>)"
    using loop one pool by (simp add: parse_fields_def r)
  with digs show "parse_headers ?D h r = (NGX_OK, r1\<lparr>r_headers_done := True\<rparr>)"
    unfolding parse_headers_def Let_def m option.case f a by (simp add: sl)
qed

lemma eof_spec_text:
  assumes "fresh r" "status_ok ver st reason" "framed fs B d"
  shows "eof_spec r (response_text ver st reason fs B) = Full (decimal st) (Some fs) d"
proof -
  define h where "h = length (line_text (status_text ver st reason # map field_line fs)) + 2"
  have h4: "h - 4 + 4 = h" by (simp add: h_def)
  have pool: "r_pool r = []" and cl: "r_content_length r = - 1" and ch: "\<not> r_chunked r"
    using assms(1) by (simp_all add: fresh_def)
  let ?r = "r\<lparr>r_body_offset := h, r_status := decimal st, r_headers := Some []\<rparr>"
  note fs = framed_fields [OF assms(3)]
  note ph = parse_headers_text [OF assms(2) fs pool _ _ h_def, where B = B]
  from assms(3) show ?thesis
  proof cases
    case by_close
    have "headers_loop (line_text (map field_line fs)) ?r = (NGX_OK, ?r\<lparr>r_headers := Some fs\<rparr>)"
      using headers_loop_plain [OF by_close(2), of ?r "[]" "[]"] pool by simp
    from ph [OF this] cl ch by_close(1) h4 show ?thesis
      by (simp add: eof_spec_def response_spec_def body_spec_def)
  next
    case (by_length fs1 fs2 f x)
    have "headers_loop (line_text (map field_line fs)) ?r
        = (NGX_OK, (?r\<lparr>r_content_length := int (length d)\<rparr>)\<lparr>r_headers := Some fs\<rparr>)"
      unfolding by_length(1)
      by (rule headers_loop_framed [OF by_length(3,4,5), where upd_f = "\<lambda>s. s\<lparr>r_content_length := int (length d)\<rparr>"])
        (use by_length pool cl in \<open>simp_all add: interpret_length\<close>)
    from ph [OF this] ch by_length(2) h4 show ?thesis
      by (simp add: eof_spec_def response_spec_def body_spec_def)
  next
    case (by_chunks fs1 fs2 f m x)
    have "headers_loop (line_text (map field_line fs)) ?r = (NGX_OK, (?r\<lparr>r_chunked := True\<rparr>)\<lparr>r_headers := Some fs\<rparr>)"
      unfolding by_chunks(1)
      by (rule headers_loop_framed [OF by_chunks(3,4,5), where upd_f = "\<lambda>s. s\<lparr>r_chunked := True\<rparr>"])
        (use by_chunks pool in \<open>simp_all add: interpret_chunked\<close>)
    from ph [OF this] cl by_chunks(2) h4 chunked_body_spec [OF by_chunks(8), of x] show ?thesis
      by (simp add: eof_spec_def response_spec_def body_spec_def)
  qed
qed

end
