(* ===== verification/Acme_Machine.thy ===== *)
theory Acme_Machine
  imports Acme_Messages
begin

text \<open>
  The life of a request as a machine: the events that can be delivered to it after it was
  started, in any order the armed handlers allow, with any answers of the network.
\<close>

section \<open>Events\<close>

datatype acme_event = Ev_Start | Ev_Resolved | Ev_Connected | Ev_Handshaked | Ev_Writable | Ev_Readable | Ev_Cancel

fun enabled :: "acme_event \<Rightarrow> acme_request \<Rightarrow> bool" where
  "enabled Ev_Start r = False"
| "enabled Ev_Resolved r = (r_phase r = Resolving)"
| "enabled Ev_Connected r = (r_phase r = Connecting)"
| "enabled Ev_Handshaked r = (r_phase r = Handshaking)"
| "enabled Ev_Writable r = (r_phase r = Exchanging)"
| "enabled Ev_Readable r = (r_phase r = Exchanging)"
| "enabled Ev_Cancel r = True"

fun deliver :: "acme_client \<Rightarrow> acme_event \<Rightarrow> net \<Rightarrow> acme_request \<Rightarrow> acme_request option" where
  "deliver c Ev_Start N r = None"
| "deliver c Ev_Resolved N r = resolve_handler c N r"
| "deliver c Ev_Connected N r = connect_handler c N r"
| "deliver c Ev_Handshaked N r = ssl_handshake_handler c N r"
| "deliver c Ev_Writable N r = write_handler c N r"
| "deliver c Ev_Readable N r = read_handler c N r"
| "deliver c Ev_Cancel N r = Some (cancel_inflight r)"

text \<open>A request as its owner hands it over.\<close>

definition initial :: "acme_request \<Rightarrow> bool" where
  "initial r \<longleftrightarrow>
     \<not> r_done r \<and> r_calls r = [] \<and> \<not> r_inflight r \<and> \<not> r_resolve r \<and> \<not> r_connection r \<and> r_phase r = Idle
     \<and> r_sent r = [] \<and> r_send r = None \<and> r_recv r = None \<and> r_read_timer r = None
     \<and> \<not> r_headers_done r \<and> r_dechunk_pos r = 0 \<and> r_dechunk_state r = DECHUNK_CHUNKS
     \<and> length (r_body r) < 10 ^ 20"

inductive acme_run :: "acme_client \<Rightarrow> acme_request \<Rightarrow> (acme_event \<times> net) list \<Rightarrow> acme_request \<Rightarrow> bool"
  for c r0 where
  run_start: "request_start c N r0 = Some (NGX_OK, r) \<Longrightarrow> acme_run c r0 [(Ev_Start, N)] r"
| run_step: "acme_run c r0 evs r \<Longrightarrow> enabled ev r \<Longrightarrow> deliver c ev N r = Some r' \<Longrightarrow>
    acme_run c r0 (evs @ [(ev, N)]) r'"

section \<open>Invariants\<close>

definition base :: "acme_request \<Rightarrow> bool" where
  "base r \<longleftrightarrow> \<not> r_done r \<and> r_calls r = [] \<and> r_port r \<le> 65535 \<and> length (r_body r) < 10 ^ 20"

definition unparsed :: "acme_request \<Rightarrow> bool" where
  "unparsed r \<longleftrightarrow> \<not> r_headers_done r \<and> r_dechunk_pos r = 0 \<and> r_dechunk_state r = DECHUNK_CHUNKS"

text \<open>Before the request is written.\<close>

definition quiet :: "acme_request \<Rightarrow> bool" where
  "quiet r \<longleftrightarrow> base r \<and> unparsed r \<and> r_sent r = [] \<and> r_recv r = None"

definition resumable :: "acme_request \<Rightarrow> bool" where
  "resumable r \<longleftrightarrow> (if r_headers_done r then r_chunked r \<longrightarrow> dechunk_ready r else unparsed r)"

definition receiving :: "acme_request \<Rightarrow> bool" where
  "receiving r \<longleftrightarrow>
     base r \<and> r_phase r = Exchanging \<and> r_connection r \<and> \<not> r_resolve r \<and> r_inflight r \<and> resumable r
     \<and> (\<exists>b. r_recv r = Some b \<and> length (b_data b) \<le> b_cap b \<and> b_cap b \<le> RECV_MAX)"

definition sending :: "acme_request \<Rightarrow> bool" where
  "sending r \<longleftrightarrow>
     base r \<and> r_phase r = Exchanging \<and> r_connection r \<and> \<not> r_resolve r \<and> r_inflight r \<and> unparsed r
     \<and> r_recv r = None \<and> r_send r \<noteq> None"

definition waiting :: "acme_request \<Rightarrow> bool" where
  "waiting r \<longleftrightarrow>
     quiet r \<and> r_inflight r
     \<and> (r_phase r = Resolving \<and> r_resolve r \<and> \<not> r_connection r
        \<or> (r_phase r = Connecting \<or> r_phase r = Handshaking) \<and> r_connection r \<and> \<not> r_resolve r)"

definition finished :: "acme_request \<Rightarrow> bool" where
  "finished r \<longleftrightarrow>
     r_done r \<and> \<not> r_inflight r \<and> \<not> r_resolve r \<and> \<not> r_connection r \<and> r_phase r = Idle \<and> r_read_timer r = None
     \<and> length (r_calls r) \<le> 1"

lemma finalize_finished: "base r \<Longrightarrow> finished (finalize r rc) \<and> r_calls (finalize r rc) = [rc]"
  by (simp add: base_def finished_def finalize_def)

lemma finalize_sent [simp]: "r_sent (finalize r rc) = r_sent r" "r_host_is_ip (finalize r rc) = r_host_is_ip r"
  by (simp_all add: finalize_def)

section \<open>The parser never leaves its buffers\<close>

lemma parse_body_safe:
  assumes "r_headers_done r" "r_chunked r \<Longrightarrow> dechunk_ready r"
  obtains rc r' where "parse_body r = Some (rc, r')" "keeps r r'" "rc = NGX_AGAIN \<longrightarrow> resumable r'"
    "rc = NGX_AGAIN \<or> rc = NGX_DONE \<or> rc = NGX_ERROR"
proof (cases "r_chunked r")
  case False
  have "\<exists>rc r'. parse_body r = Some (rc, r') \<and> keeps r r' \<and> (rc = NGX_AGAIN \<longrightarrow> resumable r')
      \<and> (rc = NGX_AGAIN \<or> rc = NGX_DONE \<or> rc = NGX_ERROR)"
    using False assms(1) by (simp add: parse_body_def resumable_def keeps_updates)
  then show thesis using that by blast
next
  case True
  note ready = assms(2) [OF True]
  have pb: "parse_body r = dechunk r" using True by (simp add: parse_body_def)
  note ok = dechunk_correct [OF ready]
  show thesis
  proof (cases "chunked_spec (drop (r_body_offset r) (recv_data r))")
    case Incomplete
    with ok obtain r' where r': "dechunk r = Some (NGX_AGAIN, r')" "cursor_only r r'" "dechunk_at (recv_data r) r'"
      by (auto simp: dechunk_ok_def)
    note f = cursor_only_fields [OF r'(2)]
    have "resumable r'" using ready r'(3) f assms(1) by (auto simp: resumable_def dechunk_ready_def)
    then show thesis using that [of NGX_AGAIN r'] r' pb keeps_cursor by simp
  next
    case Malformed
    with ok obtain r' where "dechunk r = Some (NGX_ERROR, r')" "cursor_only r r'" by (auto simp: dechunk_ok_def)
    then show thesis using that [of NGX_ERROR r'] pb keeps_cursor by simp
  next
    case (Complete d)
    obtain ok' pool where a: "alloc_next (r_pool r) = (ok', pool)" by fastforce
    with ok Complete obtain r' where "cursor_only r r'"
      "dechunk r = (if ok' then Some (NGX_DONE, r'\<lparr>r_pool := pool, r_body_out := d\<rparr>)
                    else Some (NGX_ERROR, r'\<lparr>r_pool := pool\<rparr>))"
      by (cases ok') (auto simp: dechunk_ok_def)
    then show thesis
      using that pb keeps_cursor keeps_updates by (cases ok') (fastforce+)
  qed
qed

lemma parse_response_safe:
  assumes "resumable r"
  obtains rc r' where "parse_response r = Some (rc, r')" "keeps r r'" "rc = NGX_AGAIN \<longrightarrow> resumable r'"
    "rc = NGX_AGAIN \<or> rc = NGX_DONE \<or> rc = NGX_ERROR"
proof (cases "r_headers_done r")
  case True
  with assms have "r_chunked r \<Longrightarrow> dechunk_ready r" by (simp add: resumable_def)
  from parse_body_safe [OF True this] True that show thesis by (auto simp: parse_response_def)
next
  case False
  with assms have un: "unparsed r" by (simp add: resumable_def)
  define frm where "frm = (if r_hdr_scan_pos r > 3 then r_hdr_scan_pos r - 3 else 0)"
  show thesis
  proof (cases "memmem (drop frm (recv_data r)) (CRLF @ CRLF)")
    case None
    then have "parse_response r = Some (NGX_AGAIN, r\<lparr>r_hdr_scan_pos := length (recv_data r)\<rparr>)"
      using False by (simp add: parse_response_def Let_def flip: frm_def)
    moreover have "resumable (r\<lparr>r_hdr_scan_pos := length (recv_data r)\<rparr>)"
      using un by (simp add: resumable_def unparsed_def)
    ultimately show thesis using that keeps_updates(3) [OF keeps_refl] by blast
  next
    case (Some j)
    then have le: "frm + j + 4 \<le> length (recv_data r)" using memmem_le [OF Some] by simp
    obtain rc r1 where ph: "parse_headers (recv_data r) (frm + j + 4) r = (rc, r1)" by fastforce
    have k: "keeps r r1" using keeps_parse_headers [of r "recv_data r" "frm + j + 4"] ph by simp
    show thesis
    proof (cases "rc = NGX_OK")
      case True
      obtain cd s where s: "fields_only (r\<lparr>r_body_offset := frm + j + 4, r_status := cd\<rparr>) s" "r1 = s\<lparr>r_headers_done := True\<rparr>"
        using parse_headers_OK [OF ph [unfolded True]] by blast
      have "recv_data r1 = recv_data r" using k by (simp add: keeps_def recv_data_def)
      then have "dechunk_ready r1" "r_headers_done r1"
        using fields_only_fields [OF s(1)] s(2) un le by (simp_all add: dechunk_ready_def unparsed_def)
      moreover have "parse_response r = parse_body r1"
        using False Some ph True by (simp add: parse_response_def Let_def flip: frm_def)
      ultimately show thesis using parse_body_safe [of r1] that keeps_trans [OF k] by metis
    next
      case bad: False
      then have "parse_response r = Some (NGX_ERROR, r1)"
        using False Some ph by (cases rc) (simp_all add: parse_response_def Let_def flip: frm_def)
      then show thesis using that k by blast
    qed
  qed
qed

lemma resumable_append: "resumable r \<Longrightarrow> r_recv r = Some b \<Longrightarrow> resumable (recv_append bs r)"
proof -
  assume a: "resumable r" "r_recv r = Some b"
  have D: "recv_data (recv_append bs r) = recv_data r @ bs" using recv_append_data [OF a(2)] .
  have "dechunk_ready (recv_append bs r)" if "dechunk_ready r"
    using that dechunk_at_append [of "recv_data r" r bs] D
    by (auto simp: dechunk_ready_def) (simp_all add: recv_append_def)
  with a(1) show ?thesis by (auto simp: resumable_def unparsed_def recv_append_def split: if_splits)
qed

section \<open>Reading\<close>

lemma resumable_timer [simp]: "resumable (r\<lparr>r_read_timer := t\<rparr>) = resumable r"
  by (simp add: resumable_def unparsed_def dechunk_ready_def recv_data_def cong: if_cong)

text \<open>The read timer is set, and fires before the deadline of the whole read.\<close>

definition timed :: "acme_client \<Rightarrow> net \<Rightarrow> acme_request \<Rightarrow> bool" where
  "timed c N r \<longleftrightarrow>
     0 < read_remaining N r
     \<and> (\<exists>t. r_read_timer r = Some t \<and> t \<le> r_read_deadline r - n_now N \<and> t \<le> timeout c)"

text \<open>The result of a handler: the request is finished, or waits for more with a timer.\<close>

definition read_result :: "acme_client \<Rightarrow> net \<Rightarrow> acme_request \<Rightarrow> acme_request \<Rightarrow> bool" where
  "read_result c N r r' \<longleftrightarrow>
     r_sent r' = r_sent r \<and> r_host_is_ip r' = r_host_is_ip r \<and>
     (finished r' \<and> r_calls r' \<noteq> [] \<or> receiving r' \<and> timed c N r' \<and> r_read_deadline r' = r_read_deadline r)"

lemma read_result_finalize: "base s \<Longrightarrow> r_sent s = r_sent r \<Longrightarrow> r_host_is_ip s = r_host_is_ip r \<Longrightarrow>
  read_result c N r (finalize s rc)"
  using finalize_finished [of s rc] by (simp add: read_result_def)

lemma read_again_result: "receiving r \<Longrightarrow> read_result c N r (read_again c N r)"
proof -
  assume r: "receiving r"
  show ?thesis
  proof (cases "read_remaining N r \<le> 0 \<or> \<not> n_read_event N")
    case True
    have "base r" "\<And>t. base (r\<lparr>r_read_timer := t\<rparr>)" using r by (simp_all add: receiving_def base_def)
    with True show ?thesis
      by (auto simp: read_again_def Let_def intro!: read_result_finalize)
  next
    case False
    have "word_of_int (read_remaining N r) = r_read_deadline r - n_now N" by (simp add: read_remaining_def)
    then have eq: "read_again c N r = r\<lparr>r_read_timer := Some (min (r_read_deadline r - n_now N) (timeout c))\<rparr>" (is "_ = ?r")
      using False by (simp add: read_again_def Let_def)
    have "receiving ?r"
      using r by (simp add: receiving_def base_def)
    moreover have "timed c N ?r" using False by (simp add: timed_def read_remaining_def)
    ultimately show ?thesis unfolding eq read_result_def by simp
  qed
qed

lemma read_eof_result: "receiving r \<Longrightarrow> read_result c N r (read_eof r)"
  unfolding read_eof_def by (auto intro!: read_result_finalize simp: receiving_def base_def)

lemma read_grow_result:
  assumes "receiving r" "r_recv r = Some b"
  shows "case read_grow r b of
      (False, r', b') \<Rightarrow> read_result c N r r'
    | (True, r', b') \<Rightarrow> receiving r' \<and> r_recv r' = Some b' \<and> r_sent r' = r_sent r \<and> r_host_is_ip r' = r_host_is_ip r
        \<and> r_read_deadline r' = r_read_deadline r"
proof -
  have b: "base r" "length (b_data b) \<le> b_cap b" "b_cap b \<le> RECV_MAX" using assms by (auto simp: receiving_def)
  obtain ok pool where a: "alloc_next (r_pool r) = (ok, pool)" by fastforce
  let ?nb = "b\<lparr>b_cap := RECV_MAX\<rparr>"
  have data: "recv_data (r\<lparr>r_pool := pool, r_recv := Some ?nb\<rparr>) = recv_data r"
    using assms(2) by (simp add: recv_data_def)
  have "dechunk_at D (r\<lparr>r_pool := pool, r_recv := Some ?nb\<rparr>) = dechunk_at D r" for D
    by (simp add: dechunk_at_def chunks_at_def trailers_at_def)
  then have "receiving (r\<lparr>r_pool := pool, r_recv := Some ?nb\<rparr>)"
    using assms b data by (auto simp: receiving_def base_def resumable_def unparsed_def dechunk_ready_def)
  then show ?thesis
    using assms b a
    by (cases ok) (auto simp: read_grow_def Let_def base_def intro!: read_result_finalize)
qed

lemma read_result_trans:
  "read_result c N s r' \<Longrightarrow> r_sent s = r_sent r \<Longrightarrow> r_host_is_ip s = r_host_is_ip r \<Longrightarrow>
   r_read_deadline s = r_read_deadline r \<Longrightarrow> read_result c N r r'"
  by (auto simp: read_result_def)

lemma read_loop_result: "receiving r \<Longrightarrow> \<exists>r'. read_loop c N sock r = Some r' \<and> read_result c N r r'"
proof (induction c N sock r rule: read_loop.induct)
  case (1 c N sock r)
  obtain b where b: "r_recv r = Some b" using 1(4) by (auto simp: receiving_def)
  obtain more r1 b1 where g: "read_grow r b = (more, r1, b1)" by (metis surj_pair)
  note gr = read_grow_result [OF 1(4) b, of c N, unfolded g]
  show ?case
  proof (cases more)
    case False
    with b g gr show ?thesis by (subst read_loop.simps) simp
  next
    case True
    with gr have r1: "receiving r1" "r_recv r1 = Some b1" and same: "r_sent r1 = r_sent r"
        "r_host_is_ip r1 = r_host_is_ip r" "r_read_deadline r1 = r_read_deadline r" by simp_all
    note tr = read_result_trans [OF _ same]
    obtain ans sock' where rv: "recv (b_cap b1 - length (b_data b1)) sock = (ans, sock')" by fastforce
    show ?thesis
    proof (cases ans)
      case Recv_Again
      with b g True rv tr [OF read_again_result [OF r1(1)]] show ?thesis by (subst read_loop.simps) simp
    next
      case Recv_Error
      have "read_result c N r (finalize r1 NGX_ERROR)"
        using r1 same by (intro read_result_finalize) (simp_all add: receiving_def)
      with b g True rv Recv_Error show ?thesis by (subst read_loop.simps) simp
    next
      case Recv_Eof
      with b g True rv tr [OF read_eof_result [OF r1(1)]] show ?thesis by (subst read_loop.simps) simp
    next
      case (Recv_Bytes bs)
      let ?r = "recv_append bs r1"
      have "resumable ?r" using resumable_append r1 by (auto simp: receiving_def)
      then obtain rc r2 where pr: "parse_response ?r = Some (rc, r2)" "keeps ?r r2" "rc = NGX_AGAIN \<longrightarrow> resumable r2"
          "rc = NGX_AGAIN \<or> rc = NGX_DONE \<or> rc = NGX_ERROR" by (rule parse_response_safe)
      have len: "length bs \<le> b_cap b1 - length (b_data b1)"
        using recv_pending [of "b_cap b1 - length (b_data b1)" sock bs sock'] rv Recv_Bytes by simp
      have base2: "base r2" and same2: "r_sent r2 = r_sent r" "r_host_is_ip r2 = r_host_is_ip r"
          "r_read_deadline r2 = r_read_deadline r"
        using pr(2) r1 same by (simp_all add: keeps_def receiving_def base_def recv_append_def)
      show ?thesis
      proof (cases "rc = NGX_AGAIN")
        case again: True
        have rec2: "receiving r2"
          using pr r1 again len base2 by (auto simp: receiving_def keeps_def recv_append_def)
        have "\<exists>r'. read_loop c N sock' r2 = Some r' \<and> read_result c N r2 r'"
          using 1(3) [OF b g [symmetric] _ refl rv [symmetric] Recv_Bytes pr(1)] rec2 again True by blast
        with b g True rv Recv_Bytes pr again read_result_trans [OF _ same2] show ?thesis
          by (subst read_loop.simps) auto
      next
        case False
        then obtain rc' where "read_loop c N sock r = Some (finalize r2 rc')"
          using b g True rv Recv_Bytes pr by (subst (asm) read_loop.simps) auto
        moreover have "read_result c N r (finalize r2 rc')"
          using base2 same2 by (intro read_result_finalize) simp_all
        ultimately show ?thesis by blast
      qed
    qed
  qed
qed

section \<open>Writing\<close>

lemma request_text_fits:
  assumes "r_port r \<le> 65535" "length (r_body r) < 10 ^ 20"
  shows "length (request_text r ct) \<le> request_len r ct"
proof -
  have "length (dec (r_port r)) \<le> 5" "length (dec (length (r_body r))) \<le> 20"
    using length_dec [of "r_port r" 5] length_dec [of "length (r_body r)" 20] assms by simp_all
  then show ?thesis
    by (simp add: request_text_def request_lines_def request_len_def NGX_OFF_T_LEN_def)
qed

lemma build_request_cases:
  assumes "base r"
  obtains pool where "build_request r = Some (NGX_ERROR, r\<lparr>r_pool := pool\<rparr>)"
  | pool where "build_request r = Some (NGX_OK, r\<lparr>r_pool := pool, r_send := Some (request_text r (request_ct r))\<rparr>)"
proof -
  obtain ok pool where "alloc_next (r_pool r) = (ok, pool)" by fastforce
  then show thesis
    using that request_text_fits [of r "request_ct r"] assms
    by (cases ok) (auto simp: build_request_def Let_def base_def not_less)
qed

lemma send_update: "\<exists>x y. r\<lparr>r_send := Some bs\<rparr> = r\<lparr>r_send := Some x, r_sent := y\<rparr>" for r :: acme_request
proof -
  have "r\<lparr>r_send := Some bs\<rparr> = r\<lparr>r_send := Some bs, r_sent := r_sent r\<rparr>" by (cases r) simp
  then show ?thesis by blast
qed

lemma send_loop_frame:
  "send_loop as bs r = (e, r') \<Longrightarrow> \<exists>x y. r' = r\<lparr>r_send := Some x, r_sent := y\<rparr>"
proof (induction as bs r rule: send_loop.induct)
  case (5 n as x rest r)
  then obtain a y where "r' = (r\<lparr>r_sent := r_sent r @ take n (x # rest)\<rparr>)\<lparr>r_send := Some a, r_sent := y\<rparr>" by auto
  then show ?case by (intro exI [of _ a] exI [of _ y]) (cases r, simp)
qed (use send_update in auto)

definition write_result :: "acme_client \<Rightarrow> net \<Rightarrow> acme_request \<Rightarrow> acme_request \<Rightarrow> bool" where
  "write_result c N r r' \<longleftrightarrow>
     r_host_is_ip r' = r_host_is_ip r
     \<and> (finished r' \<and> r_calls r' \<noteq> [] \<or> sending r' \<or> receiving r' \<and> timed c N r')"

lemma write_result_finalize: "base s \<Longrightarrow> r_host_is_ip s = r_host_is_ip r \<Longrightarrow> write_result c N r (finalize s rc)"
  using finalize_finished [of s rc] by (simp add: write_result_def)

lemma read_write_result: "read_result c N s r' \<Longrightarrow> r_host_is_ip s = r_host_is_ip r \<Longrightarrow> write_result c N r r'"
  by (auto simp: read_result_def write_result_def)

lemma read_handler_result: "receiving r \<Longrightarrow> \<exists>r'. read_handler c N r = Some r' \<and> read_result c N r r'"
  using read_loop_result [of r c N "n_recv N"] read_result_finalize [of r r c N NGX_ERROR]
  by (auto simp: read_handler_def receiving_def)

lemma write_handler_result:
  assumes "sending r"
  shows "\<exists>r'. write_handler c N r = Some r' \<and> write_result c N r r'"
proof -
  obtain to_send where ts: "r_send r = Some to_send" "r_recv r = None" using assms by (auto simp: sending_def)
  have b: "base r" using assms by (simp add: sending_def)
  obtain e r1 where sl: "send_loop (n_send N) to_send r = (e, r1)" by fastforce
  obtain x y where r1: "r1 = r\<lparr>r_send := Some x, r_sent := y\<rparr>" using send_loop_frame [OF sl] by blast
  have s1: "sending r1" "base r1" "r_host_is_ip r1 = r_host_is_ip r"
    using assms by (simp_all add: r1 sending_def base_def unparsed_def)
  show ?thesis
  proof (cases "n_wr_timedout N")
    case True
    with ts b show ?thesis by (simp add: write_handler_def write_result_finalize)
  next
    case nt: False
    show ?thesis
    proof (cases e)
      case Send_Wait
      have "write_result c N r r1" using s1 by (simp add: write_result_def)
      with Send_Wait nt ts sl s1 show ?thesis by (simp add: write_handler_def write_result_finalize)
    next
      case Send_Failed
      with nt ts sl s1 show ?thesis by (simp add: write_handler_def write_result_finalize)
    next
      case Send_Done
      obtain ok pool where a: "alloc_next (r_pool r1) = (ok, pool)" by fastforce
      let ?r = "r1\<lparr>r_pool := pool, r_recv := Some \<lparr>b_data = [], b_cap = RECV_INIT\<rparr>,
          r_read_deadline := n_now N + READ_TOTAL, r_read_timer := Some (min READ_TOTAL (timeout c))\<rparr>"
      have rec: "receiving ?r" "base ?r" "base (r1\<lparr>r_pool := pool\<rparr>)" "r_host_is_ip ?r = r_host_is_ip r"
        using s1 by (simp_all add: sending_def receiving_def base_def resumable_def unparsed_def)
      obtain r' where rh: "read_handler c N ?r = Some r'" "read_result c N ?r r'"
        using read_handler_result [OF rec(1)] by blast
      have "write_result c N r r'" using read_write_result [OF rh(2) rec(4)] .
      with Send_Done nt ts sl a rh(1) rec s1(3) show ?thesis
        by (cases ok) (simp_all add: write_handler_def Let_def write_result_finalize)
    qed
  qed
qed

section \<open>Handshake and connection\<close>

definition tls_ok :: "net \<Rightarrow> bool \<Rightarrow> bool" where
  "tls_ok N ip \<longleftrightarrow> n_handshaked N \<and> n_verify_ok N \<and> (if ip then n_ip_ok N else n_host_ok N)"

definition live :: "acme_request \<Rightarrow> bool" where
  "live r \<longleftrightarrow> waiting r \<or> sending r \<or> receiving r"

text \<open>The result of a handler that started before any byte was sent.\<close>

definition conn_result :: "net \<Rightarrow> acme_request \<Rightarrow> acme_request \<Rightarrow> bool" where
  "conn_result N r r' \<longleftrightarrow>
     r_host_is_ip r' = r_host_is_ip r \<and> (finished r' \<and> r_calls r' \<noteq> [] \<or> live r')
     \<and> (r_sent r' \<noteq> [] \<or> r_phase r' = Exchanging \<longrightarrow> tls_ok N (r_host_is_ip r))"

lemma conn_result_finalize:
  "quiet s \<Longrightarrow> r_host_is_ip s = r_host_is_ip r \<Longrightarrow> conn_result N r (finalize s rc)"
  using finalize_finished [of s rc] by (simp add: conn_result_def quiet_def finished_def)

text \<open>A request whose connection is up, in whatever phase.\<close>

definition connected :: "acme_request \<Rightarrow> bool" where
  "connected r \<longleftrightarrow> quiet r \<and> r_connection r \<and> \<not> r_resolve r \<and> r_inflight r"

lemma ssl_handshake_handler_result:
  assumes "connected r"
  shows "\<exists>r'. ssl_handshake_handler c N r = Some r' \<and> conn_result N r r'"
proof -
  have q: "quiet r" using assms by (simp add: connected_def)
  show ?thesis
  proof (cases "n_rd_timedout N \<or> \<not> tls_ok N (r_host_is_ip r)")
    case True
    then have "ssl_handshake_handler c N r = Some (finalize r NGX_ERROR)"
      by (auto simp: ssl_handshake_handler_def tls_ok_def split: if_splits)
    with q show ?thesis by (simp add: conn_result_finalize)
  next
    case False
    let ?r = "r\<lparr>r_read_timer := None\<rparr>"
    have b: "base ?r" using q by (simp add: quiet_def base_def)
    have go: "ssl_handshake_handler c N r = (case build_request ?r of
           None \<Rightarrow> None
         | Some (NGX_OK, r1) \<Rightarrow> write_handler c N (r1\<lparr>r_phase := Exchanging\<rparr>)
         | Some (_, r1) \<Rightarrow> Some (finalize r1 NGX_ERROR))"
      using False by (auto simp: ssl_handshake_handler_def tls_ok_def split: if_splits)
    from b show ?thesis
    proof (cases rule: build_request_cases)
      case (1 pool)
      have "quiet (?r\<lparr>r_pool := pool\<rparr>)" using q by (simp add: quiet_def base_def unparsed_def)
      with 1 go show ?thesis by (simp add: conn_result_finalize)
    next
      case (2 pool)
      let ?r1 = "?r\<lparr>r_pool := pool, r_send := Some (request_text ?r (request_ct ?r)), r_phase := Exchanging\<rparr>"
      have "sending ?r1"
        using assms by (simp add: connected_def quiet_def sending_def base_def unparsed_def)
      from write_handler_result [OF this, of c N] obtain r' where "write_handler c N ?r1 = Some r'" "write_result c N ?r1 r'"
        by blast
      with 2 go False show ?thesis by (auto simp: write_result_def conn_result_def live_def)
    qed
  qed
qed

lemma ssl_init_result:
  assumes "connected r" "r_phase r = Connecting"
  shows "ssl_init c N r = Some (NGX_ERROR, r)
    \<or> (\<exists>r'. ssl_init c N r = Some (NGX_OK, r') \<and> conn_result N r r')"
proof -
  obtain r' where r': "ssl_handshake_handler c N r = Some r'" "conn_result N r r'"
    using ssl_handshake_handler_result [OF assms(1)] by blast
  have "waiting (r\<lparr>r_read_timer := Some (timeout c), r_phase := Handshaking\<rparr>)"
    using assms by (simp add: connected_def waiting_def quiet_def base_def unparsed_def)
  moreover have "r_sent r = []" using assms by (simp add: connected_def quiet_def)
  ultimately show ?thesis using r' by (auto simp: ssl_init_def conn_result_def live_def)
qed

text \<open>A request that is not connected, and no handler of it is armed.\<close>

definition ready :: "acme_request \<Rightarrow> bool" where
  "ready r \<longleftrightarrow> quiet r \<and> \<not> r_connection r \<and> \<not> r_resolve r"

lemma connect_result:
  assumes "ready r"
  shows "(\<exists>r'. connect c N r = Some (NGX_ERROR, r') \<and> ready r' \<and> r_host_is_ip r' = r_host_is_ip r
        \<and> (r_inflight r' \<longrightarrow> r_inflight r) \<and> (r_phase r' = r_phase r \<or> r_phase r' = Idle))
    \<or> (\<exists>r'. connect c N r = Some (NGX_OK, r') \<and> conn_result N r r')"
proof (cases "n_connect N")
  case Conn_OK
  let ?r = "r\<lparr>r_connection := True, r_phase := Connecting, r_inflight := True\<rparr>"
  have "connected ?r" "r_phase ?r = Connecting"
    using assms by (simp_all add: ready_def connected_def quiet_def base_def unparsed_def)
  from ssl_init_result [OF this, of c N] show ?thesis
  proof
    assume "ssl_init c N ?r = Some (NGX_ERROR, ?r)"
    then show ?thesis
      using assms Conn_OK by (simp add: connect_def ready_def quiet_def base_def unparsed_def)
  next
    assume "\<exists>r'. ssl_init c N ?r = Some (NGX_OK, r') \<and> conn_result N ?r r'"
    then show ?thesis using Conn_OK by (auto simp: connect_def conn_result_def)
  qed
next
  case Conn_Again
  then show ?thesis
    using assms
    by (simp add: connect_def conn_result_def live_def waiting_def ready_def quiet_def base_def unparsed_def)
next
  case Conn_Failed
  then show ?thesis using assms by (simp add: connect_def)
qed

lemma connect_handler_result:
  assumes "connected r" "r_phase r = Connecting"
  shows "\<exists>r'. connect_handler c N r = Some r' \<and> conn_result N r r'"
proof -
  have "quiet r" using assms by (simp add: connected_def)
  then show ?thesis
    using ssl_init_result [OF assms, of c N] by (auto simp: connect_handler_def conn_result_finalize)
qed

lemma resolve_handler_result:
  assumes "quiet r" "\<not> r_connection r"
  shows "\<exists>r'. resolve_handler c N r = Some r' \<and> conn_result N r r'"
proof -
  obtain ok pool where a: "alloc_next (r_pool r) = (ok, pool)" by fastforce
  let ?r = "r\<lparr>r_pool := pool, r_resolve := False, r_phase := Idle\<rparr>"
  have q: "quiet (r\<lparr>r_resolve := False\<rparr>)" "quiet (r\<lparr>r_pool := pool, r_resolve := False\<rparr>)" "ready ?r"
    using assms by (simp_all add: ready_def quiet_def base_def unparsed_def)
  from connect_result [OF q(3), of c N]
  have "\<exists>r'. (case connect c N ?r of None \<Rightarrow> None | Some (NGX_OK, r1) \<Rightarrow> Some r1
      | Some (_, r1) \<Rightarrow> Some (finalize r1 NGX_ERROR)) = Some r' \<and> conn_result N r r'"
  proof
    assume "\<exists>r'. connect c N ?r = Some (NGX_ERROR, r') \<and> ready r' \<and> r_host_is_ip r' = r_host_is_ip ?r
      \<and> (r_inflight r' \<longrightarrow> r_inflight ?r) \<and> (r_phase r' = r_phase ?r \<or> r_phase r' = Idle)"
    then show ?thesis by (auto simp: ready_def conn_result_finalize)
  next
    assume "\<exists>r'. connect c N ?r = Some (NGX_OK, r') \<and> conn_result N ?r r'"
    then show ?thesis by (auto simp: conn_result_def)
  qed
  with a q show ?thesis
    by (cases ok) (auto simp: resolve_handler_def conn_result_finalize)
qed

section \<open>Starting\<close>

lemma url_port_bound: "url_port q = Some (p, q') \<Longrightarrow> p \<le> 65535"
  by (auto simp: url_port_def split: list.splits if_splits prod.splits option.splits)

lemma parse_url_frame:
  assumes "parse_url r = (rc, r')"
  shows "initial r \<Longrightarrow> initial r'" "rc = NGX_OK \<Longrightarrow> r_port r' \<le> 65535" "rc = NGX_OK \<or> rc = NGX_ERROR"
  using assms url_port_bound unfolding parse_url_def
  by (auto simp: Let_def initial_def split: if_splits prod.splits option.splits bool.splits)

lemma request_start_result:
  assumes "initial r0"
  shows "(\<exists>r. request_start c N r0 = Some (NGX_ERROR, r) \<and> \<not> r_done r \<and> r_calls r = [] \<and> \<not> r_inflight r
        \<and> \<not> r_connection r \<and> \<not> r_resolve r \<and> r_phase r = Idle \<and> r_sent r = [])
    \<or> (\<exists>r. request_start c N r0 = Some (NGX_OK, r) \<and> (finished r \<and> r_calls r \<noteq> [] \<or> live r)
        \<and> (r_sent r \<noteq> [] \<or> r_phase r = Exchanging \<longrightarrow> tls_ok N (r_host_is_ip r)))"
proof -
  define r1 where "r1 = (if length (r_method r0) = 0 then r0\<lparr>r_method := str ''GET''\<rparr> else r0)"
  obtain rc r2 where pu: "parse_url r1 = (rc, r2)" by fastforce
  have "initial r1" using assms by (simp add: initial_def r1_def)
  then have i2: "initial r2" using parse_url_frame(1) [OF pu] by blast
  let ?r3 = "r2\<lparr>r_content_length := -1, r_host_is_ip := n_is_literal N (r_host r2)\<rparr>"
  have err: "\<not> r_done r \<and> r_calls r = [] \<and> \<not> r_inflight r \<and> \<not> r_connection r \<and> \<not> r_resolve r
      \<and> r_phase r = Idle \<and> r_sent r = []" if "initial r" for r
    using that by (simp add: initial_def)
  have i3: "initial ?r3" using i2 by (simp add: initial_def)
  show ?thesis
  proof (cases "rc = NGX_OK \<and> check_origin (Some c) r2 = NGX_OK")
    case False
    then have "request_start c N r0 = Some (NGX_ERROR, r2)"
      using pu parse_url_frame [OF pu] by (auto simp: request_start_def Let_def r1_def)
    then show ?thesis using err [OF i2] by simp
  next
    case True
    then have port: "r_port r2 \<le> 65535" using parse_url_frame [OF pu] by simp
    have rdy: "ready ?r3" using i2 port by (simp add: ready_def quiet_def base_def unparsed_def initial_def)
    have go: "request_start c N r0 =
        (if n_is_literal N (r_host r2) then connect c N ?r3
         else if \<not> has_resolver c then Some (NGX_ERROR, ?r3)
         else if \<not> n_resolve_start N then Some (NGX_ERROR, ?r3)
         else let r4 = ?r3\<lparr>r_resolve := True, r_phase := Resolving, r_inflight := True\<rparr> in
           (case n_resolve_name N of
              Res_Error \<Rightarrow> Some (NGX_ERROR, r4\<lparr>r_inflight := False, r_resolve := False, r_phase := Idle\<rparr>)
            | Res_Pending \<Rightarrow> Some (NGX_OK, r4)
            | Res_Sync \<Rightarrow> map_option (\<lambda>r'. (NGX_OK, r')) (resolve_handler c N r4)))"
      using pu True by (simp add: request_start_def r1_def)
    show ?thesis
    proof (cases "n_is_literal N (r_host r2)")
      case lit: True
      from connect_result [OF rdy, of c N] show ?thesis
      proof
        assume "\<exists>r'. connect c N ?r3 = Some (NGX_ERROR, r') \<and> ready r' \<and> r_host_is_ip r' = r_host_is_ip ?r3
          \<and> (r_inflight r' \<longrightarrow> r_inflight ?r3) \<and> (r_phase r' = r_phase ?r3 \<or> r_phase r' = Idle)"
        then show ?thesis
          using go lit i3 by (auto simp: ready_def quiet_def base_def initial_def)
      next
        assume "\<exists>r'. connect c N ?r3 = Some (NGX_OK, r') \<and> conn_result N ?r3 r'"
        then show ?thesis using go lit by (auto simp: conn_result_def)
      qed
    next
      case dns: False
      let ?r4 = "?r3\<lparr>r_resolve := True, r_phase := Resolving, r_inflight := True\<rparr>"
      have q4: "quiet ?r4" "\<not> r_connection ?r4" "waiting ?r4"
        using rdy by (simp_all add: ready_def quiet_def base_def unparsed_def waiting_def)
      obtain r' where rh: "resolve_handler c N ?r4 = Some r'" "conn_result N ?r4 r'"
        using resolve_handler_result [OF q4(1,2)] by blast
      show ?thesis
      proof (cases "has_resolver c \<and> n_resolve_start N")
        case False
        then show ?thesis using go dns err [OF i3] by auto
      next
        case res: True
        show ?thesis
        proof (cases "n_resolve_name N")
          case Res_Error
          then show ?thesis using go dns res err [OF i3] by simp
        next
          case Res_Pending
          then show ?thesis using go dns res q4 by (auto simp: live_def quiet_def)
        next
          case Res_Sync
          then show ?thesis using go dns res rh by (auto simp: conn_result_def)
        qed
      qed
    qed
  qed
qed

section \<open>The machine\<close>

definition acme_inv :: "(acme_event \<times> net) list \<Rightarrow> acme_request \<Rightarrow> bool" where
  "acme_inv evs r \<longleftrightarrow> (finished r \<or> live r)
     \<and> (finished r \<and> r_calls r = [] \<longrightarrow> Ev_Cancel \<in> fst ` set evs)
     \<and> (r_sent r \<noteq> [] \<or> r_phase r = Exchanging \<longrightarrow> (\<exists>(ev, N) \<in> set evs. tls_ok N (r_host_is_ip r)))"

lemma deliver_result:
  assumes "acme_inv evs r" "enabled ev r" "\<not> (ev = Ev_Readable \<and> r_recv r = None)"
  shows "\<exists>r'. deliver c ev N r = Some r' \<and> acme_inv (evs @ [(ev, N)]) r'"
proof -
  have not_both: "\<not> (finished r \<and> live r)" for r
    by (auto simp: finished_def live_def waiting_def quiet_def base_def sending_def receiving_def)
  have keep: "acme_inv (evs @ [(ev, N)]) r'"
    if "finished r' \<and> (r_calls r' \<noteq> [] \<or> ev = Ev_Cancel) \<or> live r'" "r_host_is_ip r' = r_host_is_ip r"
      "r_sent r' \<noteq> [] \<or> r_phase r' = Exchanging \<Longrightarrow>
        r_sent r \<noteq> [] \<or> r_phase r = Exchanging \<or> tls_ok N (r_host_is_ip r)" for r'
    using that assms(1) not_both by (auto simp: acme_inv_def)
  have conn: "acme_inv (evs @ [(ev, N)]) r'" if "conn_result N r r'" for r'
    using keep [of r'] that by (auto simp: conn_result_def)
  have fl: "finished r \<or> live r" using assms(1) by (simp add: acme_inv_def)
  show ?thesis
  proof (cases ev)
    case Ev_Start
    with assms(2) show ?thesis by simp
  next
    case Ev_Resolved
    with assms(2) fl have "quiet r" "\<not> r_connection r"
      by (auto simp: finished_def live_def waiting_def sending_def receiving_def)
    from resolve_handler_result [OF this, of c N] conn Ev_Resolved show ?thesis by auto
  next
    case Ev_Connected
    with assms(2) fl have "connected r" "r_phase r = Connecting"
      by (auto simp: finished_def live_def waiting_def sending_def receiving_def connected_def)
    from connect_handler_result [OF this, of c N] conn Ev_Connected show ?thesis by auto
  next
    case Ev_Handshaked
    with assms(2) fl have "connected r"
      by (auto simp: finished_def live_def waiting_def sending_def receiving_def connected_def)
    from ssl_handshake_handler_result [OF this, of c N] conn Ev_Handshaked show ?thesis by auto
  next
    case Ev_Writable
    with assms(2) fl have "sending r \<or> receiving r"
      by (auto simp: finished_def live_def waiting_def)
    then show ?thesis
    proof
      assume s: "sending r"
      obtain r' where r': "write_handler c N r = Some r'" "write_result c N r r'"
        using write_handler_result [OF s] by blast
      moreover have "r_phase r = Exchanging" using s by (simp add: sending_def)
      ultimately show ?thesis using keep [of r'] Ev_Writable by (auto simp: write_result_def live_def)
    next
      assume "receiving r"
      then have "write_handler c N r = Some r" by (auto simp: receiving_def write_handler_def)
      then show ?thesis using keep [of r] \<open>receiving r\<close> Ev_Writable by (auto simp: live_def)
    qed
  next
    case Ev_Readable
    with assms(2,3) fl have "receiving r" by (auto simp: finished_def live_def waiting_def sending_def)
    from read_handler_result [OF this, of c N] obtain r' where "read_handler c N r = Some r'" "read_result c N r r'" by blast
    moreover have "r_phase r = Exchanging" using Ev_Readable assms(2) by simp
    ultimately show ?thesis using keep [of r'] Ev_Readable by (auto simp: read_result_def live_def)
  next
    case Ev_Cancel
    have "finished (cancel_inflight r)"
      using fl by (auto simp: cancel_inflight_def finished_def live_def waiting_def sending_def receiving_def quiet_def base_def)
    then show ?thesis using keep [of "cancel_inflight r"] Ev_Cancel by (simp add: cancel_inflight_def split: if_splits)
  qed
qed

lemma acme_run_inv: "acme_run c r0 evs r \<Longrightarrow> initial r0 \<Longrightarrow> acme_inv evs r"
proof (induction rule: acme_run.induct)
  case (run_start N r)
  have "finished r \<and> r_calls r \<noteq> [] \<or> live r" "r_sent r \<noteq> [] \<or> r_phase r = Exchanging \<longrightarrow> tls_ok N (r_host_is_ip r)"
    using request_start_result [OF run_start(2), of c N] run_start(1) by auto
  moreover have "\<not> (finished r \<and> live r)"
    by (auto simp: finished_def live_def waiting_def quiet_def base_def sending_def receiving_def)
  ultimately show ?case by (auto simp: acme_inv_def)
next
  case (run_step evs r ev N r')
  show ?case
  proof (cases "ev = Ev_Readable \<and> r_recv r = None")
    case True
    then have "n_rd_timedout N" "r' = finalize r NGX_ERROR"
      using run_step(3) by (auto simp: read_handler_def read_loop.simps split: if_splits)
    moreover have "base r" "r_phase r = Exchanging"
      using run_step True by (auto simp: acme_inv_def finished_def live_def waiting_def sending_def receiving_def)
    ultimately show ?thesis
      using finalize_finished [of r NGX_ERROR] run_step(4) [OF run_step(5)] by (auto simp: acme_inv_def)
  next
    case False
    with deliver_result [OF run_step(4) [OF run_step(5)] run_step(2), of c N] run_step(3) show ?thesis by auto
  qed
qed

section \<open>An example\<close>

text \<open>
  A request to a CA at a literal address that answers in one piece, and the same request
  when the socket takes only the first bytes of it.
\<close>

definition demo_client :: acme_client where
  "demo_client = \<lparr>timeout = 30000, has_resolver = True, origin_host = [], origin_port = 0,
     origin_is_ipv6 = False, origin_pinned = False\<rparr>"

definition demo_request :: acme_request where
  "demo_request = zero_request\<lparr>r_method := str ''GET'', r_url := str ''https://127.0.0.1/dir''\<rparr>"

definition demo_net :: net where
  "demo_net = \<lparr>n_now = 1000, n_ev_timedout = False, n_rd_timedout = False, n_wr_timedout = False,
     n_is_literal = (\<lambda>_. True), n_resolve_start = True, n_resolve_name = Res_Pending, n_resolve_state = 0,
     n_naddrs = 1, n_connect = Conn_OK, n_so_error = False, n_write_event = True, n_read_event = True,
     n_ssl_create = True, n_ssl_sni = True, n_ssl_again = False, n_handshaked = True, n_verify_ok = True,
     n_ip_ok = True, n_host_ok = False, n_send = [Sent 5, Sent 1000], n_recv = []\<rparr>"

definition demo_slow :: net where
  "demo_slow = demo_net\<lparr>n_send := [Sent 5, Send_Again]\<rparr>"

lemma demo_initial: "initial demo_request"
  by (simp add: initial_def demo_request_def zero_request_def)

text \<open>The state after the start, in the two cases.\<close>

definition demo_state :: "net \<Rightarrow> acme_request" where
  "demo_state N = (case request_start demo_client N demo_request of Some (_, r) \<Rightarrow> r | None \<Rightarrow> demo_request)"

lemma demo_parse_url:
  "parse_url demo_request =
     (NGX_OK, demo_request\<lparr>r_host := str ''127.0.0.1'', r_port := 443, r_uri := str ''/dir''\<rparr>)"
  by (simp add: parse_url_def demo_request_def zero_request_def https_scheme_def url_host_def url_port_def url_uri_def
      ngx_tolower_def Let_def)

lemma demo_fields:
  "r_method demo_request = str ''GET''" "r_body demo_request = []" "r_content_type demo_request = []"
  "r_pool demo_request = []" "r_host_is_ipv6 demo_request = False" "r_recv demo_request = None"
  "r_sent demo_request = []" "r_done demo_request = False" "r_calls demo_request = []" "r_phase demo_request = Idle"
  by (simp_all add: demo_request_def zero_request_def)

lemmas demo_defs =
  request_start_def demo_parse_url check_origin_def connect_def ssl_init_def ssl_handshake_handler_def
  build_request_def request_ct_def request_text_def request_len_def request_lines_def write_handler_def
  read_handler_def read_loop.simps read_grow_def read_again_def read_remaining_def finalize_def Let_def CRLF_def
  demo_client_def demo_net_def demo_slow_def demo_fields

lemma demo_start:
  "\<exists>r. request_start demo_client demo_net demo_request = Some (NGX_OK, r) \<and>
     r_sent r \<noteq> [] \<and> r_phase r = Exchanging \<and> r_recv r \<noteq> None \<and> \<not> r_done r"
  by (simp add: demo_defs)

lemma demo_start_read:
  "\<exists>r r'. request_start demo_client demo_net demo_request = Some (NGX_OK, r) \<and> r_phase r = Exchanging
     \<and> r_recv r \<noteq> None \<and> deliver demo_client Ev_Readable demo_net r = Some r' \<and> \<not> r_done r'"
  by (simp add: demo_defs)

lemma demo_start_slow:
  "\<exists>r. request_start demo_client demo_slow demo_request = Some (NGX_OK, r) \<and> r_phase r = Exchanging \<and> r_recv r = None"
  by (simp add: demo_defs)

section \<open>What holds of every request\<close>



text \<open>
  Claim C36.  Nothing of a request is written to a connection before its TLS handshake is
  complete, the certificate chain of the peer verified and the certificate matched against
  the host of the URL (against the address when the host is a literal address).
\<close>

theorem acme_sends_only_verified:
  assumes "initial r0" "acme_run c r0 evs r" "r_sent r \<noteq> []"
  shows "\<exists>(ev, N) \<in> set evs. n_handshaked N \<and> n_verify_ok N \<and> (if r_host_is_ip r then n_ip_ok N else n_host_ok N)"
  using acme_run_inv [OF assms(2,1)] assms(3) by (auto simp: acme_inv_def tls_ok_def)

theorem acme_sends_only_verified_witness:
  "\<exists>r. acme_run demo_client demo_request [(Ev_Start, demo_net)] r \<and> r_sent r \<noteq> []
     \<and> (\<exists>(ev, N) \<in> set [(Ev_Start, demo_net)].
          n_handshaked N \<and> n_verify_ok N \<and> (if r_host_is_ip r then n_ip_ok N else n_host_ok N))"
proof -
  obtain r where "request_start demo_client demo_net demo_request = Some (NGX_OK, r)" "r_sent r \<noteq> []"
    using demo_start by blast
  then have "acme_run demo_client demo_request [(Ev_Start, demo_net)] r" "r_sent r \<noteq> []"
    by (simp_all add: run_start)
  then show ?thesis using acme_sends_only_verified [OF demo_initial] by blast
qed

text \<open>
  Claim C38.  Every event is handled without undefined behaviour, whatever the network
  answers and whichever allocations fail, with one exception: a read event that arrives
  while the request is only partly written makes the read handler use the receive buffer,
  which is not allocated yet.
\<close>

theorem acme_events_defined:
  assumes "initial r0" "acme_run c r0 evs r" "enabled ev r"
  shows "deliver c ev N r = None \<longleftrightarrow> ev = Ev_Readable \<and> r_recv r = None \<and> \<not> n_rd_timedout N"
proof (cases "ev = Ev_Readable \<and> r_recv r = None")
  case True
  then show ?thesis by (auto simp: read_handler_def read_loop.simps)
next
  case False
  with deliver_result [OF acme_run_inv [OF assms(2,1)] assms(3), of c N] show ?thesis by auto
qed

theorem acme_events_defined_witness:
  "\<exists>r. acme_run demo_client demo_request [(Ev_Start, demo_slow)] r \<and> enabled Ev_Readable r
     \<and> deliver demo_client Ev_Readable demo_net r = None \<and> deliver demo_client Ev_Writable demo_net r \<noteq> None"
proof -
  obtain r where "request_start demo_client demo_slow demo_request = Some (NGX_OK, r)"
    and r: "r_phase r = Exchanging" "r_recv r = None"
    using demo_start_slow by blast
  then have run: "acme_run demo_client demo_request [(Ev_Start, demo_slow)] r" by (simp add: run_start)
  have en: "enabled Ev_Readable r" "enabled Ev_Writable r" using r by simp_all
  note ok = acme_events_defined [OF demo_initial run]
  have "deliver demo_client Ev_Readable demo_net r = None"
    using ok [OF en(1), of demo_net] r by (simp add: demo_net_def)
  moreover have "deliver demo_client Ev_Writable demo_net r \<noteq> None"
    using ok [OF en(2), of demo_net] by simp
  ultimately show ?thesis using run en by blast
qed

text \<open>
  A read event that does not complete the request leaves the receive buffer
  within its maximum of 256 KiB and the read timer set to fire no later than the deadline of
  the whole read, which it does not move and which has not passed: a peer that keeps sending
  single bytes cannot hold the request beyond the deadline.
\<close>

theorem acme_read_bounded:
  assumes "initial r0" "acme_run c r0 evs r" "enabled Ev_Readable r" "r_recv r \<noteq> None"
    "deliver c Ev_Readable N r = Some r'" "\<not> r_done r'"
  shows "\<exists>b t. r_recv r' = Some b \<and> length (b_data b) \<le> b_cap b \<and> b_cap b \<le> RECV_MAX
    \<and> r_read_timer r' = Some t \<and> t \<le> r_read_deadline r' - n_now N \<and> t \<le> timeout c
    \<and> 0 < sint (r_read_deadline r' - n_now N) \<and> r_read_deadline r' = r_read_deadline r"
proof -
  have "receiving r"
    using acme_run_inv [OF assms(2,1)] assms(3,4)
    by (auto simp: acme_inv_def finished_def live_def waiting_def sending_def)
  then have "read_result c N r r'" using read_handler_result [of r c N] assms(5) by auto
  with assms(6) have "receiving r'" "timed c N r'" "r_read_deadline r' = r_read_deadline r"
    by (auto simp: read_result_def finished_def)
  then show ?thesis by (auto simp: receiving_def timed_def read_remaining_def)
qed

theorem acme_read_bounded_witness:
  "\<exists>r r' t. acme_run demo_client demo_request [(Ev_Start, demo_net)] r
     \<and> deliver demo_client Ev_Readable demo_net r = Some r' \<and> r_read_timer r' = Some t \<and> t \<le> 30000"
proof -
  obtain r r' where st: "request_start demo_client demo_net demo_request = Some (NGX_OK, r)"
    and r: "r_phase r = Exchanging" "r_recv r \<noteq> None"
    and r': "deliver demo_client Ev_Readable demo_net r = Some r'" "\<not> r_done r'"
    using demo_start_read by blast
  have run: "acme_run demo_client demo_request [(Ev_Start, demo_net)] r" using st by (rule run_start)
  from acme_read_bounded [OF demo_initial run _ r(2) r'] r(1) run r'(1) show ?thesis
    by (auto simp: demo_client_def)
qed

end
