(* ===== verification/Acme_Properties.thy ===== *)
theory Acme_Properties
  imports Acme_Machine
begin

text \<open>
  The properties of the ACME client on the wire: what is read, what is written, and where
  it may be sent.
\<close>

section \<open>Responses\<close>

text \<open>A request that has been written and has received nothing yet.\<close>

definition written :: "acme_request \<Rightarrow> bool" where
  "written r \<longleftrightarrow> fresh r \<and> \<not> r_done r \<and> r_calls r = [] \<and> r_recv r = Some \<lparr>b_data = [], b_cap = RECV_INIT\<rparr>"

lemma written_reading: "written r \<Longrightarrow> reading r r" and written_data: "written r \<Longrightarrow> recv_data r = []"
proof -
  assume w: "written r"
  then show D: "recv_data r = []" by (simp add: written_def recv_data_def)
  have "memmem [] (CRLF @ CRLF) = None" by (simp add: memmem_def CRLF_def)
  with w D show "reading r r"
    by (simp add: reading_def between_def scanning_def written_def fresh_def response_spec_def)
qed

text \<open>The stream of a response as the fragments of several read events, the last of which sees the end.\<close>

definition stream_events :: "(net \<times> bytes list) list \<Rightarrow> net \<Rightarrow> bytes list \<Rightarrow> net list" where
  "stream_events evs L lfs =
     map (\<lambda>(N, fs). N\<lparr>n_recv := frags fs\<rparr>) evs @ [L\<lparr>n_recv := frags lfs @ [Recv_Eof]\<rparr>]"

definition stream_bytes :: "(net \<times> bytes list) list \<Rightarrow> bytes list \<Rightarrow> bytes" where
  "stream_bytes evs lfs = concat (concat (map snd evs)) @ concat lfs"

lemma stream_read:
  assumes "written r" "in_time r L" "\<forall>(N, fs) \<in> set evs. in_time r N" "length (stream_bytes evs lfs) < RECV_MAX"
  shows "\<exists>r'. read_events c (stream_events evs L lfs) r = Some r' \<and> completed (eof_spec r (stream_bytes evs lfs)) r'"
  using read_events_correct [OF written_reading [OF assms(1)] _ assms(2,3), of lfs c] assms(1,4)
  by (simp add: written_def written_data [OF assms(1)] stream_events_def stream_bytes_def)

text \<open>An example: a short response on a healthy connection.\<close>

definition demo_reader :: acme_request where
  "demo_reader = zero_request\<lparr>r_content_length := -1, r_recv := Some \<lparr>b_data = [], b_cap = RECV_INIT\<rparr>,
     r_read_deadline := 61000\<rparr>"

definition demo_field :: "bytes \<times> bytes" where
  "demo_field = (str ''Content-Length'', str ''2'')"

definition demo_response :: bytes where
  "demo_response = response_text 0x31 (str ''200'') (str '' OK'') [demo_field] (str ''hi'')"

lemma demo_reader_written: "written demo_reader" "in_time demo_reader demo_net"
  by (simp_all add: written_def fresh_def in_time_def read_remaining_def demo_reader_def demo_net_def zero_request_def)

lemma demo_response_length: "length demo_response < RECV_MAX"
  by (simp add: demo_response_def response_text_def status_text_def demo_field_def field_line_def line_text_def)

text \<open>
  Claim C34.  How the network splits a response does not matter: two streams of the same
  bytes (below the maximum of the buffer) give the same outcome, the same call of the
  completion handler and, when it is a success, the same status, headers and body, however
  the bytes are divided into fragments and the fragments into read events.
\<close>

theorem response_any_split:
  assumes "written r" "in_time r L" "\<forall>(N, fs) \<in> set evs. in_time r N"
    and "in_time r L'" "\<forall>(N, fs) \<in> set evs'. in_time r N"
    and same: "stream_bytes evs' lfs' = stream_bytes evs lfs" and len: "length (stream_bytes evs lfs) < RECV_MAX"
  shows "\<exists>r1 r2. read_events c (stream_events evs L lfs) r = Some r1
      \<and> read_events c (stream_events evs' L' lfs') r = Some r2
      \<and> r_done r1 \<and> r_done r2 \<and> length (r_calls r1) = 1 \<and> r_calls r2 = r_calls r1
      \<and> (r_calls r1 = [NGX_OK] \<longrightarrow>
           r_status r2 = r_status r1 \<and> r_headers r2 = r_headers r1 \<and> r_body_out r2 = r_body_out r1)"
proof -
  obtain r1 where r1: "read_events c (stream_events evs L lfs) r = Some r1"
      "completed (eof_spec r (stream_bytes evs lfs)) r1"
    using stream_read [OF assms(1-3) len] by blast
  obtain r2 where r2: "read_events c (stream_events evs' L' lfs') r = Some r2"
      "completed (eof_spec r (stream_bytes evs lfs)) r2"
    using stream_read [OF assms(1,4,5), of lfs'] len unfolding same by blast
  from r1 r2 show ?thesis
    by (cases "eof_spec r (stream_bytes evs lfs)") (simp_all add: completed_def)
qed

theorem response_any_split_witness:
  "\<exists>r1 r2. read_events demo_client (stream_events [] demo_net [demo_response]) demo_reader = Some r1
     \<and> read_events demo_client (stream_events [(demo_net, [take 7 demo_response])] demo_net [drop 7 demo_response]) demo_reader
         = Some r2
     \<and> r_calls r2 = r_calls r1"
proof -
  have "stream_bytes [(demo_net, [take 7 demo_response])] [drop 7 demo_response] = stream_bytes [] [demo_response]"
    by (simp add: stream_bytes_def)
  moreover have "length (stream_bytes [] [demo_response]) < RECV_MAX"
    using demo_response_length by (simp add: stream_bytes_def)
  ultimately show ?thesis
    using response_any_split [of demo_reader demo_net "[]" demo_net "[(demo_net, [take 7 demo_response])]"
        "[drop 7 demo_response]" "[demo_response]" demo_client] demo_reader_written by auto
qed

text \<open>
  Claim C33.  A well-formed response is delivered as it was sent: its status, its header
  fields in order and its body, whether the body is framed by a length, by chunks or by the
  end of the stream, and however it is split into reads.
\<close>

theorem response_round_trip:
  assumes "written r" "in_time r L" "\<forall>(N, fs) \<in> set evs. in_time r N"
    and "status_ok ver st reason" "framed fs B d"
    and "stream_bytes evs lfs = response_text ver st reason fs B" "length (response_text ver st reason fs B) < RECV_MAX"
  shows "\<exists>r'. read_events c (stream_events evs L lfs) r = Some r' \<and> r_calls r' = [NGX_OK]
      \<and> r_status r' = decimal st \<and> r_headers r' = Some fs \<and> r_body_out r' = d"
proof -
  have "fresh r" using assms(1) by (simp add: written_def)
  from eof_spec_text [OF this assms(4,5)] stream_read [OF assms(1-3), of lfs c] assms(6,7)
  show ?thesis by (auto simp: completed_def)
qed

theorem response_round_trip_witness:
  "\<exists>r'. read_events demo_client
       (stream_events [(demo_net, [take 7 demo_response])] demo_net [drop 7 demo_response]) demo_reader = Some r'
     \<and> r_calls r' = [NGX_OK] \<and> r_status r' = 200 \<and> r_headers r' = Some [demo_field] \<and> r_body_out r' = str ''hi''"
proof -
  have st: "status_ok 0x31 (str ''200'') (str '' OK'')"
    by (simp add: status_ok_def crlf_free_no_lf status_text_def is_digit_def decimal_def digit_val_def)
  have "field_ok demo_field"
    by (simp add: field_ok_def demo_field_def field_line_def crlf_free_no_lf is_lws_def)
  moreover have "names_field ''Content-Length'' demo_field" by (simp add: names_field_def demo_field_def)
  moreover have "snd demo_field = dec (length (str ''hi''))" by (simp add: demo_field_def dec.simps)
  ultimately have "framed ([] @ demo_field # []) (str ''hi'' @ []) (str ''hi'')"
    by (intro by_length) simp_all
  then have fr: "framed [demo_field] (str ''hi'') (str ''hi'')" by simp
  have bs: "stream_bytes [(demo_net, [take 7 demo_response])] [drop 7 demo_response] = demo_response"
    by (simp add: stream_bytes_def)
  have "decimal (str ''200'') = 200" by (simp add: decimal_def digit_val_def)
  with response_round_trip [OF demo_reader_written _ st fr, of "[(demo_net, [take 7 demo_response])]"
      "[drop 7 demo_response]" demo_client] bs demo_response_length demo_reader_written(2)
  show ?thesis unfolding demo_response_def by auto
qed



section \<open>Requests\<close>

lemma url_part_safe_set: "url_part_safe s \<longleftrightarrow> (\<forall>c \<in> set s. \<not> c < 0x21 \<and> c \<noteq> 0x7f)"
  by (induction s) auto

lemma dec_no_lf: "0x0a \<notin> set (dec n)"
  using dec_correct [of n] by (auto simp: list_all_iff is_digit_def)

lemma parse_url_parts:
  assumes "parse_url r = (NGX_OK, r')"
  shows "url_part_safe (r_host r')" "url_part_safe (r_uri r')" "r_host r' \<noteq> []" "r_uri r' \<noteq> []"
    "r_method r' = r_method r" "r_body r' = r_body r" "r_content_type r' = r_content_type r"
proof -
  have uri: "uri \<noteq> []" if "url_uri q = Some uri" for q uri
    using that by (auto simp: url_uri_def split: if_splits)
  have host: "h \<noteq> []" if "url_host q = (v6, Some (h, q'))" for q v6 h q'
    using that by (auto simp: url_host_def split: if_splits option.splits prod.splits)
  show "url_part_safe (r_host r')" "url_part_safe (r_uri r')" "r_host r' \<noteq> []" "r_uri r' \<noteq> []"
    "r_method r' = r_method r" "r_body r' = r_body r" "r_content_type r' = r_content_type r"
    using assms uri host unfolding parse_url_def
    by (auto simp: Let_def split: if_splits prod.splits option.splits bool.splits)
qed

text \<open>
  Claim C39.  A URL from the CA cannot split a request: if it is accepted, the text that is
  written consists of the lines the client composes (five, or seven with a body), none of
  them empty, the first empty line is the one before the body, and the rest is the body; and
  it fits the buffer that was sized for it.
\<close>

theorem request_not_split:
  assumes "parse_url r = (NGX_OK, r')"
    and "r_method r \<noteq> []" "0x0a \<notin> set (r_method r)" "0x0a \<notin> set (r_content_type r)" "length (r_body r) < 10 ^ 20"
  shows "let ls = request_lines r' (request_ct r') in
      request_text r' (request_ct r') = line_text ls @ CRLF @ r_body r \<and> lines_ok ls
      \<and> length ls = (if r_body r = [] then 5 else 7)
      \<and> memmem (request_text r' (request_ct r')) (CRLF @ CRLF) = Some (length (line_text ls) - 2)
      \<and> length (request_text r' (request_ct r')) \<le> request_len r' (request_ct r')"
proof -
  note parts = parse_url_parts [OF assms(1)]
  let ?ls = "request_lines r' (request_ct r')"
  have safe: "0x0a \<notin> set (r_host r')" "0x0a \<notin> set (r_uri r')"
    using parts(1,2) by (auto simp: url_part_safe_set)
  have ct: "0x0a \<notin> set (request_ct r')" using assms(4) parts(7) by (auto simp: request_ct_def)
  have "0x0a \<notin> set l \<and> l \<noteq> []" if "l \<in> set ?ls" for l
    using that safe ct assms(3) parts(5) dec_no_lf
    by (auto simp: request_lines_def split: if_splits)
  then have ok: "lines_ok ?ls" by (auto simp: lines_ok_def crlf_free_no_lf)
  have whole: "request_text r' (request_ct r') = line_text ?ls @ CRLF @ r_body r"
    by (simp add: request_text_def line_text_def parts(6))
  have "?ls \<noteq> []" by (simp add: request_lines_def)
  from memmem_line_text [OF ok this, of "r_body r"] whole ok
    request_text_fits [of r' "request_ct r'"] parse_url_frame(2) [OF assms(1)] parts(6) assms(5)
  show ?thesis by (simp add: Let_def request_lines_def)
qed

theorem request_not_split_witness:
  "\<exists>r'. parse_url demo_request = (NGX_OK, r') \<and> lines_ok (request_lines r' (request_ct r'))
     \<and> length (request_lines r' (request_ct r')) = 5"
proof -
  have "r_method demo_request \<noteq> []" "0x0a \<notin> set (r_method demo_request)" "0x0a \<notin> set (r_content_type demo_request)"
    "length (r_body demo_request) < 10 ^ 20" "r_body demo_request = []"
    by (simp_all add: demo_fields)
  with request_not_split [OF demo_parse_url] show ?thesis using demo_parse_url by (auto simp: Let_def)
qed

section \<open>The origin\<close>

text \<open>
  Claim C40.  Origin pinning: once the client is pinned to the configured directory, every
  request it starts goes to the host (up to case) and port of the directory, in the same
  form of address; a request for another URL ends with an error before anything is resolved,
  connected or sent.
\<close>

theorem origin_pin_holds:
  assumes "client_set_origin pool c dir = (NGX_OK, c')" and "r_method r \<noteq> []"
  shows "\<exists>d. parse_url (zero_request\<lparr>r_pool := pool, r_url := dir\<rparr>) = (NGX_OK, d) \<and>
    (case parse_url r of
       (NGX_OK, u) \<Rightarrow>
         r_port u = r_port d \<and> r_host_is_ipv6 u = r_host_is_ipv6 d \<and> map lower (r_host u) = map lower (r_host d)
         \<or> request_start c' N r = Some (NGX_ERROR, u)
     | (_, u) \<Rightarrow> request_start c' N r = Some (NGX_ERROR, u))"
proof -
  obtain d where d: "parse_url (zero_request\<lparr>r_pool := pool, r_url := dir\<rparr>) = (NGX_OK, d)"
    and c': "c' = c\<lparr>origin_host := r_host d, origin_port := r_port d, origin_is_ipv6 := r_host_is_ipv6 d, origin_pinned := True\<rparr>"
    using assms(1) by (auto simp: client_set_origin_def split: prod.splits ngx_rc.splits)
  obtain rc u where u: "parse_url r = (rc, u)" by fastforce
  have nul: "0 \<notin> set (r_host d)" using parse_url_parts(1) [OF d] by (auto simp: url_part_safe_set)
  have "r_port u = r_port d \<and> r_host_is_ipv6 u = r_host_is_ipv6 d \<and> map lower (r_host u) = map lower (r_host d)"
    if "check_origin (Some c') u = NGX_OK"
    using that nul strncasecmp_nul_free [of "r_host d" "r_host u" "length (r_host u)"]
    by (auto simp: check_origin_def c' split: if_splits)
  moreover have "request_start c' N r = Some (NGX_ERROR, u)" if "rc \<noteq> NGX_OK \<or> check_origin (Some c') u \<noteq> NGX_OK"
    using that u assms(2) parse_url_frame(3) [OF u] by (auto simp: request_start_def Let_def)
  ultimately show ?thesis using d u parse_url_frame(3) [OF u] by (cases rc) auto
qed

theorem origin_pin_holds_witness:
  "\<exists>c'. client_set_origin [] demo_client (str ''https://CA.example/dir'') = (NGX_OK, c')
     \<and> (\<exists>u. parse_url demo_request = (NGX_OK, u) \<and> request_start c' demo_net demo_request = Some (NGX_ERROR, u))"
proof -
  have dir: "parse_url (zero_request\<lparr>r_pool := [], r_url := str ''https://CA.example/dir''\<rparr>) =
      (NGX_OK, zero_request\<lparr>r_url := str ''https://CA.example/dir'', r_host := str ''CA.example'', r_port := 443,
         r_uri := str ''/dir''\<rparr>)"
    by (simp add: parse_url_def zero_request_def https_scheme_def url_host_def url_port_def url_uri_def
        ngx_tolower_def Let_def)
  then obtain c' where c': "client_set_origin [] demo_client (str ''https://CA.example/dir'') = (NGX_OK, c')"
    unfolding client_set_origin_def by simp
  have "r_method demo_request \<noteq> []" by (simp add: demo_fields)
  from origin_pin_holds [OF c' this, of demo_net] dir demo_parse_url c' show ?thesis
    by (auto simp: lower_def is_upper_def dest: arg_cong [where f = length])
qed

end
