(* ===== verification/Order_Store.thy ===== *)
theory Order_Store
  imports Driver "HOL-Library.AList"
begin

text \<open>
  The commit of an issued certificate to the store (\<^verbatim>\<open>src/ngx_autocert_order.c\<close>,
  from \<^verbatim>\<open>ngx_autocert_order_split_chain\<close> to
  \<^verbatim>\<open>ngx_autocert_order_write_tmp_at\<close>, the POSIX build), over a model of the
  file system with inodes, hard links and flushed state.

  Any system call may fail: what the kernel decides is a list of answers that the calls
  consume from the front.  Every state that the file system goes through is kept, so that a
  claim on all of them is a claim on what a concurrent reader or a crash can see.
\<close>

section \<open>The file system\<close>

text \<open>
  A failure that the kernel may report at any call, and the errors that follow from the
  state of the file system.  \<open>EUNSUPPORTED\<close> stands for the four codes that
  \<^verbatim>\<open>ngx_autocert_renameat2\<close> reads as a missing feature.
\<close>

datatype failure = EINTR | EUNSUPPORTED | EOTHER

datatype errno = ENOENT | ENOTDIR | EEXIST | ENOTEMPTY | EISDIR | Failure failure

datatype answer = Go | Fail failure | Count nat

record inode =
  i_data :: bytes
  i_mode :: nat
  i_nlink :: nat
  i_synced :: bool

text \<open>
  An entry of the container directory is a directory or something else (a file, a symbolic
  link); an entry of a directory below it is a regular file or something else.
\<close>

datatype centry = C_Dir nat | C_Other

datatype dentry = D_Reg nat | D_Other

record fs =
  f_cont :: "bytes \<Rightarrow> centry option"
  f_dirs :: "nat \<Rightarrow> (bytes \<times> dentry) list"
  f_dsync :: "nat \<Rightarrow> bool"
  f_csync :: bool
  f_inodes :: "nat \<Rightarrow> inode"
  f_nextd :: nat
  f_nexti :: nat

record io =
  s_fs :: fs
  s_seen :: "fs list"
  s_ans :: "answer list"
  s_pool :: alloc

text \<open>The next answer of the kernel; a short count is no failure except for a write.\<close>

definition fault :: "io \<Rightarrow> failure option \<times> io" where
  "fault s =
     (case s_ans s of
        [] \<Rightarrow> (None, s)
      | Fail e # as \<Rightarrow> (Some e, s\<lparr>s_ans := as\<rparr>)
      | _ # as \<Rightarrow> (None, s\<lparr>s_ans := as\<rparr>))"

definition put :: "fs \<Rightarrow> io \<Rightarrow> io" where
  "put f s = s\<lparr>s_fs := f, s_seen := f # s_seen s\<rparr>"

text \<open>A call that has no effect when it fails, and otherwise the effect given.\<close>

definition effect :: "(fs \<Rightarrow> errno + fs) \<Rightarrow> io \<Rightarrow> errno option \<times> io" where
  "effect op s =
     (case fault s of
        (Some e, s1) \<Rightarrow> (Some (Failure e), s1)
      | (None, s1) \<Rightarrow> (case op (s_fs s1) of Inl e \<Rightarrow> (Some e, s1) | Inr f \<Rightarrow> (None, put f s1)))"

definition query :: "(fs \<Rightarrow> errno + 'a) \<Rightarrow> io \<Rightarrow> (errno + 'a) \<times> io" where
  "query op s =
     (case fault s of
        (Some e, s1) \<Rightarrow> (Inl (Failure e), s1)
      | (None, s1) \<Rightarrow> (op (s_fs s1), s1))"

definition inode_upd :: "nat \<Rightarrow> (inode \<Rightarrow> inode) \<Rightarrow> fs \<Rightarrow> fs" where
  "inode_upd i g f = f\<lparr>f_inodes := (f_inodes f)(i := g (f_inodes f i))\<rparr>"

definition dir_upd :: "nat \<Rightarrow> ((bytes \<times> dentry) list \<Rightarrow> (bytes \<times> dentry) list) \<Rightarrow> fs \<Rightarrow> fs" where
  "dir_upd d g f = f\<lparr>f_dirs := (f_dirs f)(d := g (f_dirs f d)), f_dsync := (f_dsync f)(d := False)\<rparr>"

text \<open>\<^verbatim>\<open>openat(cfd, name, O_RDONLY|O_DIRECTORY|O_NOFOLLOW)\<close>.\<close>

definition sys_open_dir :: "bytes \<Rightarrow> fs \<Rightarrow> errno + nat" where
  "sys_open_dir name f =
     (case f_cont f name of None \<Rightarrow> Inl ENOENT | Some (C_Dir d) \<Rightarrow> Inr d | Some C_Other \<Rightarrow> Inl ENOTDIR)"

definition sys_mkdir :: "bytes \<Rightarrow> fs \<Rightarrow> errno + fs" where
  "sys_mkdir name f =
     (if f_cont f name \<noteq> None then Inl EEXIST
      else Inr (f\<lparr>f_cont := (f_cont f)(name := Some (C_Dir (f_nextd f))), f_csync := False,
                  f_dirs := (f_dirs f)(f_nextd f := []), f_dsync := (f_dsync f)(f_nextd f := False),
                  f_nextd := f_nextd f + 1\<rparr>))"

text \<open>\<^verbatim>\<open>unlinkat(cfd, name, 0)\<close> and, with \<^verbatim>\<open>AT_REMOVEDIR\<close>, of a directory.\<close>

definition sys_unlink_c :: "bytes \<Rightarrow> fs \<Rightarrow> errno + fs" where
  "sys_unlink_c name f =
     (case f_cont f name of
        None \<Rightarrow> Inl ENOENT
      | Some (C_Dir d) \<Rightarrow> Inl EISDIR
      | Some C_Other \<Rightarrow> Inr (f\<lparr>f_cont := (f_cont f)(name := None), f_csync := False\<rparr>))"

definition sys_rmdir :: "bytes \<Rightarrow> fs \<Rightarrow> errno + fs" where
  "sys_rmdir name f =
     (case f_cont f name of
        None \<Rightarrow> Inl ENOENT
      | Some C_Other \<Rightarrow> Inl ENOTDIR
      | Some (C_Dir d) \<Rightarrow>
          if f_dirs f d \<noteq> [] then Inl ENOTEMPTY
          else Inr (f\<lparr>f_cont := (f_cont f)(name := None), f_csync := False\<rparr>))"

text \<open>\<^verbatim>\<open>unlinkat(dfd, name, 0)\<close>, \<^verbatim>\<open>linkat\<close> and \<^verbatim>\<open>openat\<close> with \<^verbatim>\<open>O_CREAT\<close>.\<close>

definition sys_unlink :: "nat \<Rightarrow> bytes \<Rightarrow> fs \<Rightarrow> errno + fs" where
  "sys_unlink d name f =
     (case map_of (f_dirs f d) name of
        None \<Rightarrow> Inl ENOENT
      | Some D_Other \<Rightarrow> Inr (dir_upd d (AList.delete name) f)
      | Some (D_Reg i) \<Rightarrow>
          Inr (inode_upd i (\<lambda>n. n\<lparr>i_nlink := i_nlink n - 1\<rparr>) (dir_upd d (AList.delete name) f)))"

definition sys_link :: "nat \<Rightarrow> bytes \<Rightarrow> nat \<Rightarrow> fs \<Rightarrow> errno + fs" where
  "sys_link src name dst f =
     (case map_of (f_dirs f src) name of
        Some (D_Reg i) \<Rightarrow>
          if map_of (f_dirs f dst) name \<noteq> None then Inl EEXIST
          else Inr (inode_upd i (\<lambda>n. n\<lparr>i_nlink := i_nlink n + 1\<rparr>)
                     (dir_upd dst (\<lambda>es. (name, D_Reg i) # es) f))
      | _ \<Rightarrow> Inl ENOENT)"

definition sys_creat :: "nat \<Rightarrow> bytes \<Rightarrow> nat \<Rightarrow> fs \<Rightarrow> errno + fs" where
  "sys_creat d name mode f =
     (case map_of (f_dirs f d) name of
        Some D_Other \<Rightarrow> Inl (Failure EOTHER)
      | Some (D_Reg i) \<Rightarrow> Inr f
      | None \<Rightarrow>
          Inr (inode_upd (f_nexti f) (\<lambda>n. \<lparr>i_data = [], i_mode = mode, i_nlink = 1, i_synced = False\<rparr>)
                (dir_upd d (\<lambda>es. (name, D_Reg (f_nexti f)) # es) (f\<lparr>f_nexti := f_nexti f + 1\<rparr>))))"

text \<open>\<^verbatim>\<open>fstatat\<close> with \<^verbatim>\<open>AT_SYMLINK_NOFOLLOW\<close>.\<close>

definition sys_stat :: "nat \<Rightarrow> bytes \<Rightarrow> fs \<Rightarrow> errno + dentry" where
  "sys_stat d name f = (case map_of (f_dirs f d) name of None \<Rightarrow> Inl ENOENT | Some e \<Rightarrow> Inr e)"

definition sys_stat_c :: "bytes \<Rightarrow> fs \<Rightarrow> errno + centry" where
  "sys_stat_c name f = (case f_cont f name of None \<Rightarrow> Inl ENOENT | Some e \<Rightarrow> Inr e)"

text \<open>\<^verbatim>\<open>renameat2\<close> with \<^verbatim>\<open>RENAME_NOREPLACE\<close> and \<^verbatim>\<open>RENAME_EXCHANGE\<close>.\<close>

definition sys_rename_noreplace :: "bytes \<Rightarrow> bytes \<Rightarrow> fs \<Rightarrow> errno + fs" where
  "sys_rename_noreplace old new f =
     (if f_cont f old = None then Inl ENOENT
      else if f_cont f new \<noteq> None then Inl EEXIST
      else Inr (f\<lparr>f_cont := (f_cont f)(new := f_cont f old, old := None), f_csync := False\<rparr>))"

definition sys_rename_exchange :: "bytes \<Rightarrow> bytes \<Rightarrow> fs \<Rightarrow> errno + fs" where
  "sys_rename_exchange a b f =
     (if f_cont f a = None \<or> f_cont f b = None then Inl ENOENT
      else Inr (f\<lparr>f_cont := (f_cont f)(a := f_cont f b, b := f_cont f a), f_csync := False\<rparr>))"

section \<open>Names\<close>

definition store_files :: "bytes list" where
  "store_files =
     [str ''privkey.pem'', str ''fullchain.pem'', str ''cert.pem'', str ''chain.pem'',
      str ''privkey.rsa.pem'', str ''fullchain.rsa.pem'', str ''cert.rsa.pem'', str ''chain.rsa.pem'']"

record pem_names =
  pn_priv :: bytes
  pn_chain :: bytes
  pn_leaf :: bytes
  pn_rest :: bytes

definition keytype_pem_names :: "key_type \<Rightarrow> pem_names" where
  "keytype_pem_names kt =
     (if is_rsa kt
      then \<lparr>pn_priv = str ''privkey.rsa.pem'', pn_chain = str ''fullchain.rsa.pem'',
            pn_leaf = str ''cert.rsa.pem'', pn_rest = str ''chain.rsa.pem''\<rparr>
      else \<lparr>pn_priv = str ''privkey.pem'', pn_chain = str ''fullchain.pem'',
            pn_leaf = str ''cert.pem'', pn_rest = str ''chain.pem''\<rparr>)"

definition own_names :: "key_type \<Rightarrow> bytes list" where
  "own_names kt = (let n = keytype_pem_names kt in [pn_priv n, pn_chain n, pn_leaf n, pn_rest n])"

definition domain_safe :: "bytes \<Rightarrow> ngx_rc" where
  "domain_safe domain =
     (if length domain = 0 then NGX_ERROR
      else if domain = str ''.'' \<or> domain = str ''..'' then NGX_ERROR
      else if list_ex (\<lambda>c. c = 0x2f \<or> c = 0) domain then NGX_ERROR
      else NGX_OK)"

definition end_marker :: bytes where
  "end_marker = str ''-----END CERTIFICATE-----''"

fun split_find :: "bytes \<Rightarrow> bytes \<Rightarrow> (bytes \<times> bytes) option" where
  "split_find marker [] = None"
| "split_find marker (c # cs) =
     (if length marker \<le> length (c # cs) \<and> memcmp (take (length marker) (c # cs)) marker = 0
      then Some (take (length marker) (c # cs), drop (length marker) (c # cs))
      else map_option (\<lambda>(leaf, rest). (c # leaf, rest)) (split_find marker cs))"

text \<open>The leaf takes the line ends that follow its marker.\<close>

fun split_newlines :: "bytes \<Rightarrow> bytes \<times> bytes" where
  "split_newlines (c # cs) =
     (if c = 0x0d \<or> c = 0x0a then (case split_newlines cs of (nl, rest) \<Rightarrow> (c # nl, rest))
      else ([], c # cs))"
| "split_newlines [] = ([], [])"

definition split_chain :: "bytes \<Rightarrow> (bytes \<times> bytes) option" where
  "split_chain full =
     (case split_find end_marker full of
        None \<Rightarrow> None
      | Some (leaf, after) \<Rightarrow> (case split_newlines after of (nl, rest) \<Rightarrow> Some (leaf @ nl, rest)))"

section \<open>Steps of the commit\<close>

fun fsync_loop :: "nat \<Rightarrow> (fs \<Rightarrow> fs) \<Rightarrow> io \<Rightarrow> ngx_rc \<times> io" where
  "fsync_loop 0 sync s = (NGX_ERROR, s)"
| "fsync_loop (Suc tries) sync s =
     (case effect (\<lambda>f. Inr (sync f)) s of
        (None, s1) \<Rightarrow> (NGX_OK, s1)
      | (Some (Failure EINTR), s1) \<Rightarrow> fsync_loop tries sync s1
      | (Some _, s1) \<Rightarrow> (NGX_ERROR, s1))"

definition sync_dir :: "nat \<Rightarrow> fs \<Rightarrow> fs" where
  "sync_dir d f = f\<lparr>f_dsync := (f_dsync f)(d := True)\<rparr>"

definition sync_cont :: "fs \<Rightarrow> fs" where
  "sync_cont f = f\<lparr>f_csync := True\<rparr>"

definition fsync_dirfd :: "(fs \<Rightarrow> fs) \<Rightarrow> io \<Rightarrow> ngx_rc \<times> io" where
  "fsync_dirfd sync s = fsync_loop 8 sync s"

fun unlink_all :: "nat \<Rightarrow> bytes list \<Rightarrow> io \<Rightarrow> io" where
  "unlink_all d [] s = s"
| "unlink_all d (n # ns) s = unlink_all d ns (snd (effect (sys_unlink d n) s))"

definition rm_staging_at :: "bytes \<Rightarrow> io \<Rightarrow> io" where
  "rm_staging_at leaf s =
     (case query (sys_open_dir leaf) s of
        (Inl e, s1) \<Rightarrow> if e = ENOENT then s1 else snd (effect (sys_unlink_c leaf) s1)
      | (Inr d, s1) \<Rightarrow> snd (effect (sys_rmdir leaf) (unlink_all d store_files s1)))"

fun seed_loop :: "bytes list \<Rightarrow> nat \<Rightarrow> nat \<Rightarrow> bytes list \<Rightarrow> io \<Rightarrow> ngx_rc \<times> io" where
  "seed_loop own lfd sfd [] s = (NGX_OK, s)"
| "seed_loop own lfd sfd (name # names) s =
     (if name \<in> set own then seed_loop own lfd sfd names s
      else
        (case query (sys_stat lfd name) s of
           (Inl e, s1) \<Rightarrow> if e = ENOENT then seed_loop own lfd sfd names s1 else (NGX_ERROR, s1)
         | (Inr D_Other, s1) \<Rightarrow> seed_loop own lfd sfd names s1
         | (Inr (D_Reg _), s1) \<Rightarrow>
             (case effect (sys_link lfd name sfd) s1 of
                (Some e, s2) \<Rightarrow> if e \<noteq> EEXIST then (NGX_ERROR, s2) else seed_loop own lfd sfd names s2
              | (None, s2) \<Rightarrow> seed_loop own lfd sfd names s2)))"

definition seed_staging_at :: "bytes \<Rightarrow> nat \<Rightarrow> key_type \<Rightarrow> io \<Rightarrow> ngx_rc \<times> io" where
  "seed_staging_at dir sfd skip_kt s =
     (case query (sys_open_dir dir) s of
        (Inl e, s1) \<Rightarrow> (if e = ENOENT \<or> e = ENOTDIR then NGX_OK else NGX_ERROR, s1)
      | (Inr lfd, s1) \<Rightarrow> seed_loop (own_names skip_kt) lfd sfd store_files s1)"

text \<open>
  The write loop over the answers of the kernel: an interrupted write is repeated, a write
  without progress fails.
\<close>

definition write_some :: "nat \<Rightarrow> bytes \<Rightarrow> fs \<Rightarrow> fs" where
  "write_some i bs f = inode_upd i (\<lambda>n. n\<lparr>i_data := i_data n @ bs, i_synced := False\<rparr>) f"

fun write_loop :: "answer list \<Rightarrow> nat \<Rightarrow> bytes \<Rightarrow> io \<Rightarrow> bool \<times> io" where
  "write_loop as i [] s = (True, s\<lparr>s_ans := as\<rparr>)"
| "write_loop [] i (c # cs) s = (True, put (write_some i (c # cs) (s_fs s)) (s\<lparr>s_ans := []\<rparr>))"
| "write_loop (Go # as) i (c # cs) s = (True, put (write_some i (c # cs) (s_fs s)) (s\<lparr>s_ans := as\<rparr>))"
| "write_loop (Fail e # as) i (c # cs) s =
     (if e = EINTR then write_loop as i (c # cs) s else (False, s\<lparr>s_ans := as\<rparr>))"
| "write_loop (Count n # as) i (c # cs) s =
     (if n = 0 then (False, s\<lparr>s_ans := as\<rparr>)
      else write_loop as i (drop n (c # cs)) (put (write_some i (take n (c # cs)) (s_fs s)) s))"

definition reg_of :: "nat \<Rightarrow> bytes \<Rightarrow> fs \<Rightarrow> nat option" where
  "reg_of d name f = (case map_of (f_dirs f d) name of Some (D_Reg i) \<Rightarrow> Some i | _ \<Rightarrow> None)"

definition write_tmp_at :: "nat \<Rightarrow> bytes \<Rightarrow> bytes \<Rightarrow> nat \<Rightarrow> io \<Rightarrow> ngx_rc \<times> io" where
  "write_tmp_at sfd leaf data mode s =
     (let give_up = (\<lambda>s. (NGX_ERROR, snd (effect (sys_unlink sfd leaf) s))) in
      case effect (sys_creat sfd leaf mode) s of
        (Some e, s1) \<Rightarrow> (NGX_ERROR, s1)
      | (None, s1) \<Rightarrow>
          (case reg_of sfd leaf (s_fs s1) of
             None \<Rightarrow> (NGX_ERROR, s1)
           | Some fd \<Rightarrow>
               (case query (\<lambda>f. Inr (i_nlink (f_inodes f fd))) s1 of
                  (Inl e, s2) \<Rightarrow> (NGX_ERROR, s2)
                | (Inr nlink, s2) \<Rightarrow>
                    if nlink \<noteq> 1 then (NGX_ERROR, s2)
                    else
                      (case effect (\<lambda>f. Inr (inode_upd fd (\<lambda>n. n\<lparr>i_data := [], i_synced := False\<rparr>) f)) s2 of
                         (Some e, s3) \<Rightarrow> (NGX_ERROR, s3)
                       | (None, s3) \<Rightarrow>
                           (case effect (\<lambda>f. Inr (inode_upd fd (\<lambda>n. n\<lparr>i_mode := mode, i_synced := False\<rparr>) f)) s3 of
                              (Some e, s4) \<Rightarrow> give_up s4
                            | (None, s4) \<Rightarrow>
                                (case write_loop (s_ans s4) fd data s4 of
                                   (False, s5) \<Rightarrow> give_up s5
                                 | (True, s5) \<Rightarrow>
                                     (case effect (\<lambda>f. Inr (inode_upd fd (\<lambda>n. n\<lparr>i_synced := True\<rparr>) f)) s5 of
                                        (Some e, s6) \<Rightarrow> give_up s6
                                      | (None, s6) \<Rightarrow>
                                          (case fault s6 of
                                             (Some e, s7) \<Rightarrow> give_up s7
                                           | (None, s7) \<Rightarrow> (NGX_OK, s7)))))))))"

definition rename_rc :: "errno option \<Rightarrow> ngx_rc" where
  "rename_rc r =
     (case r of None \<Rightarrow> NGX_OK | Some (Failure EUNSUPPORTED) \<Rightarrow> NGX_DECLINED | Some _ \<Rightarrow> NGX_ERROR)"

definition swap_dirs_at :: "bytes \<Rightarrow> bytes \<Rightarrow> io \<Rightarrow> ngx_rc \<times> io" where
  "swap_dirs_at staging dir s =
     (case effect (sys_rename_exchange staging dir) s of (r, s1) \<Rightarrow> (rename_rc r, s1))"

section \<open>The commit\<close>

record store_job =
  j_store_path :: bytes
  j_domain :: bytes
  j_key_type :: key_type
  j_layout :: store_layout
  j_key_pem :: bytes
  j_chain :: bytes

abbreviation (input) SEG_MAX :: nat where "SEG_MAX \<equiv> 288"

definition staging_leaf :: "bytes \<Rightarrow> bytes" where
  "staging_leaf seg = seg @ str ''.tmp''"

definition pool_alloc :: "io \<Rightarrow> bool \<times> io" where
  "pool_alloc s = (case alloc_next (s_pool s) of (b, p) \<Rightarrow> (b, s\<lparr>s_pool := p\<rparr>))"

text \<open>
  The container directory is opened, after its creation below the store path in the certbot
  layout (where the creation may also find it in place); its content is
  \<^const>\<open>f_cont\<close> once it is open.
\<close>

definition open_container :: "bool \<Rightarrow> io \<Rightarrow> bool \<times> io" where
  "open_container certbot s =
     (case pool_alloc s of
        (False, s1) \<Rightarrow> (False, s1)
      | (True, s1) \<Rightarrow>
          if certbot then
            (case pool_alloc s1 of
               (False, s2) \<Rightarrow> (False, s2)
             | (True, s2) \<Rightarrow>
                 (case fault s2 of
                    (Some e, s3) \<Rightarrow> (False, s3)
                  | (None, s3) \<Rightarrow>
                      (case fault s3 of
                         (Some e, s4) \<Rightarrow> (False, s4)
                       | (None, s4) \<Rightarrow> (case fault s4 of (r, s5) \<Rightarrow> (r = None, s5)))))
          else (case fault s1 of (r, s2) \<Rightarrow> (r = None, s2)))"

text \<open>The files of the pair, and with the certbot layout the leaf and the rest apart.\<close>

definition write_pair :: "store_job \<Rightarrow> nat \<Rightarrow> io \<Rightarrow> ngx_rc \<times> io" where
  "write_pair j sfd s =
     (let n = keytype_pem_names (j_key_type j) in
      case write_tmp_at sfd (pn_priv n) (j_key_pem j) 384 s of
        (NGX_OK, s1) \<Rightarrow>
          (case write_tmp_at sfd (pn_chain n) (j_chain j) 420 s1 of
             (NGX_OK, s2) \<Rightarrow>
               if j_layout j = STORE_CERTBOT then
                 (case split_chain (j_chain j) of
                    None \<Rightarrow> (NGX_ERROR, s2)
                  | Some (leaf, rest) \<Rightarrow>
                      (case write_tmp_at sfd (pn_leaf n) leaf 420 s2 of
                         (NGX_OK, s3) \<Rightarrow> write_tmp_at sfd (pn_rest n) rest 420 s3
                       | (rc, s3) \<Rightarrow> (NGX_ERROR, s3)))
               else (NGX_OK, s2)
           | (rc, s2) \<Rightarrow> (NGX_ERROR, s2))
      | (rc, s1) \<Rightarrow> (NGX_ERROR, s1))"

definition commit :: "bytes \<Rightarrow> bytes \<Rightarrow> io \<Rightarrow> ngx_rc \<times> io" where
  "commit dir staging s =
     (case query (sys_stat_c dir) s of
        (Inl e, s1) \<Rightarrow>
          if e \<noteq> ENOENT then (NGX_ERROR, rm_staging_at staging s1)
          else
            (case effect (sys_rename_noreplace staging dir) s1 of
               (r, s2) \<Rightarrow>
                 if rename_rc r \<noteq> NGX_OK then (NGX_ERROR, rm_staging_at staging s2)
                 else fsync_dirfd sync_cont s2)
      | (Inr C_Other, s1) \<Rightarrow> (NGX_ERROR, rm_staging_at staging s1)
      | (Inr (C_Dir _), s1) \<Rightarrow>
          (case swap_dirs_at staging dir s1 of
             (NGX_OK, s2) \<Rightarrow> fsync_dirfd sync_cont (rm_staging_at staging s2)
           | (_, s2) \<Rightarrow> (NGX_ERROR, rm_staging_at staging s2)))"

text \<open>
  From the open staging directory on: carry over, write, flush, commit; every failure before
  the commit removes the staging directory (\<^verbatim>\<open>NGX_AUTOCERT_STORE_FAIL\<close>).
\<close>

definition fill_and_commit :: "store_job \<Rightarrow> bytes \<Rightarrow> bytes \<Rightarrow> nat \<Rightarrow> io \<Rightarrow> ngx_rc \<times> io" where
  "fill_and_commit j seg staging sfd s =
     (let store_fail = (\<lambda>s. (NGX_ERROR, rm_staging_at staging s)) in
      case seed_staging_at seg sfd (j_key_type j) s of
        (NGX_OK, s1) \<Rightarrow>
          (case write_pair j sfd s1 of
             (NGX_OK, s2) \<Rightarrow>
               (case fsync_dirfd (sync_dir sfd) s2 of
                  (NGX_OK, s3) \<Rightarrow> commit seg staging s3
                | (_, s3) \<Rightarrow> store_fail s3)
           | (_, s2) \<Rightarrow> store_fail s2)
      | (_, s1) \<Rightarrow> store_fail s1)"

definition store_in_container :: "store_job \<Rightarrow> bytes \<Rightarrow> io \<Rightarrow> ngx_rc \<times> io" where
  "store_in_container j seg s =
     (let staging = staging_leaf seg;
          store_fail = (\<lambda>s. (NGX_ERROR, rm_staging_at staging s))
      in
      case effect (sys_mkdir staging) (rm_staging_at staging s) of
        (Some e, s2) \<Rightarrow> (NGX_ERROR, s2)
      | (None, s2) \<Rightarrow>
          (case query (sys_open_dir staging) s2 of
             (Inl e, s3) \<Rightarrow> store_fail s3
           | (Inr sfd, s3) \<Rightarrow>
               (case fault s3 of
                  (Some e, s4) \<Rightarrow> store_fail s4
                | (None, s4) \<Rightarrow> fill_and_commit j seg staging sfd s4)))"

definition order_store :: "inet \<Rightarrow> store_job \<Rightarrow> io \<Rightarrow> ngx_rc \<times> io" where
  "order_store I j s =
     (if length (j_store_path j) = 0 then (NGX_ERROR, s)
      else if domain_safe (j_domain j) \<noteq> NGX_OK then (NGX_ERROR, s)
      else
        (case fs_segment I SEG_MAX (j_domain j) of
           None \<Rightarrow> (NGX_ERROR, s)
         | Some seg \<Rightarrow>
             if length seg = 0 then (NGX_ERROR, s)
             else
               (case open_container (j_layout j = STORE_CERTBOT) s of
                  (False, s1) \<Rightarrow> (NGX_ERROR, s1)
                | (True, s1) \<Rightarrow>
                    if length seg + 5 > SEG_MAX + 5 then (NGX_ERROR, s1)
                    else store_in_container j seg s1)))"

end
