(* ===== verification/Order_Store_Correct.thy ===== *)
theory Order_Store_Correct
  imports Order_Store
begin

text \<open>
  The commit of a certificate is atomic and durable: whatever the system calls answer, each
  state of the live directory of the name is the old one or the complete new one, and the
  new one is flushed before it becomes visible.
\<close>

section \<open>What a reader sees\<close>

datatype fview = Plain bytes nat | Special

datatype view = Absent | Foreign | Directory "bytes \<Rightarrow> fview option"

definition dentry_view :: "fs \<Rightarrow> dentry \<Rightarrow> fview" where
  "dentry_view f e =
     (case e of D_Reg i \<Rightarrow> Plain (i_data (f_inodes f i)) (i_mode (f_inodes f i)) | D_Other \<Rightarrow> Special)"

definition look :: "fs \<Rightarrow> nat \<Rightarrow> bytes \<Rightarrow> fview option" where
  "look f d name = map_option (dentry_view f) (map_of (f_dirs f d) name)"

definition view :: "fs \<Rightarrow> bytes \<Rightarrow> view" where
  "view f name =
     (case f_cont f name of None \<Rightarrow> Absent | Some C_Other \<Rightarrow> Foreign | Some (C_Dir d) \<Rightarrow> Directory (look f d))"

text \<open>The directory and its files under the given names have been flushed.\<close>

definition synced :: "fs \<Rightarrow> dentry \<Rightarrow> bool" where
  "synced f e = (case e of D_Reg i \<Rightarrow> i_synced (f_inodes f i) | D_Other \<Rightarrow> True)"

definition flushed :: "bytes list \<Rightarrow> fs \<Rightarrow> nat \<Rightarrow> bool" where
  "flushed own f d \<longleftrightarrow> f_dsync f d \<and> list_all (\<lambda>(n, e). n \<in> set own \<longrightarrow> synced f e) (f_dirs f d)"

definition durable :: "bytes list \<Rightarrow> fs \<Rightarrow> bytes \<Rightarrow> bool" where
  "durable own f name = (case f_cont f name of Some (C_Dir d) \<Rightarrow> flushed own f d | _ \<Rightarrow> False)"

section \<open>Well-formed file systems\<close>

definition fwf :: "fs \<Rightarrow> bool" where
  "fwf f \<longleftrightarrow>
     (\<forall>c d. f_cont f c = Some (C_Dir d) \<longrightarrow> d < f_nextd f)
     \<and> (\<forall>c c' d. f_cont f c = Some (C_Dir d) \<longrightarrow> f_cont f c' = Some (C_Dir d) \<longrightarrow> c = c')
     \<and> (\<forall>d n i. (n, D_Reg i) \<in> set (f_dirs f d) \<longrightarrow> i < f_nexti f)"

definition same_file :: "inode \<Rightarrow> inode \<Rightarrow> bool" where
  "same_file n n' \<longleftrightarrow> i_data n' = i_data n \<and> i_mode n' = i_mode n \<and> i_synced n' = i_synced n"

lemma same_file_refl [simp]: "same_file n n" by (simp add: same_file_def)

lemma same_file_trans: "same_file a b \<Longrightarrow> same_file b c \<Longrightarrow> same_file a c" by (simp add: same_file_def)

text \<open>What is seen under a name is the same in two states.\<close>

definition quiet_on :: "bytes \<Rightarrow> fs \<Rightarrow> fs \<Rightarrow> bool" where
  "quiet_on name f f' \<longleftrightarrow>
     f_cont f' name = f_cont f name \<and> f_nexti f' = f_nexti f
     \<and> (\<forall>d. f_cont f name = Some (C_Dir d) \<longrightarrow> f_dirs f' d = f_dirs f d \<and> f_dsync f' d = f_dsync f d)
     \<and> (\<forall>i. same_file (f_inodes f i) (f_inodes f' i))"

lemma quiet_on_refl [simp]: "quiet_on name f f" by (simp add: quiet_on_def)

lemma fwf_dir_inj: "fwf f \<Longrightarrow> f_cont f c = Some (C_Dir d) \<Longrightarrow> f_cont f c' = Some (C_Dir d) \<Longrightarrow> c = c'"
  unfolding fwf_def by blast

lemma fwf_dir_bound: "fwf f \<Longrightarrow> f_cont f c = Some (C_Dir d) \<Longrightarrow> d < f_nextd f"
  unfolding fwf_def by blast

lemma fwf_inode_bound: "fwf f \<Longrightarrow> (n, D_Reg i) \<in> set (f_dirs f d) \<Longrightarrow> i < f_nexti f"
  unfolding fwf_def by blast

lemma set_delete: "set (AList.delete k es) \<subseteq> set es"
  by (auto simp: AList.delete_eq)

lemma fwf_dir_upd: "fwf f \<Longrightarrow> (\<And>n i. (n, D_Reg i) \<in> set (g (f_dirs f d)) \<Longrightarrow> i < f_nexti f) \<Longrightarrow> fwf (dir_upd d g f)"
  unfolding fwf_def dir_upd_def by (simp add: fun_upd_def)

lemma fwf_inode_upd [simp]: "fwf (inode_upd i g f) = fwf f"
  by (simp add: fwf_def inode_upd_def)

subsection \<open>System calls keep it\<close>

lemma sys_unlink_wf: "sys_unlink d n f = Inr f' \<Longrightarrow> fwf f \<Longrightarrow> fwf f'"
  using set_delete [of n "f_dirs f d"] fwf_inode_bound [of f]
  by (fastforce simp: sys_unlink_def split: option.splits dentry.splits intro!: fwf_dir_upd)

lemma sys_unlink_c_wf: "sys_unlink_c n f = Inr f' \<Longrightarrow> fwf f \<Longrightarrow> fwf f'"
  unfolding sys_unlink_c_def fwf_def by (auto split: option.splits centry.splits if_splits)

lemma sys_rmdir_wf: "sys_rmdir n f = Inr f' \<Longrightarrow> fwf f \<Longrightarrow> fwf f'"
  unfolding sys_rmdir_def fwf_def by (auto split: option.splits centry.splits if_splits)

lemma sys_mkdir_wf: "sys_mkdir n f = Inr f' \<Longrightarrow> fwf f \<Longrightarrow> fwf f'"
  unfolding sys_mkdir_def fwf_def
  by (auto split: if_splits simp: less_Suc_eq) (metis less_irrefl)+

lemma sys_link_wf: "sys_link a n b f = Inr f' \<Longrightarrow> fwf f \<Longrightarrow> fwf f'"
  using fwf_inode_bound [of f] map_of_SomeD [of "f_dirs f a" n]
  by (fastforce simp: sys_link_def split: option.splits dentry.splits if_splits intro!: fwf_dir_upd)

lemma sys_creat_wf:
  assumes "sys_creat d n m f = Inr f'" "fwf f"
  shows "fwf f'"
proof (cases "map_of (f_dirs f d) n")
  case None
  have "fwf (f\<lparr>f_nexti := f_nexti f + 1\<rparr>)" using assms(2) by (auto simp: fwf_def less_Suc_eq)
  then have "fwf (dir_upd d (\<lambda>es. (n, D_Reg (f_nexti f)) # es) (f\<lparr>f_nexti := f_nexti f + 1\<rparr>))"
    using fwf_inode_bound [OF assms(2)] by (intro fwf_dir_upd) (auto simp: less_Suc_eq)
  then show ?thesis using None assms(1) by (auto simp: sys_creat_def)
next
  case (Some e)
  then show ?thesis using assms by (cases e) (auto simp: sys_creat_def)
qed

lemma sys_rename_noreplace_wf: "sys_rename_noreplace a b f = Inr f' \<Longrightarrow> fwf f \<Longrightarrow> fwf f'"
  unfolding sys_rename_noreplace_def fwf_def
  by (auto split: if_splits)

lemma sys_rename_exchange_wf: "sys_rename_exchange a b f = Inr f' \<Longrightarrow> fwf f \<Longrightarrow> fwf f'"
  unfolding sys_rename_exchange_def fwf_def
  by (auto split: if_splits)

section \<open>All states of a run\<close>

definition always :: "(fs \<Rightarrow> bool) \<Rightarrow> io \<Rightarrow> bool" where
  "always P s \<longleftrightarrow> P (s_fs s) \<and> list_all P (s_seen s)"

lemma alwaysD: "always P s \<Longrightarrow> P (s_fs s)"
  by (simp add: always_def)

lemma always_mono: "always P s \<Longrightarrow> (\<And>f. P f \<Longrightarrow> Q f) \<Longrightarrow> always Q s"
  by (auto simp: always_def list_all_iff)

lemma fault_keeps:
  assumes "fault s = (r, s')"
  shows "s_fs s' = s_fs s" "s_seen s' = s_seen s" "s_pool s' = s_pool s" "s_ans s = [] \<Longrightarrow> r = None \<and> s' = s"
  using assms by (auto simp: fault_def split: list.splits answer.splits)

lemma always_fault: "fault s = (r, s') \<Longrightarrow> always P s' = always P s"
  by (simp add: always_def fault_keeps)

lemma query_result:
  assumes "query op s = (r, s')"
  shows "s_fs s' = s_fs s" "s_seen s' = s_seen s"
    "(\<exists>e. r = Inl (Failure e)) \<or> r = op (s_fs s)" "s_ans s = [] \<Longrightarrow> r = op (s_fs s) \<and> s' = s"
  using assms by (auto simp: query_def fault_keeps dest: fault_keeps(4) split: prod.splits option.splits)

lemma always_query: "query op s = (r, s') \<Longrightarrow> always P s' = always P s"
  by (simp add: always_def query_result)

lemma effect_result:
  assumes "effect op s = (r, s')"
  shows "r = None \<Longrightarrow> op (s_fs s) = Inr (s_fs s')" "r \<noteq> None \<Longrightarrow> s_fs s' = s_fs s"
    "s_seen s' = (if r = None then s_fs s' # s_seen s else s_seen s)"
    "s_ans s = [] \<Longrightarrow> s_ans s' = [] \<and> (r = None \<longleftrightarrow> (\<exists>f. op (s_fs s) = Inr f))"
    "s_ans s = [] \<Longrightarrow> r = Some e \<Longrightarrow> op (s_fs s) = Inl e"
proof -
  obtain q s1 where q: "fault s = (q, s1)" by fastforce
  note k = fault_keeps [OF q]
  show "r = None \<Longrightarrow> op (s_fs s) = Inr (s_fs s')" "r \<noteq> None \<Longrightarrow> s_fs s' = s_fs s"
    "s_seen s' = (if r = None then s_fs s' # s_seen s else s_seen s)"
    using assms q k by (auto simp: effect_def put_def split: option.splits sum.splits)
  show "s_ans s = [] \<Longrightarrow> s_ans s' = [] \<and> (r = None \<longleftrightarrow> (\<exists>f. op (s_fs s) = Inr f))"
    "s_ans s = [] \<Longrightarrow> r = Some e \<Longrightarrow> op (s_fs s) = Inl e"
    using assms q k by (auto simp: effect_def put_def split: option.splits sum.splits)
qed

lemma always_effect:
  "effect op s = (r, s') \<Longrightarrow> always P s \<Longrightarrow> (\<And>f'. op (s_fs s) = Inr f' \<Longrightarrow> P f') \<Longrightarrow> always P s'"
  using effect_result(1-3) [of op s r s'] by (cases r) (auto simp: always_def)

text \<open>The states that were added by a part of a run.\<close>

definition since :: "(fs \<Rightarrow> bool) \<Rightarrow> io \<Rightarrow> io \<Rightarrow> bool" where
  "since P s s' \<longleftrightarrow> P (s_fs s') \<and> (\<exists>new. s_seen s' = new @ s_seen s \<and> list_all P new)"

lemma since_refl: "P (s_fs s) \<Longrightarrow> since P s s"
  by (simp add: since_def)

lemma since_trans: "since P s s1 \<Longrightarrow> since P s1 s2 \<Longrightarrow> since P s s2"
  by (auto simp: since_def)

lemma since_always: "always P s \<Longrightarrow> since P s s' \<Longrightarrow> always P s'"
  by (auto simp: since_def always_def)

lemma since_query: "query op s = (r, s') \<Longrightarrow> P (s_fs s) \<Longrightarrow> since P s s'"
  by (simp add: since_def query_result)

lemma since_effect:
  "effect op s = (r, s') \<Longrightarrow> P (s_fs s) \<Longrightarrow> (\<And>f'. op (s_fs s) = Inr f' \<Longrightarrow> P f') \<Longrightarrow> since P s s'"
  using effect_result(1-3) [of op s r s'] by (cases r) (auto simp: since_def)

text \<open>
  A property of states that looks only at what is seen under one name survives whatever is
  done to the entries under another.
\<close>

locale seen_states =
  fixes P :: "fs \<Rightarrow> bool" and seg :: bytes
  assumes P_wf: "P f \<Longrightarrow> fwf f"
    and P_quiet: "P f \<Longrightarrow> quiet_on seg f f' \<Longrightarrow> fwf f' \<Longrightarrow> P f'"
begin

lemma unlink_quiet:
  assumes "P f" "f_cont f stg = Some (C_Dir d)" "stg \<noteq> seg" "sys_unlink d n f = Inr f'"
  shows "P f' \<and> f_cont f' stg = Some (C_Dir d)"
proof -
  have ne: "f_cont f seg \<noteq> Some (C_Dir d)" using fwf_dir_inj [OF P_wf [OF assms(1)] assms(2)] assms(3) by blast
  then have "quiet_on seg f f'"
    using assms(4) by (auto simp: quiet_on_def sys_unlink_def dir_upd_def inode_upd_def same_file_def
        split: option.splits dentry.splits if_splits)
  moreover have "f_cont f' = f_cont f"
    using assms(4) by (auto simp: sys_unlink_def dir_upd_def inode_upd_def split: option.splits dentry.splits)
  ultimately show ?thesis
    using P_quiet [OF assms(1)] sys_unlink_wf [OF assms(4) P_wf [OF assms(1)]] assms(2) by metis
qed

lemma unlink_all_since:
  "P (s_fs s) \<Longrightarrow> f_cont (s_fs s) stg = Some (C_Dir d) \<Longrightarrow> stg \<noteq> seg \<Longrightarrow> since P s (unlink_all d ns s)"
proof (induction ns arbitrary: s)
  case Nil
  then show ?case by (simp add: since_refl)
next
  case (Cons n ns)
  obtain r s1 where e: "effect (sys_unlink d n) s = (r, s1)" by fastforce
  have 1: "since P s s1"
    using since_effect [where P = P, OF e Cons.prems(1)] unlink_quiet [OF Cons.prems] by blast
  moreover have "f_cont (s_fs s1) stg = Some (C_Dir d)"
    using effect_result(1,2) [OF e] unlink_quiet [OF Cons.prems] Cons.prems(2) by (cases r) auto
  ultimately have "since P s1 (unlink_all d ns s1)" using Cons.IH Cons.prems(3) by (simp add: since_def)
  then show ?case using since_trans [OF 1] e by simp
qed

lemma remove_entry_quiet:
  assumes "P f" "stg \<noteq> seg"
  shows "sys_unlink_c stg f = Inr f' \<Longrightarrow> P f'" "sys_rmdir stg f = Inr f' \<Longrightarrow> P f'"
proof -
  assume a: "sys_unlink_c stg f = Inr f'"
  then have "quiet_on seg f f'"
    using assms(2) by (auto simp: sys_unlink_c_def quiet_on_def split: option.splits centry.splits)
  then show "P f'" using P_quiet [OF assms(1)] sys_unlink_c_wf [OF a P_wf [OF assms(1)]] by blast
next
  assume a: "sys_rmdir stg f = Inr f'"
  then have "quiet_on seg f f'"
    using assms(2) by (auto simp: sys_rmdir_def quiet_on_def split: option.splits centry.splits if_splits)
  then show "P f'" using P_quiet [OF assms(1)] sys_rmdir_wf [OF a P_wf [OF assms(1)]] by blast
qed

lemma rm_staging_since:
  assumes "P (s_fs s)" "stg \<noteq> seg"
  shows "since P s (rm_staging_at stg s)"
proof -
  obtain r s1 where q: "query (sys_open_dir stg) s = (r, s1)" by fastforce
  note a1 = since_query [where P = P, OF q assms(1)]
  have p1: "P (s_fs s1)" using a1 by (simp add: since_def)
  show ?thesis
  proof (cases r)
    case (Inl e)
    obtain r' s2 where e2: "effect (sys_unlink_c stg) s1 = (r', s2)" by fastforce
    have "since P s1 s2" using since_effect [where P = P, OF e2 p1] remove_entry_quiet(1) [OF p1 assms(2)] by blast
    then show ?thesis using q Inl a1 e2 since_trans [OF a1] by (simp add: rm_staging_at_def)
  next
    case (Inr d)
    then have "f_cont (s_fs s1) stg = Some (C_Dir d)"
      using query_result [OF q] by (auto simp: sys_open_dir_def split: option.splits centry.splits)
    note a2 = unlink_all_since [OF p1 this assms(2), of store_files]
    have p2: "P (s_fs (unlink_all d store_files s1))" using a2 by (simp add: since_def)
    obtain r' s2 where e: "effect (sys_rmdir stg) (unlink_all d store_files s1) = (r', s2)" by fastforce
    have "since P (unlink_all d store_files s1) s2"
      using since_effect [where P = P, OF e p2] remove_entry_quiet(2) [OF p2 assms(2)] by blast
    then show ?thesis using q Inr e since_trans [OF a1 since_trans [OF a2]] by (simp add: rm_staging_at_def)
  qed
qed

lemma rm_staging_always: "always P s \<Longrightarrow> stg \<noteq> seg \<Longrightarrow> always P (rm_staging_at stg s)"
  using since_always rm_staging_since alwaysD by blast

end

section \<open>Before and after the commit\<close>

definition before :: "fs \<Rightarrow> bytes \<Rightarrow> fs \<Rightarrow> bool" where
  "before f0 seg f \<longleftrightarrow>
     fwf f \<and> f_cont f seg = f_cont f0 seg \<and> f_nexti f0 \<le> f_nexti f
     \<and> (\<forall>l. f_cont f0 seg = Some (C_Dir l) \<longrightarrow> f_dirs f l = f_dirs f0 l)
     \<and> (\<forall>i. i < f_nexti f0 \<longrightarrow> same_file (f_inodes f0 i) (f_inodes f i))"

definition after :: "bytes list \<Rightarrow> (bytes \<Rightarrow> fview option) \<Rightarrow> bytes \<Rightarrow> fs \<Rightarrow> bool" where
  "after own m seg f \<longleftrightarrow> fwf f \<and> (\<exists>d. f_cont f seg = Some (C_Dir d) \<and> look f d = m \<and> flushed own f d)"

lemma before_refl: "fwf f \<Longrightarrow> before f seg f"
  by (simp add: before_def)

lemma same_dentry_view: "(\<And>i. e = D_Reg i \<Longrightarrow> same_file (f_inodes f i) (f_inodes f' i)) \<Longrightarrow> dentry_view f' e = dentry_view f e"
  by (cases e) (simp_all add: dentry_view_def same_file_def)

lemma look_cong:
  "f_dirs f' d = f_dirs f d \<Longrightarrow> (\<And>n i. (n, D_Reg i) \<in> set (f_dirs f d) \<Longrightarrow> same_file (f_inodes f i) (f_inodes f' i)) \<Longrightarrow>
   look f' d = look f d"
  by (rule ext) (auto simp: look_def dest!: map_of_SomeD intro!: option.map_cong same_dentry_view)

lemma before_view:
  assumes "before f0 seg f" "fwf f0"
  shows "view f seg = view f0 seg"
proof (cases "f_cont f0 seg")
  case (Some e)
  then show ?thesis
  proof (cases e)
    case (C_Dir d)
    then have "f_dirs f d = f_dirs f0 d" using assms(1) Some by (simp add: before_def)
    then have "look f d = look f0 d"
      using fwf_inode_bound [OF assms(2)] assms(1) by (intro look_cong) (auto simp: before_def)
    then show ?thesis using assms(1) Some C_Dir by (simp add: before_def view_def)
  qed (use assms(1) Some in \<open>simp add: before_def view_def\<close>)
qed (use assms(1) in \<open>simp add: before_def view_def\<close>)

lemma after_view: "after own m seg f \<Longrightarrow> view f seg = Directory m \<and> durable own f seg"
  by (auto simp: after_def view_def durable_def)

interpretation bef: seen_states "before f0 seg" seg for f0 seg
proof
  fix f f' assume a: "before f0 seg f" "quiet_on seg f f'" "fwf f'"
  have "same_file (f_inodes f0 i) (f_inodes f' i)" if "i < f_nexti f0" for i
    using a(1,2) that same_file_trans by (metis before_def quiet_on_def)
  then show "before f0 seg f'" using a by (auto simp: before_def quiet_on_def)
qed (simp add: before_def)

interpretation aft: seen_states "after own m seg" seg for own m seg
proof
  fix f f' assume a: "after own m seg f" "quiet_on seg f f'" "fwf f'"
  then obtain d where d: "f_cont f seg = Some (C_Dir d)" "look f d = m" "flushed own f d" by (auto simp: after_def)
  then have k: "f_dirs f' d = f_dirs f d" "f_dsync f' d = f_dsync f d" "f_cont f' seg = Some (C_Dir d)"
    and i: "\<And>i. same_file (f_inodes f i) (f_inodes f' i)"
    using a(2) by (auto simp: quiet_on_def)
  have "look f' d = m" using look_cong [OF k(1)] i d(2) by simp
  moreover have "synced f' e = synced f e" for e
    using i by (cases e) (simp_all add: synced_def same_file_def)
  then have "flushed own f' d" using d(3) k by (simp add: flushed_def)
  ultimately show "after own m seg f'" using a(3) k(3) by (auto simp: after_def)
qed (simp add: after_def)

section \<open>The staging directory\<close>

definition staged :: "fs \<Rightarrow> bytes \<Rightarrow> bytes \<Rightarrow> bytes list \<Rightarrow> nat \<Rightarrow> (bytes \<Rightarrow> fview option) \<Rightarrow> fs \<Rightarrow> bool" where
  "staged f0 seg stg own sd m f \<longleftrightarrow>
     before f0 seg f \<and> f_cont f stg = Some (C_Dir sd) \<and> look f sd = m
     \<and> list_all (\<lambda>(n, e). n \<in> set own \<longrightarrow> synced f e) (f_dirs f sd)"

lemma staged_other_dir: "staged f0 seg stg own sd m f \<Longrightarrow> stg \<noteq> seg \<Longrightarrow> f_cont f0 seg \<noteq> Some (C_Dir sd)"
  unfolding staged_def before_def using fwf_dir_inj by metis

lemma look_None: "look f d n = None \<longleftrightarrow> map_of (f_dirs f d) n = None"
  by (simp add: look_def)

lemma mkdir_staged:
  assumes "before f0 seg f" "stg \<noteq> seg" "sys_mkdir stg f = Inr f'"
  shows "staged f0 seg stg own (f_nextd f) (\<lambda>_. None) f'"
proof -
  have wf: "fwf f" using assms(1) by (simp add: before_def)
  have f': "f' = f\<lparr>f_cont := (f_cont f)(stg := Some (C_Dir (f_nextd f))), f_csync := False,
      f_dirs := (f_dirs f)(f_nextd f := []), f_dsync := (f_dsync f)(f_nextd f := False), f_nextd := f_nextd f + 1\<rparr>"
    using assms(3) by (simp add: sys_mkdir_def split: if_splits)
  have "l < f_nextd f" if "f_cont f0 seg = Some (C_Dir l)" for l
    using fwf_dir_bound [OF wf, of seg l] that assms(1) by (simp add: before_def)
  then have "before f0 seg f'"
    using assms(1,2) sys_mkdir_wf [OF assms(3) wf] by (auto simp: before_def f')
  then show ?thesis by (simp add: staged_def f' look_def fun_eq_iff)
qed

text \<open>A hard link shows the old file under its name.\<close>

lemma link_staged:
  assumes st: "staged f0 seg stg own sd m f" and "fwf f0" "stg \<noteq> seg" "f_cont f0 seg = Some (C_Dir l)"
    and n: "n \<notin> set own" and r: "sys_link l n sd f = Inr f'"
  shows "staged f0 seg stg own sd (m(n := look f0 l n)) f'"
proof -
  have b: "before f0 seg f" and wf: "fwf f" and ld: "f_dirs f l = f_dirs f0 l"
    using st assms(4) by (auto simp: staged_def before_def)
  have ne: "l \<noteq> sd" using staged_other_dir [OF st assms(3)] assms(4) by auto
  from r obtain i where i: "map_of (f_dirs f l) n = Some (D_Reg i)" "map_of (f_dirs f sd) n = None"
    and f': "f' = inode_upd i (\<lambda>n. n\<lparr>i_nlink := i_nlink n + 1\<rparr>) (dir_upd sd (\<lambda>es. (n, D_Reg i) # es) f)"
    by (auto simp: sys_link_def split: option.splits dentry.splits if_splits)
  have "i < f_nexti f0" using fwf_inode_bound [OF assms(2)] map_of_SomeD [OF i(1)] ld by auto
  then have view_i: "dentry_view f' (D_Reg i) = dentry_view f0 (D_Reg i)"
    using b by (simp add: before_def same_file_def dentry_view_def f' inode_upd_def dir_upd_def)
  have same: "dentry_view f' e = dentry_view f e" "synced f' e = synced f e" for e
    by (cases e; simp add: dentry_view_def synced_def f' inode_upd_def dir_upd_def)+
  have dv: "dentry_view f' = dentry_view f" using same(1) by (rule ext)
  have es: "f_dirs f' sd = (n, D_Reg i) # f_dirs f sd" by (simp add: f' inode_upd_def dir_upd_def)
  have "look f' sd = (look f sd)(n \<mapsto> dentry_view f0 (D_Reg i))"
    using view_i by (simp add: look_def es dv fun_eq_iff)
  then have "look f' sd = m(n := look f0 l n)"
    using st i(1) ld by (simp add: staged_def look_def)
  moreover have "before f0 seg f'"
    using b assms(4) ne sys_link_wf [OF r wf] by (auto simp: before_def f' inode_upd_def dir_upd_def same_file_def)
  moreover have "list_all (\<lambda>(n, e). n \<in> set own \<longrightarrow> synced f' e) (f_dirs f' sd)"
    using st n by (simp add: staged_def same list_all_iff) (simp add: f' inode_upd_def dir_upd_def)
  ultimately show ?thesis using st by (simp add: staged_def) (simp add: f' inode_upd_def dir_upd_def)
qed

text \<open>The regular files that are carried over.\<close>

definition plain_only :: "fview option \<Rightarrow> fview option" where
  "plain_only v = (case v of Some (Plain d k) \<Rightarrow> Some (Plain d k) | _ \<Rightarrow> None)"

lemma seed_loop_staged:
  assumes "fwf f0" "stg \<noteq> seg" "f_cont f0 seg = Some (C_Dir l)"
  shows "seed_loop own l sd names s = (rc, s') \<Longrightarrow> always (before f0 seg) s \<Longrightarrow> staged f0 seg stg own sd m (s_fs s) \<Longrightarrow>
    distinct names \<Longrightarrow> \<forall>n \<in> set names. m n = None \<Longrightarrow>
    always (before f0 seg) s'
    \<and> (rc = NGX_OK \<longrightarrow>
        staged f0 seg stg own sd (\<lambda>n. if n \<in> set names - set own then plain_only (look f0 l n) else m n) (s_fs s'))
    \<and> (s_ans s = [] \<longrightarrow> rc = NGX_OK \<and> s_ans s' = [])"
proof (induction names arbitrary: s m)
  case (Cons n ns)
  have ld: "f_dirs (s_fs s) l = f_dirs f0 l" using Cons.prems(3) assms(3) by (auto simp: staged_def before_def)
  show ?case
  proof (cases "n \<in> set own")
    case True
    then have "(\<lambda>k. if k \<in> set (n # ns) - set own then plain_only (look f0 l k) else m k)
        = (\<lambda>k. if k \<in> set ns - set own then plain_only (look f0 l k) else m k)" by auto
    then show ?thesis using Cons.IH [of s m] Cons.prems True by auto
  next
    case False
    obtain r s1 where q: "query (sys_stat l n) s = (r, s1)" by fastforce
    note qr = query_result [OF q]
    have a1: "always (before f0 seg) s1" using always_query [OF q] Cons.prems(2) by simp
    have st1: "staged f0 seg stg own sd m (s_fs s1)" using Cons.prems(3) qr(1) by simp
    have skip: ?thesis
      if p: "plain_only (look f0 l n) = None" and e: "seed_loop own l sd (n # ns) s = seed_loop own l sd ns s1"
    proof -
      have "(\<lambda>k. if k \<in> set (n # ns) - set own then plain_only (look f0 l k) else m k)
          = (\<lambda>k. if k \<in> set ns - set own then plain_only (look f0 l k) else m k)"
        using p Cons.prems(5) by (auto simp: fun_eq_iff)
      then show ?thesis using Cons.IH [of s1 m] Cons.prems e a1 st1 qr(4) by auto
    qed
    show ?thesis
    proof (cases r)
      case (Inl e)
      show ?thesis
      proof (cases "e = ENOENT")
        case True
        then have "look f0 l n = None"
          using qr(3) Inl ld by (auto simp: sys_stat_def look_None split: option.splits)
        then show ?thesis using skip False q Inl True by (simp add: plain_only_def)
      next
        case ne: False
        then have "s_ans s \<noteq> []" using qr(4) Inl by (auto simp: sys_stat_def split: option.splits)
        then show ?thesis using Cons.prems(1) False q Inl ne a1 by auto
      qed
    next
      case (Inr e)
      have e: "map_of (f_dirs f0 l) n = Some e"
        using qr(3) Inr ld by (auto simp: sys_stat_def split: option.splits)
      show ?thesis
      proof (cases e)
        case D_Other
        then show ?thesis using skip False q Inr e by (simp add: plain_only_def look_def dentry_view_def)
      next
        case (D_Reg i)
        obtain r2 s2 where ef: "effect (sys_link l n sd) s1 = (r2, s2)" by fastforce
        note er = effect_result [OF ef]
        have nx: "r2 \<noteq> Some EEXIST"
        proof
          assume x: "r2 = Some EEXIST"
          have "map_of (f_dirs (s_fs s1) sd) n = None" using st1 Cons.prems(5) by (auto simp: staged_def simp flip: look_None)
          then show False using ef x
            by (auto simp: effect_def sys_link_def fault_keeps split: prod.splits option.splits sum.splits dentry.splits)
        qed
        have a2: "always (before f0 seg) s2"
          using always_effect [OF ef a1] link_staged [OF st1 assms False] by (auto simp: staged_def)
        show ?thesis
        proof (cases r2)
          case (Some x)
          then have "s_ans s \<noteq> []"
            using er(5) [of x] qr(4) st1 e D_Reg ld Cons.prems(5) nx
            by (auto simp: sys_link_def staged_def simp flip: look_None split: if_splits)
          then show ?thesis using Cons.prems(1) False q Inr D_Reg ef Some nx a2 by auto
        next
          case None
          have st2: "staged f0 seg stg own sd (m(n := look f0 l n)) (s_fs s2)"
            using link_staged [OF st1 assms False] er(1) [OF None] by blast
          have pl: "plain_only (look f0 l n) = look f0 l n"
            using e D_Reg by (simp add: look_def plain_only_def dentry_view_def)
          have "(\<lambda>k. if k \<in> set ns - set own then plain_only (look f0 l k) else (m(n := look f0 l n)) k)
              = (\<lambda>k. if k \<in> set (n # ns) - set own then plain_only (look f0 l k) else m k)"
            using pl False by (auto simp: fun_eq_iff)
          moreover have "\<forall>k\<in>set ns. (m(n := look f0 l n)) k = None" using Cons.prems(4,5) by auto
          moreover have "seed_loop own l sd ns s2 = (rc, s')" using Cons.prems(1) False q Inr D_Reg ef None by simp
          moreover have "s_ans s = [] \<Longrightarrow> s_ans s2 = []" using qr(4) er(4) by auto
          ultimately show ?thesis using Cons.IH [OF _ a2 st2] Cons.prems(4) by auto
        qed
      qed
    qed
  qed
qed auto

section \<open>Writing a file\<close>

text \<open>A new file of the staging directory that is open for writing, with its inode.\<close>

definition writing ::
  "fs \<Rightarrow> bytes \<Rightarrow> bytes \<Rightarrow> bytes list \<Rightarrow> nat \<Rightarrow> (bytes \<Rightarrow> fview option) \<Rightarrow> bytes \<Rightarrow> nat \<Rightarrow> fs \<Rightarrow> bool" where
  "writing f0 seg stg own sd m leaf i f \<longleftrightarrow>
     before f0 seg f \<and> f_cont f stg = Some (C_Dir sd) \<and> f_nexti f0 \<le> i
     \<and> (\<exists>es. f_dirs f sd = (leaf, D_Reg i) # es
          \<and> list_all (\<lambda>(n, e). n \<noteq> leaf \<and> e \<noteq> D_Reg i \<and> (n \<in> set own \<longrightarrow> synced f e)) es
          \<and> (\<forall>n. map_option (dentry_view f) (map_of es n) = m n))"

lemma writing_before: "writing f0 seg stg own sd m leaf i f \<Longrightarrow> before f0 seg f"
  by (simp add: writing_def)

lemma writing_upd:
  assumes "writing f0 seg stg own sd m leaf i f"
  shows "writing f0 seg stg own sd m leaf i (inode_upd i g f)"
proof -
  from assms obtain es where es: "f_dirs f sd = (leaf, D_Reg i) # es"
    "list_all (\<lambda>(n, e). n \<noteq> leaf \<and> e \<noteq> D_Reg i \<and> (n \<in> set own \<longrightarrow> synced f e)) es"
    "\<forall>n. map_option (dentry_view f) (map_of es n) = m n"
    by (auto simp: writing_def)
  have same: "dentry_view (inode_upd i g f) e = dentry_view f e" "synced (inode_upd i g f) e = synced f e"
    if "e \<noteq> D_Reg i" for e
    using that by (cases e; simp add: dentry_view_def synced_def inode_upd_def)+
  have "before f0 seg (inode_upd i g f)"
    using assms by (auto simp: writing_def before_def) (auto simp: inode_upd_def)
  moreover have "map_option (dentry_view (inode_upd i g f)) (map_of es n) = m n" for n
  proof -
    have "map_option (dentry_view (inode_upd i g f)) (map_of es n) = map_option (dentry_view f) (map_of es n)"
      using es(2) same(1) by (cases "map_of es n") (auto simp: list_all_iff dest!: map_of_SomeD)
    then show ?thesis using es(3) by simp
  qed
  moreover have "list_all (\<lambda>(n, e). n \<noteq> leaf \<and> e \<noteq> D_Reg i \<and> (n \<in> set own \<longrightarrow> synced (inode_upd i g f) e)) es"
    using es(2) same(2) by (auto simp: list_all_iff)
  ultimately show ?thesis using assms es(1) by (auto simp: writing_def inode_upd_def)
qed

lemma writing_done:
  assumes "writing f0 seg stg own sd m leaf i f" "f_inodes f i = \<lparr>i_data = data, i_mode = mode, i_nlink = k, i_synced = True\<rparr>"
  shows "staged f0 seg stg own sd (m(leaf := Some (Plain data mode))) f"
proof -
  from assms(1) obtain es where es: "f_dirs f sd = (leaf, D_Reg i) # es"
    "list_all (\<lambda>(n, e). n \<noteq> leaf \<and> e \<noteq> D_Reg i \<and> (n \<in> set own \<longrightarrow> synced f e)) es"
    "\<forall>n. map_option (dentry_view f) (map_of es n) = m n"
    by (auto simp: writing_def)
  have "look f sd = m(leaf := Some (Plain data mode))"
    using es assms(2) by (auto simp: look_def fun_eq_iff dentry_view_def)
  moreover have "list_all (\<lambda>(n, e). n \<in> set own \<longrightarrow> synced f e) (f_dirs f sd)"
    using es(1,2) assms(2) by (auto simp: list_all_iff synced_def)
  ultimately show ?thesis using assms(1) by (simp add: staged_def writing_def)
qed

lemma creat_writing:
  assumes st: "staged f0 seg stg own sd m f" and "stg \<noteq> seg" "m leaf = None" "sys_creat sd leaf mode f = Inr f'"
  shows "writing f0 seg stg own sd m leaf (f_nexti f) f'"
    "f_inodes f' (f_nexti f) = \<lparr>i_data = [], i_mode = mode, i_nlink = 1, i_synced = False\<rparr>"
    "reg_of sd leaf f' = Some (f_nexti f)"
proof -
  have b: "before f0 seg f" and wf: "fwf f" using st by (auto simp: staged_def before_def)
  have fresh: "map_of (f_dirs f sd) leaf = None" using st assms(3) by (auto simp: staged_def simp flip: look_None)
  then have f': "f' = inode_upd (f_nexti f) (\<lambda>n. \<lparr>i_data = [], i_mode = mode, i_nlink = 1, i_synced = False\<rparr>)
      (dir_upd sd (\<lambda>es. (leaf, D_Reg (f_nexti f)) # es) (f\<lparr>f_nexti := f_nexti f + 1\<rparr>))"
    using assms(4) by (simp add: sys_creat_def)
  have ne: "f_cont f0 seg \<noteq> Some (C_Dir sd)" using staged_other_dir [OF st assms(2)] .
  have b': "before f0 seg f'"
    using b ne sys_creat_wf [OF assms(4) wf]
    by (auto simp: before_def) (auto simp: f' inode_upd_def dir_upd_def)
  have old: "e \<noteq> D_Reg (f_nexti f)" if "(n, e) \<in> set (f_dirs f sd)" for n e
    using fwf_inode_bound [OF wf] that by fastforce
  have same: "dentry_view f' e = dentry_view f e" "synced f' e = synced f e" if "e \<noteq> D_Reg (f_nexti f)" for e
    using that by (cases e; simp add: dentry_view_def synced_def f' inode_upd_def dir_upd_def)+
  have es: "f_dirs f' sd = (leaf, D_Reg (f_nexti f)) # f_dirs f sd" by (simp add: f' inode_upd_def dir_upd_def)
  have "list_all (\<lambda>(n, e). n \<noteq> leaf \<and> e \<noteq> D_Reg (f_nexti f) \<and> (n \<in> set own \<longrightarrow> synced f' e)) (f_dirs f sd)"
  proof -
    have "n \<noteq> leaf \<and> (n \<in> set own \<longrightarrow> synced f' e)" if "(n, e) \<in> set (f_dirs f sd)" for n e
      using that imageI [OF that, of fst] fresh st same(2) [OF old [OF that]] by (auto simp: staged_def list_all_iff map_of_eq_None_iff)
    then show ?thesis using old by (auto simp: list_all_iff)
  qed
  moreover have "map_option (dentry_view f') (map_of (f_dirs f sd) n) = m n" for n
  proof -
    have "map_option (dentry_view f') (map_of (f_dirs f sd) n) = look f sd n"
      using old same(1) by (cases "map_of (f_dirs f sd) n") (auto simp: look_def dest!: map_of_SomeD)
    then show ?thesis using st by (simp add: staged_def)
  qed
  ultimately show "writing f0 seg stg own sd m leaf (f_nexti f) f'"
    using b' es st b unfolding writing_def staged_def before_def
    by (simp add: f' inode_upd_def dir_upd_def)
  show "f_inodes f' (f_nexti f) = \<lparr>i_data = [], i_mode = mode, i_nlink = 1, i_synced = False\<rparr>"
    "reg_of sd leaf f' = Some (f_nexti f)"
    by (simp_all add: f' inode_upd_def dir_upd_def reg_of_def)
qed

lemma unlink_staging_before:
  assumes "before f0 seg f" "f_cont f stg = Some (C_Dir sd)" "stg \<noteq> seg" "sys_unlink sd leaf f = Inr f'"
  shows "before f0 seg f'"
  using bef.unlink_quiet [OF assms] by blast

lemma always_put: "always P (put f s) \<longleftrightarrow> P f \<and> always P s \<or> P f \<and> list_all P (s_seen s)"
  by (auto simp: always_def put_def)

lemma write_loop_writing:
  "write_loop as i data s = (ok, s') \<Longrightarrow> writing f0 seg stg own sd m leaf i (s_fs s) \<Longrightarrow> always (before f0 seg) s \<Longrightarrow>
   always (before f0 seg) s' \<and> writing f0 seg stg own sd m leaf i (s_fs s')
   \<and> i_mode (f_inodes (s_fs s') i) = i_mode (f_inodes (s_fs s) i)
   \<and> (ok \<longrightarrow> i_data (f_inodes (s_fs s') i) = i_data (f_inodes (s_fs s) i) @ data)
   \<and> (as = [] \<longrightarrow> ok \<and> s_ans s' = [])"
proof (induction as i data s arbitrary: s' rule: write_loop.induct)
  case (1 as i s)
  then show ?case by (auto simp: always_def)
next
  case (2 i c cs s)
  then show ?case
    using writing_upd [OF 2(2)] writing_before [OF writing_upd [OF 2(2)]]
    by (auto simp: put_def always_def write_some_def) (simp_all add: inode_upd_def)
next
  case (3 as i c cs s)
  then show ?case
    using writing_upd [OF 3(2)] writing_before [OF writing_upd [OF 3(2)]]
    by (auto simp: put_def always_def write_some_def) (simp_all add: inode_upd_def)
next
  case (4 e as i c cs s)
  then show ?case by (auto simp: always_def split: if_splits)
next
  case (5 n as i c cs s)
  show ?case
  proof (cases "n = 0")
    case True
    then show ?thesis using 5 by (auto simp: always_def)
  next
    case False
    let ?s = "put (write_some i (take n (c # cs)) (s_fs s)) s"
    have w: "writing f0 seg stg own sd m leaf i (s_fs ?s)"
      using writing_upd [OF 5(3)] by (simp add: put_def write_some_def)
    moreover have "always (before f0 seg) ?s"
      using writing_before [OF w] 5(4) by (simp add: always_def put_def)
    moreover have "i_data (f_inodes (s_fs ?s) i) @ drop n (c # cs) = i_data (f_inodes (s_fs s) i) @ c # cs"
      "i_mode (f_inodes (s_fs ?s) i) = i_mode (f_inodes (s_fs s) i)"
      by (simp_all add: put_def write_some_def inode_upd_def)
    ultimately show ?thesis using 5(1) [OF False, of s'] 5(2) False by auto
  qed
qed

lemma effect_upd_writing:
  assumes "effect (\<lambda>f. Inr (inode_upd i g f)) s = (r, s')" "writing f0 seg stg own sd m leaf i (s_fs s)"
    "always (before f0 seg) s"
  shows "always (before f0 seg) s'" "writing f0 seg stg own sd m leaf i (s_fs s')"
    "r = None \<Longrightarrow> f_inodes (s_fs s') i = g (f_inodes (s_fs s) i)"
    "s_ans s = [] \<Longrightarrow> r = None \<and> s_ans s' = []"
proof -
  note er = effect_result [OF assms(1)]
  show w: "writing f0 seg stg own sd m leaf i (s_fs s')"
    using er(1,2) writing_upd [OF assms(2), of g] assms(2) by (cases r) auto
  show "always (before f0 seg) s'"
    using always_effect [OF assms(1,3)] writing_before [OF writing_upd [OF assms(2)]] by blast
  show "r = None \<Longrightarrow> f_inodes (s_fs s') i = g (f_inodes (s_fs s) i)"
  proof -
    assume "r = None"
    from er(1) [OF this] have "s_fs s' = inode_upd i g (s_fs s)" by simp
    then show "f_inodes (s_fs s') i = g (f_inodes (s_fs s) i)" by (simp add: inode_upd_def)
  qed
  show "s_ans s = [] \<Longrightarrow> r = None \<and> s_ans s' = []" using er(4) by auto
qed

lemma give_up_before:
  assumes "writing f0 seg stg own sd m leaf i (s_fs s)" "always (before f0 seg) s" "stg \<noteq> seg"
  shows "always (before f0 seg) (snd (effect (sys_unlink sd leaf) s))"
proof -
  obtain r s' where e: "effect (sys_unlink sd leaf) s = (r, s')" by fastforce
  have "f_cont (s_fs s) stg = Some (C_Dir sd)" using assms(1) by (simp add: writing_def)
  then show ?thesis
    using always_effect [OF e assms(2)] unlink_staging_before [OF alwaysD [OF assms(2)] _ assms(3)] e by auto
qed

text \<open>
  A file is written whole and flushed, or the call fails; no file outside the staging
  directory changes on the way, and without faults the call succeeds.
\<close>

lemma write_tmp_at_staged:
  assumes st: "staged f0 seg stg own sd m (s_fs s)" and a: "always (before f0 seg) s" and ne: "stg \<noteq> seg"
    and "m leaf = None" and w: "write_tmp_at sd leaf data mode s = (rc, s')"
  shows "always (before f0 seg) s'
    \<and> (rc = NGX_OK \<longrightarrow> staged f0 seg stg own sd (m(leaf := Some (Plain data mode))) (s_fs s'))
    \<and> (s_ans s = [] \<longrightarrow> rc = NGX_OK \<and> s_ans s' = [])"
proof -
  obtain r1 s1 where e1: "effect (sys_creat sd leaf mode) s = (r1, s1)" by fastforce
  note er1 = effect_result [OF e1]
  note cw = creat_writing [OF st ne assms(4)]
  have a1: "always (before f0 seg) s1" using always_effect [OF e1 a] writing_before [OF cw(1)] by blast
  have ok1: "s_ans s = [] \<Longrightarrow> r1 = None"
    using er1(4) st assms(4) by (auto simp: sys_creat_def staged_def look_None split: option.splits)
  show ?thesis
  proof (cases r1)
    case (Some e)
    then show ?thesis using w e1 a1 ok1 by (auto simp: write_tmp_at_def)
  next
    case None
    define i where "i = f_nexti (s_fs s)"
    have w1: "writing f0 seg stg own sd m leaf i (s_fs s1)"
      and n1: "f_inodes (s_fs s1) i = \<lparr>i_data = [], i_mode = mode, i_nlink = 1, i_synced = False\<rparr>"
      and reg: "reg_of sd leaf (s_fs s1) = Some i"
      using cw [OF er1(1) [OF None]] by (simp_all add: i_def)
    obtain r2 s2 where e2: "query (\<lambda>f. Inr (i_nlink (f_inodes f i))) s1 = (r2, s2)" by fastforce
    note q2 = query_result [OF e2]
    have a2: "always (before f0 seg) s2" and w2: "writing f0 seg stg own sd m leaf i (s_fs s2)"
      using always_query [OF e2] a1 w1 q2(1) by simp_all
    have r2: "(\<exists>e. r2 = Inl e \<and> s_ans s1 \<noteq> []) \<or> r2 = Inr 1" using q2(3,4) n1 by auto
    obtain r3 s3 where e3: "effect (\<lambda>f. Inr (inode_upd i (\<lambda>n. n\<lparr>i_data := [], i_synced := False\<rparr>) f)) s2 = (r3, s3)" by fastforce
    note f3 = effect_upd_writing [OF e3 w2 a2]
    obtain r4 s4 where e4: "effect (\<lambda>f. Inr (inode_upd i (\<lambda>n. n\<lparr>i_mode := mode, i_synced := False\<rparr>) f)) s3 = (r4, s4)" by fastforce
    note f4 = effect_upd_writing [OF e4 f3(2,1)]
    obtain b5 s5 where e5: "write_loop (s_ans s4) i data s4 = (b5, s5)" by fastforce
    note f5 = write_loop_writing [OF e5 f4(2,1)]
    obtain r6 s6 where e6: "effect (\<lambda>f. Inr (inode_upd i (\<lambda>n. n\<lparr>i_synced := True\<rparr>) f)) s5 = (r6, s6)" by fastforce
    have "writing f0 seg stg own sd m leaf i (s_fs s5)" "always (before f0 seg) s5" using f5 by blast+
    note f6 = effect_upd_writing [OF e6 this]
    obtain r7 s7 where e7: "fault s6 = (r7, s7)" by fastforce
    note k7 = fault_keeps [OF e7]
    have a7: "always (before f0 seg) s7" "writing f0 seg stg own sd m leaf i (s_fs s7)"
      using always_fault [OF e7] f6(1,2) k7(1) by simp_all
    have fin: "f_inodes (s_fs s7) i = \<lparr>i_data = data, i_mode = mode, i_nlink = i_nlink (f_inodes (s_fs s7) i), i_synced = True\<rparr>"
      if "r3 = None" "r4 = None" "b5" "r6 = None"
      using f6(3) [OF that(4)] f5 that f4(3) f3(3) k7(1) by (cases "f_inodes (s_fs s5) i") auto
    note unf = write_tmp_at_def e1 None reg e2 e3 e4 e5 e6 e7
    note gu4 = give_up_before [OF f4(2,1) ne] and gu5 = give_up_before [OF \<open>writing f0 seg stg own sd m leaf i (s_fs s5)\<close> \<open>always (before f0 seg) s5\<close> ne]
      and gu6 = give_up_before [OF f6(2,1) ne] and gu7 = give_up_before [OF a7(2,1) ne]
    have A: "always (before f0 seg) s'"
      using w a2 f3(1) gu4 gu5 gu6 gu7 a7(1) r2
      by (auto simp: unf Let_def split: option.splits if_splits bool.splits)
    have B: "staged f0 seg stg own sd (m(leaf := Some (Plain data mode))) (s_fs s')" if "rc = NGX_OK"
    proof -
      have "r3 = None" "r4 = None" "b5" "r6 = None" "s' = s7"
        using w r2 that by (auto simp: unf Let_def split: option.splits if_splits bool.splits)
      then show ?thesis using writing_done [OF a7(2) fin] by simp
    qed
    have C: "rc = NGX_OK \<and> s_ans s' = []" if "s_ans s = []"
    proof -
      have "s_ans s1 = []" using er1(4) [OF that] by simp
      then have r2': "s2 = s1" "r2 = Inr 1" using q2(4) r2 by auto
      with \<open>s_ans s1 = []\<close> have r3: "r3 = None" "s_ans s3 = []" using f3(4) by auto
      then have r4: "r4 = None" "s_ans s4 = []" using f4(4) by auto
      then have r5: "b5" "s_ans s5 = []" using f5 by auto
      then have r6: "r6 = None" "s_ans s6 = []" using f6(4) by auto
      then have r7: "r7 = None" "s7 = s6" using k7(4) by auto
      show ?thesis using w r2'(2) r3(1) r4(1) r5(1) r6 r7 by (simp add: unf Let_def)
    qed
    show ?thesis using A B C by blast
  qed
qed

section \<open>Flushing\<close>

lemma fsync_loop_result:
  "fsync_loop k sync s = (rc, s') \<Longrightarrow> P (s_fs s) \<Longrightarrow> (\<And>f. P f \<Longrightarrow> P (sync f)) \<Longrightarrow>
   since P s s' \<and> (rc = NGX_OK \<longrightarrow> s_fs s' = sync (s_fs s)) \<and> (s_ans s = [] \<and> 0 < k \<longrightarrow> rc = NGX_OK \<and> s_ans s' = [])"
proof (induction k arbitrary: s)
  case (Suc k)
  obtain r s1 where e: "effect (\<lambda>f. Inr (sync f)) s = (r, s1)" by fastforce
  note er = effect_result [OF e]
  have a1: "since P s s1" using since_effect [where P = P, OF e Suc.prems(2)] Suc.prems(2,3) by blast
  show ?case
  proof (cases "r = Some (Failure EINTR)")
    case True
    then have f: "s_fs s1 = s_fs s" "s_ans s \<noteq> []" using er by auto
    have "fsync_loop k sync s1 = (rc, s')" using Suc.prems(1) e True by simp
    from Suc.IH [OF this _ Suc.prems(3)] show ?thesis using f Suc.prems(2) since_trans [OF a1] by simp
  next
    case False
    then show ?thesis using Suc.prems(1) e a1 er
      by (cases r) (auto split: errno.splits failure.splits)
  qed
qed (auto simp: since_refl)

section \<open>The pair\<close>

text \<open>Files written one after the other.\<close>

fun write_files :: "nat \<Rightarrow> (bytes \<times> bytes \<times> nat) list \<Rightarrow> io \<Rightarrow> ngx_rc \<times> io" where
  "write_files sd [] s = (NGX_OK, s)"
| "write_files sd ((leaf, data, mode) # fs) s =
     (case write_tmp_at sd leaf data mode s of
        (NGX_OK, s1) \<Rightarrow> write_files sd fs s1
      | (_, s1) \<Rightarrow> (NGX_ERROR, s1))"

definition overlay :: "(bytes \<times> bytes \<times> nat) list \<Rightarrow> (bytes \<Rightarrow> fview option) \<Rightarrow> bytes \<Rightarrow> fview option" where
  "overlay fs m n = (case map_of fs n of Some (d, k) \<Rightarrow> Some (Plain d k) | None \<Rightarrow> m n)"

lemma write_files_staged:
  assumes "stg \<noteq> seg"
  shows "write_files sd fs s = (rc, s') \<Longrightarrow> staged f0 seg stg own sd m (s_fs s) \<Longrightarrow> always (before f0 seg) s \<Longrightarrow>
    distinct (map fst fs) \<Longrightarrow> \<forall>n \<in> fst ` set fs. m n = None \<Longrightarrow>
    always (before f0 seg) s'
    \<and> (rc = NGX_OK \<longrightarrow> staged f0 seg stg own sd (overlay fs m) (s_fs s'))
    \<and> (s_ans s = [] \<longrightarrow> rc = NGX_OK \<and> s_ans s' = [])"
proof (induction fs arbitrary: s m)
  case Nil
  have "overlay [] m = m" by (simp add: overlay_def fun_eq_iff)
  then show ?case using Nil by auto
next
  case (Cons x fs)
  obtain n d k where x: "x = (n, d, k)" by (metis prod_cases3)
  obtain r1 s1 where e: "write_tmp_at sd n d k s = (r1, s1)" by fastforce
  have "m n = None" using Cons.prems(5) x by simp
  note f1 = write_tmp_at_staged [OF Cons.prems(2,3) assms this e]
  show ?case
  proof (cases "r1 = NGX_OK")
    case True
    let ?m = "m(n := Some (Plain d k))"
    have st1: "staged f0 seg stg own sd ?m (s_fs s1)" and a1: "always (before f0 seg) s1" using f1 True by blast+
    have "n \<notin> fst ` set fs" using Cons.prems(4) x by simp
    then have "map_of fs n = None" by (simp add: map_of_eq_None_iff)
    then have "overlay fs ?m = overlay (x # fs) m"
      by (auto simp: overlay_def x fun_eq_iff split: option.split)
    moreover have "\<forall>n \<in> fst ` set fs. ?m n = None" using Cons.prems(5) \<open>n \<notin> fst ` set fs\<close> by auto
    moreover have "write_files sd fs s1 = (rc, s')" "distinct (map fst fs)" using Cons.prems(1,4) e True x by auto
    ultimately show ?thesis
      using Cons.IH [OF _ st1 a1] f1 by (auto simp del: fun_upd_apply)
  next
    case False
    then show ?thesis using Cons.prems(1) e x f1 by (cases r1) auto
  qed
qed

text \<open>The files that a job writes, and the directory that it leaves.\<close>

definition pair_files :: "store_job \<Rightarrow> (bytes \<times> bytes \<times> nat) list" where
  "pair_files j =
     (let n = keytype_pem_names (j_key_type j) in
      [(pn_priv n, j_key_pem j, 384), (pn_chain n, j_chain j, 420)])"

definition new_files :: "store_job \<Rightarrow> (bytes \<times> bytes \<times> nat) list" where
  "new_files j =
     pair_files j
     @ (if j_layout j = STORE_CERTBOT
        then (case split_chain (j_chain j) of
                None \<Rightarrow> []
              | Some (leaf, rest) \<Rightarrow>
                  [(pn_leaf (keytype_pem_names (j_key_type j)), leaf, 420),
                   (pn_rest (keytype_pem_names (j_key_type j)), rest, 420)])
        else [])"

definition carried :: "key_type \<Rightarrow> view \<Rightarrow> bytes \<Rightarrow> fview option" where
  "carried kt v n =
     (case v of
        Directory old \<Rightarrow> if n \<in> set store_files - set (own_names kt) then plain_only (old n) else None
      | _ \<Rightarrow> None)"

definition new_dir :: "store_job \<Rightarrow> view \<Rightarrow> bytes \<Rightarrow> fview option" where
  "new_dir j v = overlay (new_files j) (carried (j_key_type j) v)"

lemma own_names_facts:
  "distinct (own_names kt)" "set (own_names kt) \<subseteq> set store_files" "distinct store_files"
  by (simp_all add: own_names_def keytype_pem_names_def store_files_def Let_def)

lemma new_files_fst:
  "map fst (new_files j) =
     (if j_layout j = STORE_CERTBOT \<and> split_chain (j_chain j) \<noteq> None then own_names (j_key_type j)
      else take 2 (own_names (j_key_type j)))"
  unfolding new_files_def pair_files_def own_names_def Let_def by (auto split: option.split)

lemma new_files_distinct: "distinct (map fst (new_files j))"
  unfolding new_files_fst using own_names_facts(1) by simp

lemma new_files_own: "fst ` set (new_files j) \<subseteq> set (own_names (j_key_type j))"
  using new_files_fst [of j] set_take_subset [of 2 "own_names (j_key_type j)"]
  by (metis list.set_map order_refl)

lemma carried_own: "n \<in> set (own_names kt) \<Longrightarrow> carried kt v n = None"
  by (simp add: carried_def split: view.splits)

lemma new_files_carried: "\<forall>n \<in> fst ` set (new_files j). carried (j_key_type j) v n = None"
proof
  fix n assume "n \<in> fst ` set (new_files j)"
  then have "n \<in> set (own_names (j_key_type j))" using new_files_own [of j] by blast
  then show "carried (j_key_type j) v n = None" by (rule carried_own)
qed

lemma write_tmp_at_rc: "write_tmp_at sd leaf data mode s = (rc, s') \<Longrightarrow> rc = NGX_OK \<or> rc = NGX_ERROR"
  unfolding write_tmp_at_def Let_def
  by (auto split: prod.splits option.splits sum.splits if_splits bool.splits)

lemma write_pair_files:
  "write_pair j sd s =
     (if j_layout j = STORE_CERTBOT \<and> split_chain (j_chain j) = None
      then (case write_files sd (pair_files j) s of (_, s2) \<Rightarrow> (NGX_ERROR, s2))
      else write_files sd (new_files j) s)"
  unfolding write_pair_def new_files_def pair_files_def Let_def
  by (auto split: prod.splits ngx_rc.splits option.splits dest: write_tmp_at_rc)

lemma write_pair_staged:
  assumes st: "staged f0 seg stg own sd (carried (j_key_type j) v) (s_fs s)" and a: "always (before f0 seg) s"
    and ne: "stg \<noteq> seg" and w: "write_pair j sd s = (rc, s')"
  shows "always (before f0 seg) s'
    \<and> (rc = NGX_OK \<longrightarrow> staged f0 seg stg own sd (new_dir j v) (s_fs s'))
    \<and> (rc = NGX_OK \<and> j_layout j = STORE_CERTBOT \<longrightarrow> split_chain (j_chain j) \<noteq> None)
    \<and> (s_ans s = [] \<and> (j_layout j = STORE_CERTBOT \<longrightarrow> split_chain (j_chain j) \<noteq> None) \<longrightarrow> rc = NGX_OK \<and> s_ans s' = [])"
proof (cases "j_layout j = STORE_CERTBOT \<and> split_chain (j_chain j) = None")
  case True
  obtain r s2 where e: "write_files sd (pair_files j) s = (r, s2)" by fastforce
  have nf: "new_files j = pair_files j" using True by (simp add: new_files_def)
  note f = write_files_staged [OF ne e [folded nf] st a new_files_distinct new_files_carried]
  have "rc = NGX_ERROR" "s' = s2" using w e True by (auto simp: write_pair_files)
  then show ?thesis using f True by simp
next
  case False
  then have "write_pair j sd s = write_files sd (new_files j) s" unfolding write_pair_files by (rule if_not_P)
  then have e: "write_files sd (new_files j) s = (rc, s')" using w by simp
  note f = write_files_staged [OF ne e st a new_files_distinct new_files_carried]
  show ?thesis using f False by (simp add: new_dir_def)
qed

section \<open>The commit\<close>

text \<open>What every state shows: the old directory, or the new one, flushed.\<close>

definition old_or_new :: "store_job \<Rightarrow> fs \<Rightarrow> bytes \<Rightarrow> fs \<Rightarrow> bool" where
  "old_or_new j f0 seg f \<longleftrightarrow>
     view f seg = view f0 seg
     \<or> view f seg = Directory (new_dir j (view f0 seg)) \<and> durable (own_names (j_key_type j)) f seg"

lemma after_old_or_new: "after (own_names (j_key_type j)) (new_dir j (view f0 seg)) seg f \<Longrightarrow> old_or_new j f0 seg f"
  using after_view by (auto simp: old_or_new_def)

lemma before_old_or_new: "before f0 seg f \<Longrightarrow> fwf f0 \<Longrightarrow> old_or_new j f0 seg f"
  using before_view by (auto simp: old_or_new_def)

lemma unlink_all_ans: "s_ans s = [] \<Longrightarrow> s_ans (unlink_all d ns s) = []"
proof (induction ns arbitrary: s)
  case (Cons n ns)
  obtain r s1 where "effect (sys_unlink d n) s = (r, s1)" by fastforce
  then show ?case using Cons effect_result(4) by auto
qed simp

lemma rm_staging_ans: "s_ans s = [] \<Longrightarrow> s_ans (rm_staging_at stg s) = []"
proof -
  assume a: "s_ans s = []"
  obtain r s1 where q: "query (sys_open_dir stg) s = (r, s1)" by fastforce
  have s1: "s1 = s" using query_result(4) [OF q a] by simp
  have ans: "s_ans (snd (effect op t)) = []" if "s_ans t = []" for op t
    using effect_result(4) [of op t] that by (cases "effect op t") auto
  show ?thesis using q s1 ans unlink_all_ans a by (cases r) (simp_all add: rm_staging_at_def)
qed

interpretation any: seen_states "\<lambda>f. before f0 seg f \<or> after own m seg f" seg for f0 seg own m
proof
  fix f f' assume "before f0 seg f \<or> after own m seg f" "quiet_on seg f f'" "fwf f'"
  then show "before f0 seg f' \<or> after own m seg f'" using bef.P_quiet aft.P_quiet by blast
qed (auto simp: before_def after_def)

lemma sync_cont_after: "after own m seg f \<Longrightarrow> after own m seg (sync_cont f)"
proof (rule aft.P_quiet)
  assume "after own m seg f"
  then show "fwf (sync_cont f)" by (auto simp: after_def fwf_def sync_cont_def)
qed (auto simp: quiet_on_def sync_cont_def)

text \<open>The staging directory, flushed, becomes the live one in a single step.\<close>

lemma rename_after:
  assumes "staged f0 seg stg own sd m f" "f_dsync f sd" "stg \<noteq> seg"
    "sys_rename_noreplace stg seg f = Inr f' \<or> sys_rename_exchange stg seg f = Inr f'"
  shows "after own m seg f'"
proof -
  have wf: "fwf f" and c: "f_cont f stg = Some (C_Dir sd)" and l: "look f sd = m"
    and fl: "flushed own f sd" using assms(1,2) by (auto simp: staged_def before_def flushed_def)
  have wf': "fwf f'" using assms(4) wf sys_rename_noreplace_wf sys_rename_exchange_wf by blast
  have c': "f_cont f' seg = Some (C_Dir sd)" and d: "f_dirs f' = f_dirs f" "f_dsync f' = f_dsync f" "f_inodes f' = f_inodes f"
    using assms(3,4) c by (auto simp: sys_rename_noreplace_def sys_rename_exchange_def split: if_splits)
  have "dentry_view f' e = dentry_view f e" "synced f' e = synced f e" for e
    by (cases e; simp add: dentry_view_def synced_def d)+
  then have "dentry_view f' = dentry_view f" "synced f' = synced f" by blast+
  then have "look f' sd = look f sd" "flushed own f' sd" using fl by (simp_all add: look_def [abs_def] flushed_def d)
  then have "look f' sd = m" "flushed own f' sd" using l by simp_all
  then show ?thesis using wf' c' by (auto simp: after_def)
qed

lemma commit_ok:
  assumes st: "staged f0 seg stg own sd m (s_fs s)" "f_dsync (s_fs s) sd" and a: "always (before f0 seg) s"
    and ne: "stg \<noteq> seg" and c: "commit seg stg s = (rc, s')"
  shows "always (\<lambda>f. before f0 seg f \<or> after own m seg f) s'"
    "rc = NGX_OK \<Longrightarrow> after own m seg (s_fs s') \<and> f_csync (s_fs s')"
    "rc = NGX_OK \<or> rc = NGX_ERROR"
    "s_ans s = [] \<Longrightarrow> f_cont f0 seg \<noteq> Some C_Other \<Longrightarrow> rc = NGX_OK"
proof -
  let ?Q = "\<lambda>f. before f0 seg f \<or> after own m seg f"
  obtain r1 s1 where q: "query (sys_stat_c seg) s = (r1, s1)" by fastforce
  note qr = query_result [OF q]
  have Q1: "always ?Q s1" using always_query [OF q] always_mono [OF a, of ?Q] by blast
  have st1: "staged f0 seg stg own sd m (s_fs s1)" "f_dsync (s_fs s1) sd" using st qr(1) by simp_all
  have cont: "f_cont (s_fs s) seg = f_cont f0 seg" "f_cont (s_fs s) stg = Some (C_Dir sd)"
    using st(1) by (auto simp: staged_def before_def)
  have undo: "always ?Q (rm_staging_at stg t)" if "always ?Q t" for t using any.rm_staging_always [OF that ne] .
  have flush: "always ?Q t' \<and> (x = NGX_OK \<longrightarrow> after own m seg (s_fs t') \<and> f_csync (s_fs t'))
      \<and> (x = NGX_OK \<or> x = NGX_ERROR) \<and> (s_ans t = [] \<longrightarrow> x = NGX_OK)"
    if t: "fsync_dirfd sync_cont t = (x, t')" "always ?Q t" "after own m seg (s_fs t)" for t x t'
  proof -
    note f = fsync_loop_result [OF t(1) [unfolded fsync_dirfd_def] t(3) sync_cont_after]
    have "since ?Q t t'" using f by (auto simp: since_def list_all_iff)
    moreover have "x = NGX_OK \<or> x = NGX_ERROR"
    proof -
      have "fsync_loop k g u = (x, u') \<Longrightarrow> x = NGX_OK \<or> x = NGX_ERROR" for k g u u'
        by (induction k g u rule: fsync_loop.induct) (auto split: prod.splits option.splits errno.splits failure.splits)
      then show ?thesis using t(1) by (simp add: fsync_dirfd_def)
    qed
    ultimately show ?thesis using f since_always [OF t(2)] by (auto simp: since_def sync_cont_def)
  qed
  have main: "always ?Q s' \<and> (rc = NGX_OK \<longrightarrow> after own m seg (s_fs s') \<and> f_csync (s_fs s'))
      \<and> (rc = NGX_OK \<or> rc = NGX_ERROR) \<and> (s_ans s = [] \<and> f_cont f0 seg \<noteq> Some C_Other \<longrightarrow> rc = NGX_OK)"
  proof (cases r1)
    case (Inl e)
    obtain r2 s2 where e2: "effect (sys_rename_noreplace stg seg) s1 = (r2, s2)" by fastforce
    note er = effect_result [OF e2]
    have Q2: "always ?Q s2" using always_effect [OF e2 Q1] rename_after [OF st1 ne] by blast
    show ?thesis
    proof (cases "e = ENOENT \<and> r2 = None")
      case True
      have "after own m seg (s_fs s2)" using rename_after [OF st1 ne] er(1) True by blast
      moreover have "fsync_dirfd sync_cont s2 = (rc, s')"
        using c q Inl e2 True by (simp add: commit_def rename_rc_def)
      moreover have "s_ans s = [] \<Longrightarrow> s_ans s2 = []" using qr(4) er(4) by auto
      ultimately show ?thesis using flush [OF _ Q2] by blast
    next
      case False
      have "rc = NGX_ERROR \<and> (s' = rm_staging_at stg s1 \<or> s' = rm_staging_at stg s2)"
        using c q Inl e2 False by (auto simp: commit_def rename_rc_def split: option.splits errno.splits failure.splits if_splits)
      moreover have "s_ans s \<noteq> []"
        using False qr(4) er(4) Inl cont
        by (auto simp: sys_stat_c_def sys_rename_noreplace_def split: option.splits if_splits)
      ultimately show ?thesis using undo Q1 Q2 by auto
    qed
  next
    case (Inr e)
    then have e: "f_cont f0 seg = Some e" using qr(3) cont by (auto simp: sys_stat_c_def split: option.splits)
    show ?thesis
    proof (cases e)
      case C_Other
      then show ?thesis using c q Inr undo Q1 e by (auto simp: commit_def)
    next
      case (C_Dir l)
      obtain r2 s2 where e2: "effect (sys_rename_exchange stg seg) s1 = (r2, s2)" by fastforce
      note er = effect_result [OF e2]
      have Q2: "always ?Q s2" using always_effect [OF e2 Q1] rename_after [OF st1 ne] by blast
      show ?thesis
      proof (cases "r2 = None")
        case True
        have af: "after own m seg (s_fs s2)" using rename_after [OF st1 ne] er(1) True by blast
        then have "after own m seg (s_fs (rm_staging_at stg s2))"
          using aft.rm_staging_since [OF af ne] by (simp add: since_def)
        moreover have "fsync_dirfd sync_cont (rm_staging_at stg s2) = (rc, s')"
          using c q Inr C_Dir e2 True by (simp add: commit_def swap_dirs_at_def rename_rc_def)
        moreover have "s_ans s = [] \<Longrightarrow> s_ans (rm_staging_at stg s2) = []" using qr(4) er(4) rm_staging_ans by auto
        ultimately show ?thesis using flush [OF _ undo [OF Q2]] by blast
      next
        case False
        have "rc = NGX_ERROR \<and> s' = rm_staging_at stg s2"
          using c q Inr C_Dir e2 False
          by (auto simp: commit_def swap_dirs_at_def rename_rc_def split: option.splits errno.splits failure.splits)
        moreover have "s_ans s \<noteq> []"
          using False qr(4) er(4) e cont by (auto simp: sys_rename_exchange_def split: if_splits)
        ultimately show ?thesis using undo Q2 by auto
      qed
    qed
  qed
  then show "always ?Q s'" "rc = NGX_OK \<Longrightarrow> after own m seg (s_fs s') \<and> f_csync (s_fs s')"
    "rc = NGX_OK \<or> rc = NGX_ERROR" "s_ans s = [] \<Longrightarrow> f_cont f0 seg \<noteq> Some C_Other \<Longrightarrow> rc = NGX_OK"
    by blast+
qed

section \<open>The whole store\<close>

lemma staging_ne: "staging_leaf seg \<noteq> seg"
  by (simp add: staging_leaf_def)

text \<open>A stale staging directory with nothing but files of the store is removed.\<close>

definition removable :: "fs \<Rightarrow> bytes \<Rightarrow> bool" where
  "removable f stg =
     (case f_cont f stg of Some (C_Dir d) \<Rightarrow> fst ` set (f_dirs f d) \<subseteq> set store_files | _ \<Rightarrow> True)"

lemma unlink_all_dir:
  "s_ans s = [] \<Longrightarrow> f_dirs (s_fs (unlink_all d ns s)) d = filter (\<lambda>(k, _). k \<notin> set ns) (f_dirs (s_fs s) d)
     \<and> f_cont (s_fs (unlink_all d ns s)) = f_cont (s_fs s)"
proof (induction ns arbitrary: s)
  case (Cons n ns)
  obtain r s1 where e: "effect (sys_unlink d n) s = (r, s1)" by fastforce
  note er = effect_result [OF e]
  have s1: "f_dirs (s_fs s1) d = filter (\<lambda>(k, _). k \<noteq> n) (f_dirs (s_fs s) d) \<and> f_cont (s_fs s1) = f_cont (s_fs s)"
  proof (cases r)
    case None
    have del: "AList.delete n es = filter (\<lambda>(k, _). k \<noteq> n) es" for es :: "(bytes \<times> dentry) list"
      by (auto simp: AList.delete_eq intro: filter_cong)
    have "Inr (s_fs s1) = sys_unlink d n (s_fs s)" using er(1) [OF None] by simp
    then show ?thesis
      by (auto simp: sys_unlink_def inode_upd_def dir_upd_def del split: option.splits dentry.splits)
  next
    case (Some x)
    then have "map_of (f_dirs (s_fs s) d) n = None"
      using er(5) [OF Cons.prems] by (auto simp: sys_unlink_def split: option.splits dentry.splits)
    then have "filter (\<lambda>(k, _). k \<noteq> n) (f_dirs (s_fs s) d) = f_dirs (s_fs s) d"
      by (force simp: map_of_eq_None_iff intro!: filter_True)
    then show ?thesis using er(2) Some by simp
  qed
  have "s_ans s1 = []" using er(4) Cons.prems by simp
  from Cons.IH [OF this] s1 e show ?case by (auto simp: case_prod_beta intro!: filter_cong)
qed (simp add: case_prod_beta)

lemma rm_staging_removes:
  assumes "s_ans s = []" "removable (s_fs s) stg"
  shows "f_cont (s_fs (rm_staging_at stg s)) stg = None"
proof -
  obtain r s1 where q: "query (sys_open_dir stg) s = (r, s1)" by fastforce
  have s1: "s1 = s" "r = sys_open_dir stg (s_fs s)" using query_result(4) [OF q assms(1)] by simp_all
  show ?thesis
  proof (cases "f_cont (s_fs s) stg")
    case None
    then show ?thesis using q s1 by (simp add: rm_staging_at_def sys_open_dir_def)
  next
    case (Some c)
    show ?thesis
    proof (cases c)
      case C_Other
      obtain r' s2 where e: "effect (sys_unlink_c stg) s = (r', s2)" by fastforce
      have "r' = None" using effect_result(4) [OF e] assms(1) Some C_Other by (simp add: sys_unlink_c_def)
      then have "Inr (s_fs s2) = sys_unlink_c stg (s_fs s)" using effect_result(1) [OF e] by simp
      then have "f_cont (s_fs s2) stg = None" using Some C_Other by (simp add: sys_unlink_c_def)
      then show ?thesis using q s1 e Some C_Other by (simp add: rm_staging_at_def sys_open_dir_def)
    next
      case (C_Dir d)
      define t where "t = unlink_all d store_files s"
      have t: "f_cont (s_fs t) stg = Some (C_Dir d)" "s_ans t = []"
        using unlink_all_dir [OF assms(1)] unlink_all_ans [OF assms(1)] Some C_Dir by (simp_all add: t_def)
      have "f_dirs (s_fs t) d = []"
        using unlink_all_dir [OF assms(1), of d store_files] assms(2) Some C_Dir
        by (force simp: t_def removable_def filter_empty_conv)
      obtain r' s2 where e: "effect (sys_rmdir stg) t = (r', s2)" by fastforce
      have "r' = None" using effect_result(4) [OF e] t \<open>f_dirs (s_fs t) d = []\<close> by (simp add: sys_rmdir_def)
      then have "Inr (s_fs s2) = sys_rmdir stg (s_fs t)" using effect_result(1) [OF e] by simp
      then have "f_cont (s_fs s2) stg = None" using t \<open>f_dirs (s_fs t) d = []\<close> by (simp add: sys_rmdir_def)
      then show ?thesis using q s1 e Some C_Dir by (simp add: rm_staging_at_def sys_open_dir_def t_def)
    qed
  qed
qed

lemma seed_staging_staged:
  assumes "fwf f0" "stg \<noteq> seg" and st: "staged f0 seg stg (own_names kt) sd (\<lambda>_. None) (s_fs s)"
    and a: "always (before f0 seg) s" and sd: "seed_staging_at seg sd kt s = (rc, s')"
  shows "always (before f0 seg) s'
    \<and> (rc = NGX_OK \<longrightarrow> staged f0 seg stg (own_names kt) sd (carried kt (view f0 seg)) (s_fs s'))
    \<and> (s_ans s = [] \<longrightarrow> rc = NGX_OK \<and> s_ans s' = [])"
proof -
  obtain r s1 where q: "query (sys_open_dir seg) s = (r, s1)" by fastforce
  note qr = query_result [OF q]
  have a1: "always (before f0 seg) s1" and st1: "staged f0 seg stg (own_names kt) sd (\<lambda>_. None) (s_fs s1)"
    using always_query [OF q] a st qr(1) by simp_all
  have c: "f_cont (s_fs s) seg = f_cont f0 seg" using st by (auto simp: staged_def before_def)
  show ?thesis
  proof (cases r)
    case (Inl e)
    have res: "s' = s1" "rc = (if e = ENOENT \<or> e = ENOTDIR then NGX_OK else NGX_ERROR)"
      using sd q Inl by (auto simp: seed_staging_at_def)
    have "carried kt (view f0 seg) = (\<lambda>_. None)" if "e = ENOENT \<or> e = ENOTDIR"
      using qr(3) Inl c that
      by (auto simp: sys_open_dir_def carried_def view_def fun_eq_iff split: option.splits centry.splits)
    moreover have "e = ENOENT \<or> e = ENOTDIR" if "s_ans s = []"
      using qr(4) [OF that] Inl by (auto simp: sys_open_dir_def split: option.splits centry.splits)
    ultimately show ?thesis using res a1 st1 qr(4) by auto
  next
    case (Inr l)
    then have l: "f_cont f0 seg = Some (C_Dir l)"
      using qr(3) c by (auto simp: sys_open_dir_def split: option.splits centry.splits)
    have e: "seed_loop (own_names kt) l sd store_files s1 = (rc, s')" using sd q Inr by (simp add: seed_staging_at_def)
    have "(\<lambda>n. if n \<in> set store_files - set (own_names kt) then plain_only (look f0 l n) else None)
        = carried kt (view f0 seg)"
      using l by (simp add: carried_def view_def fun_eq_iff)
    then show ?thesis
      using seed_loop_staged [OF assms(1,2) l e a1 st1 own_names_facts(3)] qr(4) by auto
  qed
qed

lemma sync_dir_staged: "staged f0 seg stg own sd m f \<Longrightarrow> staged f0 seg stg own sd m (sync_dir sd f)"
proof -
  assume a: "staged f0 seg stg own sd m f"
  have "before f0 seg (sync_dir sd f)" using a by (simp add: staged_def before_def fwf_def sync_dir_def)
  moreover have "dentry_view (sync_dir sd f) e = dentry_view f e" "synced (sync_dir sd f) e = synced f e" for e
    by (cases e; simp add: dentry_view_def synced_def sync_dir_def)+
  then have "dentry_view (sync_dir sd f) = dentry_view f" "synced (sync_dir sd f) = synced f" by blast+
  ultimately show "staged f0 seg stg own sd m (sync_dir sd f)" using a unfolding staged_def look_def [abs_def]
    by (simp add: sync_dir_def)
qed

text \<open>
  What a run may end with: only old and new states on the way, the new one when it reports
  success, and success when nothing is in its way.
\<close>

definition store_result :: "store_job \<Rightarrow> fs \<Rightarrow> bytes \<Rightarrow> bool \<Rightarrow> ngx_rc \<Rightarrow> io \<Rightarrow> bool" where
  "store_result j f0 seg smooth rc s \<longleftrightarrow>
     (let P = after (own_names (j_key_type j)) (new_dir j (view f0 seg)) seg in
      always (\<lambda>f. before f0 seg f \<or> P f) s
      \<and> (rc = NGX_OK \<longrightarrow> P (s_fs s) \<and> f_csync (s_fs s)
           \<and> (j_layout j = STORE_CERTBOT \<longrightarrow> split_chain (j_chain j) \<noteq> None))
      \<and> (rc = NGX_OK \<or> rc = NGX_ERROR) \<and> (smooth \<longrightarrow> rc = NGX_OK))"

lemma store_result_fail:
  assumes "always (before f0 seg) t" "s = t \<or> s = rm_staging_at stg t" "stg \<noteq> seg" "\<not> smooth"
  shows "store_result j f0 seg smooth NGX_ERROR s"
proof -
  have "always (before f0 seg) s" using assms(1-3) bef.rm_staging_always by blast
  then show ?thesis using assms(4) by (auto simp: store_result_def Let_def always_def list_all_iff)
qed

definition unobstructed :: "store_job \<Rightarrow> fs \<Rightarrow> bytes \<Rightarrow> bool" where
  "unobstructed j f0 seg \<longleftrightarrow>
     f_cont f0 seg \<noteq> Some C_Other \<and> (j_layout j = STORE_CERTBOT \<longrightarrow> split_chain (j_chain j) \<noteq> None)"

lemma fill_and_commit_ok:
  assumes wf: "fwf f0" and ne: "stg \<noteq> seg" and a: "always (before f0 seg) s"
    and st: "staged f0 seg stg (own_names (j_key_type j)) sd (\<lambda>_. None) (s_fs s)"
    and run: "fill_and_commit j seg stg sd s = (rc, s')"
  shows "store_result j f0 seg (s_ans s = [] \<and> unobstructed j f0 seg) rc s'"
proof -
  let ?own = "own_names (j_key_type j)" and ?smooth = "s_ans s = [] \<and> unobstructed j f0 seg"
  obtain r1 s1 where e1: "seed_staging_at seg sd (j_key_type j) s = (r1, s1)" by fastforce
  note f1 = seed_staging_staged [OF wf ne st a e1]
  obtain r2 s2 where e2: "write_pair j sd s1 = (r2, s2)" by fastforce
  obtain r3 s3 where e3: "fsync_dirfd (sync_dir sd) s2 = (r3, s3)" by fastforce
  note d = fill_and_commit_def Let_def e1 e2 e3
  show ?thesis
  proof (cases "r1 = NGX_OK")
    case False
    then have r: "rc = NGX_ERROR" and s': "s' = rm_staging_at stg s1" using run by (cases r1; simp add: d)+
    have "\<not> ?smooth" using f1 False by auto
    then show ?thesis unfolding r by (rule store_result_fail [OF conjunct1 [OF f1] disjI2 [OF s'] ne])
  next
    case o1: True
    note f2 = write_pair_staged [OF conjunct1 [OF conjunct2 [OF f1], rule_format, OF o1] conjunct1 [OF f1] ne e2]
    show ?thesis
    proof (cases "r2 = NGX_OK")
      case False
      then have r: "rc = NGX_ERROR" and s': "s' = rm_staging_at stg s2" using run o1 by (cases r2; simp add: d)+
      have "\<not> ?smooth" using f1 f2 False by (auto simp: unobstructed_def)
      then show ?thesis unfolding r by (rule store_result_fail [OF conjunct1 [OF f2] disjI2 [OF s'] ne])
    next
      case o2: True
      have st2: "staged f0 seg stg ?own sd (new_dir j (view f0 seg)) (s_fs s2)" "always (before f0 seg) s2"
        and sm2: "?smooth \<Longrightarrow> s_ans s2 = []" using f1 f2 o2 by (auto simp: unobstructed_def)
      note f3 = fsync_loop_result [OF e3 [unfolded fsync_dirfd_def] st2(1) sync_dir_staged]
      have a3: "always (before f0 seg) s3"
        using f3 since_always [OF st2(2)] by (auto simp: since_def staged_def list_all_iff)
      show ?thesis
      proof (cases "r3 = NGX_OK")
        case False
        then have r: "rc = NGX_ERROR" and s': "s' = rm_staging_at stg s3" using run o1 o2 by (cases r3; simp add: d)+
        have "\<not> ?smooth" using f3 sm2 False by auto
        then show ?thesis unfolding r by (rule store_result_fail [OF a3 disjI2 [OF s'] ne])
      next
        case o3: True
        have st3: "staged f0 seg stg ?own sd (new_dir j (view f0 seg)) (s_fs s3)" "f_dsync (s_fs s3) sd"
          using f3 o3 by (auto simp: since_def sync_dir_def)
        have "commit seg stg s3 = (rc, s')" using run o1 o2 o3 by (simp add: d)
        note c = commit_ok [OF st3 a3 ne this]
        have "?smooth \<Longrightarrow> rc = NGX_OK" using c(4) f3 sm2 by (auto simp: unobstructed_def)
        then show ?thesis using c(1-3) f2 o2 by (auto simp: store_result_def Let_def)
      qed
    qed
  qed
qed

lemma store_in_container_ok:
  assumes wf: "fwf f0" and s0: "s_fs s = f0" "s_seen s = []" and run: "store_in_container j seg s = (rc, s')"
  shows "store_result j f0 seg
    (s_ans s = [] \<and> removable f0 (staging_leaf seg) \<and> unobstructed j f0 seg) rc s'"
proof -
  let ?smooth = "s_ans s = [] \<and> removable f0 (staging_leaf seg) \<and> unobstructed j f0 seg"
  define stg where "stg = staging_leaf seg"
  have ne: "stg \<noteq> seg" by (simp add: stg_def staging_ne)
  define s1 where "s1 = rm_staging_at stg s"
  have "always (before f0 seg) s" using before_refl [OF wf] s0 by (simp add: always_def)
  then have a1: "always (before f0 seg) s1" using bef.rm_staging_always ne by (simp add: s1_def)
  have sm1: "s_ans s1 = []" "f_cont (s_fs s1) stg = None" if ?smooth
    using that rm_staging_ans rm_staging_removes [of s stg] s0 by (auto simp: s1_def stg_def)
  obtain r2 s2 where e2: "effect (sys_mkdir stg) s1 = (r2, s2)" by fastforce
  note er2 = effect_result [OF e2] and mk = mkdir_staged [OF alwaysD [OF a1] ne, of _ "own_names (j_key_type j)"]
  have a2: "always (before f0 seg) s2" using always_effect [OF e2 a1] mk by (auto simp: staged_def)
  have sm2: "r2 = None" "s_ans s2 = []" if ?smooth using er2(4) sm1 [OF that] by (auto simp: sys_mkdir_def)
  obtain r3 s3 where e3: "query (sys_open_dir stg) s2 = (r3, s3)" by fastforce
  note q3 = query_result [OF e3]
  have a3: "always (before f0 seg) s3" using a2 always_query [OF e3] by simp
  obtain r4 s4 where e4: "fault s3 = (r4, s4)" by fastforce
  note k4 = fault_keeps [OF e4]
  have a4: "always (before f0 seg) s4" using a3 always_fault [OF e4] by simp
  note d = store_in_container_def Let_def stg_def [symmetric] s1_def [symmetric] e2 e3 e4
  show ?thesis
  proof (cases "r2 = None")
    case False
    then have r: "rc = NGX_ERROR" and s': "s' = s2" using run by (auto simp: d)
    have "\<not> ?smooth" using sm2(1) False by blast
    then show ?thesis unfolding r by (rule store_result_fail [OF a2 disjI1 [OF s'] ne])
  next
    case o2: True
    define sd where "sd = f_nextd (s_fs s1)"
    have st2: "staged f0 seg stg (own_names (j_key_type j)) sd (\<lambda>_. None) (s_fs s2)"
      using mk [OF er2(1) [OF o2]] by (simp add: sd_def)
    then have open3: "sys_open_dir stg (s_fs s2) = Inr sd" by (simp add: staged_def sys_open_dir_def)
    show ?thesis
    proof (cases "r3 = Inr sd \<and> r4 = None")
      case False
      have r: "rc = NGX_ERROR" and s': "s' = rm_staging_at stg s3 \<or> s' = rm_staging_at stg s4"
        using run o2 False q3(3) open3 by (auto simp: d split: option.splits)
      have "\<not> ?smooth" using False sm2(2) q3(4) open3 k4(4) by auto
      then show ?thesis unfolding r using s'
        store_result_fail [OF a3 disjI2 [OF refl] ne] store_result_fail [OF a4 disjI2 [OF refl] ne] by metis
    next
      case True
      have "staged f0 seg stg (own_names (j_key_type j)) sd (\<lambda>_. None) (s_fs s4)" using st2 q3(1) k4(1) by simp
      moreover have "fill_and_commit j seg stg sd s4 = (rc, s')" using run o2 True by (simp add: d)
      ultimately have "store_result j f0 seg (s_ans s4 = [] \<and> unobstructed j f0 seg) rc s'"
        by (rule fill_and_commit_ok [OF wf ne a4])
      moreover have "?smooth \<Longrightarrow> s_ans s4 = []" using sm2(2) q3(4) k4(4) by auto
      ultimately show ?thesis by (auto simp: store_result_def Let_def)
    qed
  qed
qed

section \<open>Properties\<close>

lemma pool_alloc_keeps:
  assumes "pool_alloc s = (b, s1)"
  shows "s_fs s1 = s_fs s" "s_seen s1 = s_seen s" "s_ans s1 = s_ans s" "s_pool s = [] \<Longrightarrow> b \<and> s_pool s1 = []"
  using assms by (auto simp: pool_alloc_def split: prod.splits)

lemma open_container_keeps:
  assumes "open_container c s = (b, s1)"
  shows "s_fs s1 = s_fs s \<and> s_seen s1 = s_seen s \<and> (s_ans s = [] \<and> s_pool s = [] \<longrightarrow> b \<and> s_ans s1 = [])"
proof -
  obtain b1 t1 where t1: "pool_alloc s = (b1, t1)" by fastforce
  obtain b2 t2 where t2: "pool_alloc t1 = (b2, t2)" by fastforce
  obtain r3 t3 where t3: "fault t2 = (r3, t3)" by fastforce
  obtain r4 t4 where t4: "fault t3 = (r4, t4)" by fastforce
  obtain r5 t5 where t5: "fault t4 = (r5, t5)" by fastforce
  obtain r6 t6 where t6: "fault t1 = (r6, t6)" by fastforce
  note p1 = pool_alloc_keeps [OF t1] and p2 = pool_alloc_keeps [OF t2]
  note k3 = fault_keeps [OF t3] and k4 = fault_keeps [OF t4] and k5 = fault_keeps [OF t5] and k6 = fault_keeps [OF t6]
  have s1: "s1 = t1 \<or> s1 = t2 \<or> s1 = t3 \<or> s1 = t4 \<or> s1 = t5 \<or> s1 = t6"
    using assms by (auto simp: open_container_def t1 t2 t3 t4 t5 t6 split: bool.splits option.splits if_splits)
  have "s_fs s1 = s_fs s" "s_seen s1 = s_seen s"
    using s1 p1(1,2) p2(1,2) k3(1,2) k4(1,2) k5(1,2) k6(1,2) by metis+
  moreover have "b \<and> s_ans s1 = []" if "s_ans s = []" "s_pool s = []"
  proof -
    have b1: "b1" "s_ans t1 = []" using p1(3,4) that by simp_all
    have b2: "b2" "s_ans t2 = []" using p2(3,4) p1(4) that b1 by simp_all
    have r3: "r3 = None" "t3 = t2" using k3(4) b2(2) by simp_all
    have r4: "r4 = None" "t4 = t3" using k4(4) b2(2) r3(2) by simp_all
    have r5: "r5 = None" "t5 = t4" using k5(4) b2(2) r3(2) r4(2) by simp_all
    have r6: "r6 = None" "t6 = t1" using k6(4) b1(2) by simp_all
    have t4': "t4 = t2" "t5 = t2" using r3(2) r4(2) r5(2) by simp_all
    have "b \<and> (s1 = t5 \<or> s1 = t6)"
      using assms b1(1) b2(1) r3(1) r4(1) r5(1) r6(1)
      by (cases c) (simp_all add: open_container_def t1 t2 t3 t4 t5 t6)
    then show ?thesis using t4' r6(2) b1(2) b2(2) by metis
  qed
  ultimately show ?thesis by blast
qed

lemma order_store_result:
  assumes "order_store I j s = (rc, s')" "fs_segment I SEG_MAX (j_domain j) = Some seg"
    "fwf (s_fs s)" "s_seen s = []"
  shows "store_result j (s_fs s) seg
    (s_ans s = [] \<and> s_pool s = [] \<and> j_store_path j \<noteq> [] \<and> domain_safe (j_domain j) = NGX_OK \<and> seg \<noteq> []
      \<and> length seg \<le> SEG_MAX \<and> removable (s_fs s) (staging_leaf seg) \<and> unobstructed j (s_fs s) seg) rc s'"
proof -
  obtain b s1 where oc: "open_container (j_layout j = STORE_CERTBOT) s = (b, s1)" by fastforce
  note k = open_container_keeps [OF oc]
  have a: "always (before (s_fs s) seg) s" "always (before (s_fs s) seg) s1"
    using before_refl [OF assms(3)] assms(4) k by (simp_all add: always_def)
  show ?thesis
  proof (cases "j_store_path j \<noteq> [] \<and> domain_safe (j_domain j) = NGX_OK \<and> seg \<noteq> [] \<and> b \<and> length seg \<le> SEG_MAX")
    case True
    then have "store_in_container j seg s1 = (rc, s')" using assms(1,2) oc by (simp add: order_store_def)
    from store_in_container_ok [OF assms(3) _ _ this] k assms(4) show ?thesis
      by (auto simp: store_result_def Let_def)
  next
    case False
    have "rc = NGX_ERROR \<and> (s' = s \<or> s' = s1)"
      using assms(1,2) oc False by (auto simp: order_store_def split: if_splits bool.splits)
    then show ?thesis
      using store_result_fail [OF a(1) disjI1 staging_ne] store_result_fail [OF a(2) disjI1 staging_ne] False k
      by metis
  qed
qed

lemma split_find_append: "split_find mk full = Some (leaf, rest) \<Longrightarrow> full = leaf @ rest \<and> (\<exists>pre. leaf = pre @ mk)"
proof (induction mk full arbitrary: leaf rest rule: split_find.induct)
  case (2 mk c cs)
  show ?case
  proof (cases "length mk \<le> length (c # cs) \<and> memcmp (take (length mk) (c # cs)) mk = 0")
    case True
    then have "take (length mk) (c # cs) = mk" using memcmp_zero [of "take (length mk) (c # cs)" mk] by simp
    moreover have "leaf = take (length mk) (c # cs)" "rest = drop (length mk) (c # cs)" using 2(2) True by simp_all
    ultimately show ?thesis by (metis append_Nil append_take_drop_id)
  next
    case False
    then obtain l where "split_find mk cs = Some (l, rest)" "leaf = c # l" using 2(2) by (auto split: if_splits)
    then show ?thesis using 2(1) [OF False] by fastforce
  qed
qed simp

lemma split_newlines_append: "split_newlines bs = (nl, rest) \<Longrightarrow> bs = nl @ rest"
  by (induction bs arbitrary: nl rest rule: split_newlines.induct) (auto split: if_splits prod.splits)

lemma split_chain_append: "split_chain full = Some (leaf, rest) \<Longrightarrow> full = leaf @ rest"
  using split_find_append split_newlines_append by (fastforce simp: split_chain_def split: option.splits prod.splits)

lemma new_dir_files:
  "new_dir j v (pn_priv (keytype_pem_names (j_key_type j))) = Some (Plain (j_key_pem j) 384)"
  "new_dir j v (pn_chain (keytype_pem_names (j_key_type j))) = Some (Plain (j_chain j) 420)"
  using own_names_facts(1) [of "j_key_type j"]
  by (auto simp: new_dir_def overlay_def new_files_def pair_files_def own_names_def Let_def)

lemma new_dir_other:
  assumes "n \<notin> set (own_names (j_key_type j))"
  shows "new_dir j v n = carried (j_key_type j) v n"
proof -
  have "n \<notin> fst ` set (new_files j)" using assms new_files_own by blast
  then show ?thesis by (simp add: new_dir_def overlay_def map_of_eq_None_iff [THEN iffD2])
qed

lemma new_dir_certbot:
  assumes "j_layout j = STORE_CERTBOT" "split_chain (j_chain j) = Some (leaf, rest)"
  shows "new_dir j v (pn_leaf (keytype_pem_names (j_key_type j))) = Some (Plain leaf 420)"
    "new_dir j v (pn_rest (keytype_pem_names (j_key_type j))) = Some (Plain rest 420)"
  using own_names_facts(1) [of "j_key_type j"] assms
  by (auto simp: new_dir_def overlay_def new_files_def pair_files_def own_names_def Let_def)

text \<open>
  Claim C4.  Commits are atomic.  Whatever the system calls answer while a certificate is
  stored, every state that the file system goes through, the last one included, shows under
  the name either what was there before the call or the complete new directory, and the new
  one only with the directory and the files of the pair flushed to disk.
\<close>

theorem order_store_atomic:
  assumes "order_store I j s = (rc, s')" "fs_segment I SEG_MAX (j_domain j) = Some seg"
    "fwf (s_fs s)" "s_seen s = []" "f \<in> set (s_fs s' # s_seen s')"
  shows "view f seg = view (s_fs s) seg
    \<or> view f seg = Directory (new_dir j (view (s_fs s) seg)) \<and> durable (own_names (j_key_type j)) f seg"
proof -
  from order_store_result [OF assms(1-4)] assms(5)
  have "before (s_fs s) seg f \<or> after (own_names (j_key_type j)) (new_dir j (view (s_fs s) seg)) seg f"
    by (auto simp: store_result_def Let_def always_def list_all_iff)
  then show ?thesis using before_view [OF _ assms(3)] after_view by blast
qed

text \<open>
  Claim C5.  What a successful commit leaves.  When the store reports success, the live
  directory of the name holds the private key with mode 0600 and the chain with mode 0644,
  in the certbot layout also the leaf and the rest of the chain, which concatenate to it; the
  regular files of the other key type are those that were there before; and the pair, its
  directory and the entry of the directory are flushed.
\<close>

theorem order_store_committed:
  assumes "order_store I j s = (NGX_OK, s')" "fs_segment I SEG_MAX (j_domain j) = Some seg"
    "fwf (s_fs s)" "s_seen s = []"
  shows "\<exists>d. view (s_fs s') seg = Directory d
    \<and> d (pn_priv (keytype_pem_names (j_key_type j))) = Some (Plain (j_key_pem j) 384)
    \<and> d (pn_chain (keytype_pem_names (j_key_type j))) = Some (Plain (j_chain j) 420)
    \<and> (j_layout j = STORE_CERTBOT \<longrightarrow>
         (\<exists>leaf rest. j_chain j = leaf @ rest
            \<and> d (pn_leaf (keytype_pem_names (j_key_type j))) = Some (Plain leaf 420)
            \<and> d (pn_rest (keytype_pem_names (j_key_type j))) = Some (Plain rest 420)))
    \<and> (\<forall>n \<in> set store_files - set (own_names (j_key_type j)).
         d n = (case view (s_fs s) seg of Directory old \<Rightarrow> plain_only (old n) | _ \<Rightarrow> None))
    \<and> durable (own_names (j_key_type j)) (s_fs s') seg \<and> f_csync (s_fs s')"
proof -
  let ?d = "new_dir j (view (s_fs s) seg)"
  from order_store_result [OF assms]
  have P: "after (own_names (j_key_type j)) ?d seg (s_fs s')" "f_csync (s_fs s')"
    and c: "j_layout j = STORE_CERTBOT \<longrightarrow> split_chain (j_chain j) \<noteq> None"
    by (auto simp: store_result_def Let_def)
  have cb: "j_layout j = STORE_CERTBOT \<longrightarrow>
         (\<exists>leaf rest. j_chain j = leaf @ rest
            \<and> ?d (pn_leaf (keytype_pem_names (j_key_type j))) = Some (Plain leaf 420)
            \<and> ?d (pn_rest (keytype_pem_names (j_key_type j))) = Some (Plain rest 420))"
    using c split_chain_append new_dir_certbot by fastforce
  have other: "\<forall>n \<in> set store_files - set (own_names (j_key_type j)).
       ?d n = (case view (s_fs s) seg of Directory old \<Rightarrow> plain_only (old n) | _ \<Rightarrow> None)"
    by (auto simp: new_dir_other carried_def split: view.splits)
  show ?thesis
    by (intro exI [of _ ?d] conjI cb other new_dir_files P(2)) (use after_view [OF P(1)] in simp_all)
qed

text \<open>
  Claim C6.  The store gets through.  When no call fails, the name is safe and fits, the live
  entry is absent or a directory, a staging directory left by a crash holds only files of the
  store, and in the certbot layout the chain has a certificate to split off, the store
  succeeds.
\<close>

theorem order_store_progress:
  assumes "fs_segment I SEG_MAX (j_domain j) = Some seg" "fwf (s_fs s)" "s_seen s = []"
    "s_ans s = []" "s_pool s = []" "j_store_path j \<noteq> []" "domain_safe (j_domain j) = NGX_OK"
    "seg \<noteq> []" "length seg \<le> SEG_MAX" "f_cont (s_fs s) seg \<noteq> Some C_Other"
    "removable (s_fs s) (staging_leaf seg)"
    "j_layout j = STORE_CERTBOT \<longrightarrow> split_chain (j_chain j) \<noteq> None"
  shows "fst (order_store I j s) = NGX_OK"
proof -
  obtain rc s' where r: "order_store I j s = (rc, s')" by fastforce
  from order_store_result [OF r assms(1-3)] assms(4-12) have "rc = NGX_OK"
    by (auto simp: store_result_def Let_def unobstructed_def)
  then show ?thesis using r by simp
qed

section \<open>A concrete store\<close>

text \<open>
  A live directory with an old pair and an RSA pair beside it, and a staging directory that
  a crash has left.
\<close>

definition demo_fs :: fs where
  "demo_fs =
     \<lparr>f_cont = (\<lambda>_. None)(str ''a.example'' := Some (C_Dir 0), str ''a.example.tmp'' := Some (C_Dir 1)),
      f_dirs = (\<lambda>_. [])(0 := [(str ''privkey.pem'', D_Reg 0), (str ''privkey.rsa.pem'', D_Reg 1)],
                         1 := [(str ''chain.pem'', D_Reg 2)]),
      f_dsync = (\<lambda>_. True), f_csync = True,
      f_inodes = (\<lambda>i. \<lparr>i_data = [word_of_nat i], i_mode = 384, i_nlink = 1, i_synced = True\<rparr>),
      f_nextd = 2, f_nexti = 3\<rparr>"

definition demo_io :: "answer list \<Rightarrow> io" where
  "demo_io as = \<lparr>s_fs = demo_fs, s_seen = [], s_ans = as, s_pool = []\<rparr>"

definition demo_job :: store_job where
  "demo_job =
     \<lparr>j_store_path = str ''/store'', j_domain = str ''a.example'', j_key_type = KEY_P256,
      j_layout = STORE_SECURE, j_key_pem = str ''key'', j_chain = str ''chain''\<rparr>"

lemma demo_fwf: "fwf demo_fs"
  by (auto simp: fwf_def demo_fs_def split: if_splits)

lemma demo_seg: "fs_segment toy_inet SEG_MAX (j_domain demo_job) = Some (str ''a.example'')"
  by code_simp

lemma demo_store_ok: "\<exists>s'. order_store toy_inet demo_job (demo_io []) = (NGX_OK, s')"
proof -
  obtain rc s' where r: "order_store toy_inet demo_job (demo_io []) = (rc, s')" by fastforce
  have "removable demo_fs (staging_leaf (str ''a.example''))"
    by (simp add: removable_def demo_fs_def staging_leaf_def store_files_def)
  moreover have "domain_safe (j_domain demo_job) = NGX_OK" by (simp add: domain_safe_def demo_job_def)
  moreover have "unobstructed demo_job demo_fs (str ''a.example'')"
    by (simp add: unobstructed_def demo_job_def demo_fs_def)
  ultimately have "rc = NGX_OK"
    using order_store_result [OF r demo_seg] demo_fwf
    by (simp add: store_result_def Let_def demo_io_def demo_job_def)
  then show ?thesis using r by blast
qed

theorem order_store_atomic_witness:
  "\<exists>rc s'. order_store toy_inet demo_job (demo_io [Go, Fail EOTHER]) = (rc, s')
     \<and> view (s_fs s') (str ''a.example'') \<in>
         {view demo_fs (str ''a.example''), Directory (new_dir demo_job (view demo_fs (str ''a.example'')))}"
proof -
  obtain rc s' where r: "order_store toy_inet demo_job (demo_io [Go, Fail EOTHER]) = (rc, s')" by fastforce
  from order_store_atomic [OF r demo_seg, of "s_fs s'"] demo_fwf r show ?thesis
    by (auto simp: demo_io_def)
qed

theorem order_store_committed_witness:
  "\<exists>s' d. order_store toy_inet demo_job (demo_io []) = (NGX_OK, s')
     \<and> view (s_fs s') (str ''a.example'') = Directory d
     \<and> d (str ''privkey.pem'') = Some (Plain (str ''key'') 384)
     \<and> d (str ''privkey.rsa.pem'') = Some (Plain [1] 384)"
proof -
  obtain s' where r: "order_store toy_inet demo_job (demo_io []) = (NGX_OK, s')" using demo_store_ok by blast
  have v: "view demo_fs (str ''a.example'') = Directory (look demo_fs 0)" by (simp add: view_def demo_fs_def)
  have l: "plain_only (look demo_fs 0 (str ''privkey.rsa.pem'')) = Some (Plain [1] 384)"
    by (simp add: look_def demo_fs_def dentry_view_def plain_only_def)
  have n: "str ''privkey.rsa.pem'' \<in> set store_files - set (own_names KEY_P256)"
    by (simp add: store_files_def own_names_def keytype_pem_names_def is_rsa_def Let_def)
  have p: "pn_priv (keytype_pem_names KEY_P256) = str ''privkey.pem''" by (simp add: keytype_pem_names_def is_rsa_def)
  from order_store_committed [OF r demo_seg] demo_fwf
  obtain d where "view (s_fs s') (str ''a.example'') = Directory d"
    "d (str ''privkey.pem'') = Some (Plain (str ''key'') 384)" "d (str ''privkey.rsa.pem'') = Some (Plain [1] 384)"
    using n l v p by (auto simp: demo_io_def demo_job_def simp del: str_simps)
  then show ?thesis using r by blast
qed

theorem order_store_progress_witness: "fst (order_store toy_inet demo_job (demo_io [])) = NGX_OK"
proof (rule order_store_progress [OF demo_seg])
  show "fwf (s_fs (demo_io []))" using demo_fwf by (simp add: demo_io_def)
qed (simp_all add: demo_io_def demo_job_def domain_safe_def demo_fs_def removable_def staging_leaf_def store_files_def)

end
