(* ===== verification/Spec2Isabelle.thy ===== *)
theory Spec2Isabelle
  imports Challenge Alpn Requests Json_Grammar Ident Caps Seed Acme_Properties Order_Store_Correct
begin

text \<open>
  Verification of the nginx autocert module (sources under \<^verbatim>\<open>src/\<close>), which
  obtains and renews certificates over ACME (RFC 8555) inside worker 0 of nginx and serves
  them from every worker.

  \<^bold>\<open>The program.\<close>  The workers share four tables in shared memory: the http-01
  tokens (\<^verbatim>\<open>ngx_autocert_challenge.c\<close>), the tls-alpn-01 certificates
  (\<^verbatim>\<open>ngx_autocert_alpn.c\<close>), the runtime requests for host names seen in
  handshakes (\<^verbatim>\<open>ngx_autocert_requests.c\<close>) and the load budget
  (\<^verbatim>\<open>ngx_autocert_loadcap.h\<close>).  The driver on worker 0
  (\<^verbatim>\<open>ngx_autocert_driver.c\<close>) runs a timer: each tick sweeps the configured
  names and the runtime requests, applies the holds and rate caps, and starts at most one
  order at a time.  An order talks to the CA through the HTTPS client of
  \<^verbatim>\<open>ngx_autocert_acme.c\<close> and reads its answers with the JSON parser of
  \<^verbatim>\<open>ngx_autocert_json.c\<close>; its completion is recorded by the driver, which
  goes on with the sweep.

  \<^bold>\<open>The theories, in the order of the calls.\<close>

  \<^item> \<open>Prelude\<close>: bytes, machine words, return codes, allocators, the C string
    functions.  A buffer is a list of bytes; a cursor is the list still unread.
  \<^item> \<open>Name_Tree\<close>, \<open>Name_Store\<close>: the search tree that the tables are kept in
    (insertion and lookup as the sources walk them; the rebalancing of nginx is a parameter
    with the in-order law as hypothesis; the discipline is the locale \<open>name_index\<close>), and the contract of a name store
    as a locale, with the theorem that any history of calls agrees with a finite map.
  \<^item> \<open>Challenge\<close>, \<open>Alpn\<close>: the two tables, each an interpretation of both
    locales, with the invariant of the slab and the wiping of private keys.
  \<^item> \<open>Dns_Names\<close>: what a host name is, over its labels; the reference for the two
    validators.
  \<^item> \<open>Requests\<close>: the registry of runtime requests: normalization, ensure, drain,
    state changes with backoff, eviction, reload.
  \<^item> \<open>Json\<close>, \<open>Json_Grammar\<close>: the parser and its accessors, and its
    equivalence with a grammar relation for RFC 8259, with totality under failing
    allocations and the round trip.
  \<^item> \<open>Ident\<close>: name validation, the coverage rules for certificates and wildcards,
    and the mapping of identifiers to directory names.
  \<^item> \<open>Caps\<close>: the rolling rate windows, the load budget on 64-bit counters, the
    clamped conversion of delays.
  \<^item> \<open>Driver\<close>, \<open>Scheduler\<close>: the data of the driver, and the timer, the sweep,
    the service of runtime requests and the completion of an order.
    \<open>Scheduler_Correct\<close> and \<open>Driver_Machine\<close> hold the proofs: the driver as a
    state machine, its reachable states and their invariants.
  \<^item> \<open>Seed\<close>: the markers of runtime names on disk and the walk in chunks that
    restores them after a restart.
  \<^item> \<open>Acme_Http\<close>, \<open>Acme_Client\<close>: the HTTPS client: URL splitter, origin pin,
    request text, incremental response parser with the chunked decoder, and the handlers of
    a request from its start to its completion.  \<open>Acme_Framing\<close>, \<open>Acme_Dechunk\<close>,
    \<open>Acme_Response\<close> and \<open>Acme_Read\<close> prove the read side independent of how
    the network splits a response; \<open>Acme_Messages\<close> and \<open>Acme_Properties\<close>
    state what goes over the wire; \<open>Acme_Machine\<close> treats a request as a machine over
    the events that can be delivered to it.

  \<^item> \<open>Order_Store\<close>, \<open>Order_Store_Correct\<close>: the commit of an issued pair to the
    store (\<^verbatim>\<open>ngx_autocert_order_store\<close> and its helpers) over a file system
    with inodes, hard links and flushed state; the proofs follow every state that the file
    system goes through.

  \<^bold>\<open>What the theorems show.\<close>  The tables refine finite maps and never leak or
  expose key material.  The registry holds at most 64 distinct normalized names in every
  reachable state, and each operation does what its contract says on every branch.  The JSON
  parser accepts exactly the texts of the grammar up to nesting 32 and never writes out of
  bounds.  Identifiers map to directory names injectively and cannot leave the store, and
  can be embedded in JSON without escaping.  The caps hold over every window of time.  The
  driver never stalls, launches only due names, leaves no due name behind, and arms its
  timer in time.  A walk in chunks restores the same registry as one pass.  The HTTPS client
  writes nothing to an unverified peer or to another origin than the pinned one, calls its
  handler exactly once, and delivers the same response under every split of the stream.  A
  commit to the store is atomic and durable under any failure of the system calls, keeps the
  certificate of the other key type, and succeeds when nothing fails.

  \<^bold>\<open>Bounds and fuel.\<close>  The drain loop of the driver runs on fuel 66, which is the
  capacity of the registry and two more rounds; it is proved never to use it up.  The JSON
  parser runs on three times the length of its input and one; it is proved never to run out.
  The walk over the store is bounded by the number of its entries.  Everything else is
  structural or has a termination proof (the read loop by the bytes pending).

  \<^bold>\<open>Parameters.\<close>  Code outside the repository is an argument: the rebalancing of
  the red-black tree, the CRC of names, the address parsers, the certificate checks of
  OpenSSL, the answers of the event loop, of the resolver and of sockets, and which
  allocations and system calls fail (lists of answers).  The hypotheses on them are those of the documented
  behaviour and are discharged for concrete instances in the witnesses.

  \<^bold>\<open>Not modelled.\<close>  The steps of an order up to its commit
  (\<^verbatim>\<open>ngx_autocert_order.c\<close>), the registration of an account and the signing
  of requests (\<^verbatim>\<open>ngx_autocert_account.c\<close>), the handshake side that serves
  certificates (\<^verbatim>\<open>ngx_autocert_serve.c\<close>) and the key and certificate
  helpers (\<^verbatim>\<open>ngx_http_autocert_crypto.c\<close>, of which only the wiping is
  used), since they are sequences of OpenSSL and file system calls around the parts above;
  the directives (\<^verbatim>\<open>ngx_http_autocert_module.c\<close>), which are configuration
  tables of nginx; the driver's account bootstrap, lock and teardown; and the Windows port
  (\<^verbatim>\<open>ngx_autocert_win32.h\<close>).  For the scheduler the start of an order
  and its completion are events with an arbitrary outcome, so its theorems hold for
  every behaviour of these parts.
\<close>

end
